(* ===== verification/Prelude.thy ===== *)
theory Prelude
  imports Main "HOL-Library.Word" "HOL-Library.Sublist"
begin

text \<open>
  The prelude of the development: machine integers, the faults a C statement can end in,
  checked array accesses, the constants of \<^verbatim>\<open>includes/consensus.h\<close>, the actions a message
  handler performs on its environment (the Smelt runtime, the executed application
  function, the shared memory queue), and the collections of rewrite rules the component
  theories share.
\<close>

unbundle bit_operations_syntax

type_synonym u8 = "8 word"
type_synonym u16 = "16 word"
type_synonym u32 = "32 word"
type_synonym u64 = "64 word"

text \<open>
  A Smelt message: \<^verbatim>\<open>smlt_message_alloc(56)\<close> gives a buffer of seven 64-bit words, which
  the code reads and writes as \<^verbatim>\<open>msg->data[0]\<close> to \<^verbatim>\<open>msg->data[6]\<close>.
\<close>

type_synonym msg = "u64 list"

definition wf_msg :: "msg \<Rightarrow> bool" where
  "wf_msg m \<longleftrightarrow> length m = 7"

subsection \<open>Constants of the configuration header\<close>

definition MAX_NUM_CLIENTS :: nat where "MAX_NUM_CLIENTS = 64"
definition MAX_NUM_REPLICAS :: nat where "MAX_NUM_REPLICAS = 64"

definition CORE_LEVEL :: u8 where "CORE_LEVEL = 0"
definition NODE_LEVEL :: u8 where "NODE_LEVEL = 1"

definition ALG_1PAXOS :: u8 where "ALG_1PAXOS = 0"
definition ALG_TPC :: u8 where "ALG_TPC = 1"
definition ALG_BROAD :: u8 where "ALG_BROAD = 2"
definition ALG_CHAIN :: u8 where "ALG_CHAIN = 3"
definition ALG_RAFT :: u8 where "ALG_RAFT = 4"
definition ALG_SHM :: u8 where "ALG_SHM = 5"
definition ALG_NONE :: u8 where "ALG_NONE = 6"

subsection \<open>Faults and checked accesses\<close>

text \<open>
  What C leaves undefined is a value of the model: reading or writing past the end of an
  array, dereferencing a null or a freed pointer, calling a null function pointer, dividing
  by zero, a failed \<^verbatim>\<open>assert\<close>; and a receive on a channel that never gets a message.
\<close>

datatype fault =
    OutOfBounds
  | NullDeref
  | UseAfterFree
  | Uninitialised
  | AssertFail
  | DivByZero
  | NullCall
  | Blocked

type_synonym 'a res = "fault + 'a"

definition bindr :: "'a res \<Rightarrow> ('a \<Rightarrow> 'b res) \<Rightarrow> 'b res" where
  "bindr r f = (case r of Inl e \<Rightarrow> Inl e | Inr x \<Rightarrow> f x)"

definition rd :: "'a list \<Rightarrow> nat \<Rightarrow> 'a res" where
  "rd xs i = (if i < length xs then Inr (xs ! i) else Inl OutOfBounds)"

definition wr :: "'a list \<Rightarrow> nat \<Rightarrow> 'a \<Rightarrow> 'a list res" where
  "wr xs i v = (if i < length xs then Inr (xs[i := v]) else Inl OutOfBounds)"

text \<open>A \<^verbatim>\<open>for\<close> loop whose body yields one value per index, stopping at the first fault.\<close>

fun mapr :: "('a \<Rightarrow> 'b res) \<Rightarrow> 'a list \<Rightarrow> 'b list res" where
  "mapr f [] = Inr []"
| "mapr f (x # xs) = bindr (f x) (\<lambda>y. bindr (mapr f xs) (\<lambda>ys. Inr (y # ys)))"

text \<open>A \<^verbatim>\<open>for\<close> loop that threads a state.\<close>

fun foldr_res :: "('a \<Rightarrow> 's \<Rightarrow> 's res) \<Rightarrow> 'a list \<Rightarrow> 's \<Rightarrow> 's res" where
  "foldr_res f [] s = Inr s"
| "foldr_res f (x # xs) s = bindr (f x s) (foldr_res f xs)"

subsection \<open>Actions of a handler\<close>

text \<open>
  The application function is a C function pointer; the replicas only store it, test it
  for null, and call it. \<open>Default_exec_fn\<close> is the empty \<^verbatim>\<open>default_exec_fn\<close> of each file.
\<close>

datatype exec_fn = Default_exec_fn | App_exec_fn nat

definition choose_exec :: "exec_fn option \<Rightarrow> exec_fn" where
  "choose_exec f = (case f of None \<Rightarrow> Default_exec_fn | Some g \<Rightarrow> g)"

text \<open>
  The calls a handler makes, in the order it makes them. \<open>Send\<close> and \<open>Bcast\<close> are
  \<^verbatim>\<open>smlt_send\<close> and \<^verbatim>\<open>smlt_broadcast\<close> (the message is copied when it is sent); \<open>Exec\<close> calls
  the application function on the words of the message from \<^verbatim>\<open>data[4]\<close>; \<open>ShmWrite\<close> is
  \<^verbatim>\<open>shm_write\<close>; \<open>NodeSend\<close> and \<open>NodeRecv\<close> are \<^verbatim>\<open>smlt_node_send\<close> and \<^verbatim>\<open>smlt_node_recv\<close> of the
  communication layer; \<open>Reduce\<close> is the contribution to a \<^verbatim>\<open>smlt_reduce\<close>; \<open>Print\<close> is a diagnostic message.
\<close>

datatype action =
    Send nat msg
  | Bcast msg
  | Exec exec_fn "u64 list"
  | ShmWrite "u64 list"
  | NodeSend nat msg
  | NodeRecv nat
  | Reduce msg
  | Print string

definition payload :: "msg \<Rightarrow> u64 list" where
  "payload m = drop 4 m"

fun execs :: "action list \<Rightarrow> u64 list list" where
  "execs [] = []"
| "execs (Exec f p # as) = p # execs as"
| "execs (a # as) = execs as"

fun sends_to :: "nat \<Rightarrow> action list \<Rightarrow> msg list" where
  "sends_to c [] = []"
| "sends_to c (Send d m # as) = (if d = c then m # sends_to c as else sends_to c as)"
| "sends_to c (a # as) = sends_to c as"

subsection \<open>Collections of rewrite rules\<close>

named_theorems algs \<open>the numeric constants of the protocols\<close>
named_theorems res_simps \<open>results, binds and checked accesses\<close>

lemmas alg_consts [algs] =
  CORE_LEVEL_def NODE_LEVEL_def ALG_1PAXOS_def ALG_TPC_def ALG_BROAD_def ALG_CHAIN_def
  ALG_RAFT_def ALG_SHM_def ALG_NONE_def

lemma bindr_Inl [simp]: "bindr (Inl e) f = Inl e"
  by (simp add: bindr_def)

lemma bindr_Inr [simp]: "bindr (Inr x) f = f x"
  by (simp add: bindr_def)

lemma bindr_eq_Inr: "bindr r f = Inr y \<longleftrightarrow> (\<exists>x. r = Inr x \<and> f x = Inr y)"
  by (cases r) auto

lemma bindr_Inr_right: "bindr r Inr = r"
  by (cases r) auto

lemma bindr_assoc: "bindr (bindr r f) g = bindr r (\<lambda>x. bindr (f x) g)"
  by (cases r) auto

lemma rd_Inr [simp]: "i < length xs \<Longrightarrow> rd xs i = Inr (xs ! i)"
  by (simp add: rd_def)

lemma rd_eq_Inr: "rd xs i = Inr y \<longleftrightarrow> i < length xs \<and> y = xs ! i"
  by (auto simp: rd_def)

lemma rd_Inl [simp]: "\<not> i < length xs \<Longrightarrow> rd xs i = Inl OutOfBounds"
  by (simp add: rd_def)

lemma wr_Inr [simp]: "i < length xs \<Longrightarrow> wr xs i v = Inr (xs[i := v])"
  by (simp add: wr_def)

lemma wr_eq_Inr: "wr xs i v = Inr ys \<longleftrightarrow> i < length xs \<and> ys = xs[i := v]"
  by (auto simp: wr_def)

lemma wr_Inl [simp]: "\<not> i < length xs \<Longrightarrow> wr xs i v = Inl OutOfBounds"
  by (simp add: wr_def)

lemmas res_conv [res_simps] = bindr_eq_Inr rd_eq_Inr wr_eq_Inr

lemma mapr_append:
  "mapr f (xs @ ys) = bindr (mapr f xs) (\<lambda>us. bindr (mapr f ys) (\<lambda>vs. Inr (us @ vs)))"
  by (induction xs) (simp_all add: bindr_assoc bindr_Inr_right)

lemma mapr_all_Inr: "(\<And>x. x \<in> set xs \<Longrightarrow> f x = Inr (g x)) \<Longrightarrow> mapr f xs = Inr (map g xs)"
  by (induction xs) auto

lemma mapr_eq_Inr:
  "mapr f xs = Inr ys \<longleftrightarrow> length ys = length xs \<and> (\<forall>i < length xs. f (xs ! i) = Inr (ys ! i))"
proof (induction xs arbitrary: ys)
  case Nil
  then show ?case by auto
next
  case (Cons x xs)
  show ?case
  proof (cases ys)
    case Nil
    then show ?thesis by (auto simp: bindr_eq_Inr)
  next
    case (Cons z zs)
    then show ?thesis by (auto simp: bindr_eq_Inr Cons.IH less_Suc_eq_0_disj)
  qed
qed

lemma foldr_res_Nil_fun [simp]: "foldr_res f [] = Inr"
  by (rule ext) simp

lemma foldr_res_append:
  "foldr_res f (xs @ ys) s = bindr (foldr_res f xs s) (foldr_res f ys)"
proof (induction xs arbitrary: s)
  case Nil
  then show ?case by simp
next
  case (Cons x xs)
  then show ?case by (cases "f x s") simp_all
qed

lemma foldr_res_single: "foldr_res f [x] = f x"
  by (rule ext) (simp add: bindr_Inr_right)

lemma foldr_res_snoc: "foldr_res f (xs @ [x]) s = bindr (foldr_res f xs s) (f x)"
  by (simp only: foldr_res_append foldr_res_single)

lemma foldr_res_invariant:
  assumes "foldr_res f xs s = Inr s'" and "P s"
    and "\<And>x s s'. x \<in> set xs \<Longrightarrow> P s \<Longrightarrow> f x s = Inr s' \<Longrightarrow> P s'"
  shows "P s'"
  using assms
proof (induction xs arbitrary: s)
  case Nil
  then show ?case by simp
next
  case (Cons x xs)
  from Cons.prems(1) obtain s1 where "f x s = Inr s1" "foldr_res f xs s1 = Inr s'"
    by (auto simp: bindr_eq_Inr)
  with Cons show ?case by (meson list.set_intros)
qed

lemma wr_range:
  "k \<le> length xs \<Longrightarrow> foldr_res (\<lambda>i v. wr v i z) [0..<k] xs = Inr (replicate k z @ drop k xs)"
proof (induction k)
  case 0
  then show ?case by simp
next
  case (Suc k)
  then have "(replicate k z @ drop k xs)[k := z] = replicate (Suc k) z @ drop (Suc k) xs"
    by (simp add: list_update_append Cons_nth_drop_Suc [symmetric] replicate_append_same)
  with Suc show ?case by (simp add: foldr_res_snoc)
qed

lemma execs_append [simp]: "execs (as @ bs) = execs as @ execs bs"
  by (induction as rule: execs.induct) auto

lemma sends_to_append [simp]: "sends_to c (as @ bs) = sends_to c as @ sends_to c bs"
  by (induction c as rule: sends_to.induct) auto

lemma execs_map_Send [simp]: "execs (map (\<lambda>x. Send (f x) (g x)) xs) = []"
  by (induction xs) auto

lemma sends_to_map_Send_notin:
  "(\<And>x. x \<in> set xs \<Longrightarrow> f x \<noteq> c) \<Longrightarrow> sends_to c (map (\<lambda>x. Send (f x) (g x)) xs) = []"
  by (induction xs) auto

lemma sends_to_map_Send_one:
  "distinct (map f xs) \<Longrightarrow> x \<in> set xs \<Longrightarrow>
   sends_to (f x) (map (\<lambda>x. Send (f x) m) xs) = [m]"
proof (induction xs)
  case Nil
  then show ?case by simp
next
  case (Cons y ys)
  have rest: "sends_to (f y) (map (\<lambda>x. Send (f x) m) ys) = []"
    using Cons.prems(1) by (intro sends_to_map_Send_notin) (simp, metis image_eqI)
  show ?case
  proof (cases "x = y")
    case True
    with rest show ?thesis by simp
  next
    case False
    with Cons.prems have x: "x \<in> set ys" by simp
    with Cons.prems(1) have "f x \<noteq> f y" by (simp, metis image_eqI)
    with x Cons show ?thesis by simp
  qed
qed

lemma payload_length: "wf_msg m \<Longrightarrow> length (payload m) = 3"
  by (simp add: payload_def wf_msg_def)

lemma find_append: "find P (xs @ ys) = (case find P xs of None \<Rightarrow> find P ys | Some x \<Rightarrow> Some x)"
  by (induction xs) auto

lemma find_map: "find P (map f xs) = map_option f (find (\<lambda>x. P (f x)) xs)"
  by (induction xs) auto

lemma length_le_bound: "distinct as \<Longrightarrow> \<forall>a \<in> set as. a < n \<Longrightarrow> length as \<le> (n :: nat)"
  using card_mono [of "{..<n}" "set as"] by (auto simp: distinct_card subset_iff)

subsection \<open>Widening casts\<close>

lemma unat_widen [simp]:
  "unat (ucast (x8 :: u8) :: u16) = unat x8"
  "unat (ucast (x8 :: u8) :: u32) = unat x8"
  "unat (ucast (x8 :: u8) :: u64) = unat x8"
  "unat (ucast (x16 :: u16) :: u32) = unat x16"
  "unat (ucast (x16 :: u16) :: u64) = unat x16"
  "unat (ucast (x32 :: u32) :: u64) = unat x32"
  using unsigned_less [of x8, where 'a = nat] unsigned_less [of x16, where 'a = nat]
    unsigned_less [of x32, where 'a = nat]
  by (simp_all add: unsigned_ucast_eq take_bit_nat_eq_self_iff)

lemma unat_8_less [simp]: "unat (x :: u8) < 256"
  using unsigned_less [of x, where 'a = nat] by simp

lemma small_word: "n < 256 \<Longrightarrow> unat (of_nat n :: u8) = n"
  by (simp add: unat_of_nat take_bit_nat_eq_self)

lemma unat_of_nat_u64: "n < 2 ^ 63 \<Longrightarrow> unat (of_nat n :: u64) = n"
  by (simp add: unat_of_nat take_bit_nat_eq_self)

lemma from_unat: "unat (w :: u64) = n \<Longrightarrow> w = of_nat n"
  by auto

end
