(* ===== verification/Crc.thy ===== *)
theory Crc
  imports Prelude
begin

text \<open>
  The 16-bit checksum of \<^verbatim>\<open>crc.c\<close> and \<^verbatim>\<open>includes/crc.h\<close>. \<^verbatim>\<open>crc_t\<close> is \<^verbatim>\<open>uint_fast16_t\<close>, 64
  bits wide on the 64-bit machines the code targets, and the code masks it to 16 bits; the
  table holds the remainders of the 256 byte values. The main result is that the table-driven
  update is the bit-serial division by the reflected polynomial \<open>0xA001\<close>.
\<close>

definition crc_table :: "u64 list" where
  "crc_table = [
     0x0000, 0xc0c1, 0xc181, 0x0140, 0xc301, 0x03c0, 0x0280, 0xc241,
     0xc601, 0x06c0, 0x0780, 0xc741, 0x0500, 0xc5c1, 0xc481, 0x0440,
     0xcc01, 0x0cc0, 0x0d80, 0xcd41, 0x0f00, 0xcfc1, 0xce81, 0x0e40,
     0x0a00, 0xcac1, 0xcb81, 0x0b40, 0xc901, 0x09c0, 0x0880, 0xc841,
     0xd801, 0x18c0, 0x1980, 0xd941, 0x1b00, 0xdbc1, 0xda81, 0x1a40,
     0x1e00, 0xdec1, 0xdf81, 0x1f40, 0xdd01, 0x1dc0, 0x1c80, 0xdc41,
     0x1400, 0xd4c1, 0xd581, 0x1540, 0xd701, 0x17c0, 0x1680, 0xd641,
     0xd201, 0x12c0, 0x1380, 0xd341, 0x1100, 0xd1c1, 0xd081, 0x1040,
     0xf001, 0x30c0, 0x3180, 0xf141, 0x3300, 0xf3c1, 0xf281, 0x3240,
     0x3600, 0xf6c1, 0xf781, 0x3740, 0xf501, 0x35c0, 0x3480, 0xf441,
     0x3c00, 0xfcc1, 0xfd81, 0x3d40, 0xff01, 0x3fc0, 0x3e80, 0xfe41,
     0xfa01, 0x3ac0, 0x3b80, 0xfb41, 0x3900, 0xf9c1, 0xf881, 0x3840,
     0x2800, 0xe8c1, 0xe981, 0x2940, 0xeb01, 0x2bc0, 0x2a80, 0xea41,
     0xee01, 0x2ec0, 0x2f80, 0xef41, 0x2d00, 0xedc1, 0xec81, 0x2c40,
     0xe401, 0x24c0, 0x2580, 0xe541, 0x2700, 0xe7c1, 0xe681, 0x2640,
     0x2200, 0xe2c1, 0xe381, 0x2340, 0xe101, 0x21c0, 0x2080, 0xe041,
     0xa001, 0x60c0, 0x6180, 0xa141, 0x6300, 0xa3c1, 0xa281, 0x6240,
     0x6600, 0xa6c1, 0xa781, 0x6740, 0xa501, 0x65c0, 0x6480, 0xa441,
     0x6c00, 0xacc1, 0xad81, 0x6d40, 0xaf01, 0x6fc0, 0x6e80, 0xae41,
     0xaa01, 0x6ac0, 0x6b80, 0xab41, 0x6900, 0xa9c1, 0xa881, 0x6840,
     0x7800, 0xb8c1, 0xb981, 0x7940, 0xbb01, 0x7bc0, 0x7a80, 0xba41,
     0xbe01, 0x7ec0, 0x7f80, 0xbf41, 0x7d00, 0xbdc1, 0xbc81, 0x7c40,
     0xb401, 0x74c0, 0x7580, 0xb541, 0x7700, 0xb7c1, 0xb681, 0x7640,
     0x7200, 0xb2c1, 0xb381, 0x7340, 0xb101, 0x71c0, 0x7080, 0xb041,
     0x5000, 0x90c1, 0x9181, 0x5140, 0x9301, 0x53c0, 0x5280, 0x9241,
     0x9601, 0x56c0, 0x5780, 0x9741, 0x5500, 0x95c1, 0x9481, 0x5440,
     0x9c01, 0x5cc0, 0x5d80, 0x9d41, 0x5f00, 0x9fc1, 0x9e81, 0x5e40,
     0x5a00, 0x9ac1, 0x9b81, 0x5b40, 0x9901, 0x59c0, 0x5880, 0x9841,
     0x8801, 0x48c0, 0x4980, 0x8941, 0x4b00, 0x8bc1, 0x8a81, 0x4a40,
     0x4e00, 0x8ec1, 0x8f81, 0x4f40, 0x8d01, 0x4dc0, 0x4c80, 0x8c41,
     0x4400, 0x84c1, 0x8581, 0x4540, 0x8701, 0x47c0, 0x4680, 0x8641,
     0x8201, 0x42c0, 0x4380, 0x8341, 0x4100, 0x81c1, 0x8081, 0x4040]"

definition crc_reflect :: "u64 \<Rightarrow> nat \<Rightarrow> u64" where
  "crc_reflect data data_len =
     fst (foldl (\<lambda>(ret, data) _. let data = drop_bit 1 data in (push_bit 1 ret OR (data AND 1), data))
       (data AND 1, data) [1..<data_len])"

definition crc_init :: u64 where "crc_init = 0"

definition crc_step :: "u64 \<Rightarrow> u8 \<Rightarrow> u64 res" where
  "crc_step crc b =
     bindr (rd crc_table (unat ((crc XOR ucast b) AND 0xff)))
       (\<lambda>t. Inr ((t XOR drop_bit 8 crc) AND 0xffff))"

fun crc_loop :: "u64 \<Rightarrow> u8 list \<Rightarrow> u64 res" where
  "crc_loop crc [] = Inr crc"
| "crc_loop crc (b # bs) = bindr (crc_step crc b) (\<lambda>crc. crc_loop crc bs)"

definition crc_update :: "u64 \<Rightarrow> u8 list \<Rightarrow> u64 res" where
  "crc_update crc data = bindr (crc_loop crc data) (\<lambda>crc. Inr (crc AND 0xffff))"

definition crc_finalize :: "u64 \<Rightarrow> u64" where
  "crc_finalize crc = crc XOR 0"

subsection \<open>The reference: division of the bit string, one bit at a time\<close>

definition ref_bit :: "u64 \<Rightarrow> u64" where
  "ref_bit r = (if bit r 0 then drop_bit 1 r XOR 0xA001 else drop_bit 1 r)"

definition ref_byte :: "u64 \<Rightarrow> u8 \<Rightarrow> u64" where
  "ref_byte r b = (ref_bit ^^ 8) (r XOR ucast b)"

definition ref_crc :: "u64 \<Rightarrow> u8 list \<Rightarrow> u64" where
  "ref_crc r bs = foldl ref_byte r bs"

lemma ref_bit_xor: "ref_bit (x XOR y) = ref_bit x XOR ref_bit y"
  by (rule bit_word_eqI) (auto simp: ref_bit_def bit_simps)

lemma ref_bits_xor: "(ref_bit ^^ n) (x XOR y) = (ref_bit ^^ n) x XOR (ref_bit ^^ n) y"
  by (induction n) (simp_all add: ref_bit_xor)

lemma ref_bits_high: "(\<forall>i < n. \<not> bit x i) \<Longrightarrow> (ref_bit ^^ n) x = drop_bit n x"
proof (induction n)
  case 0
  then show ?case by simp
next
  case (Suc n)
  then have "(ref_bit ^^ n) x = drop_bit n x" "\<not> bit x n" by auto
  moreover have "(ref_bit ^^ Suc n) x = ref_bit ((ref_bit ^^ n) x)" by simp
  ultimately show ?case by (simp only:) (simp add: ref_bit_def bit_simps)
qed

lemma table_length: "length crc_table = 256"
  by (simp add: crc_table_def)

definition ref_eight :: "u64 \<Rightarrow> u64" where
  "ref_eight r = ref_bit (ref_bit (ref_bit (ref_bit (ref_bit (ref_bit (ref_bit (ref_bit r)))))))"

lemma ref_eight_eq: "ref_eight r = (ref_bit ^^ 8) r"
  by (simp add: ref_eight_def eval_nat_numeral)

fun table_from :: "u64 \<Rightarrow> u64 list \<Rightarrow> bool" where
  "table_from w [] \<longleftrightarrow> True"
| "table_from w (x # xs) \<longleftrightarrow> ref_eight w = x \<and> table_from (w + 1) xs"

lemma table_from_nth: "table_from w xs \<Longrightarrow> i < length xs \<Longrightarrow> xs ! i = ref_eight (w + of_nat i)"
proof (induction xs arbitrary: w i)
  case Nil
  then show ?case by simp
next
  case (Cons x xs)
  then show ?case by (cases i) (auto simp: add.assoc)
qed

lemma table_checked: "table_from 0 crc_table"
  unfolding crc_table_def by (simp add: ref_eight_def ref_bit_def)

lemma table_entry: "i < 256 \<Longrightarrow> crc_table ! i = (ref_bit ^^ 8) (of_nat i)"
  using table_from_nth [OF table_checked] by (simp add: table_length ref_eight_eq)

lemma mask_ff: "(0xff :: u64) = mask 8" "(0xffff :: u64) = mask 16"
  by (simp_all add: mask_eq_exp_minus_1)

lemma low_byte: "unat ((x :: u64) AND 0xff) < 256"
proof -
  have "x AND 0xff = take_bit 8 x" by (simp add: mask_ff flip: take_bit_eq_mask)
  then show ?thesis using take_bit_nat_less_exp [of 8 "unat x"] by (simp add: unsigned_take_bit_eq)
qed

lemma ref_byte_split:
  "ref_byte r b = (ref_bit ^^ 8) ((r XOR ucast b) AND 0xff) XOR drop_bit 8 r"
proof -
  let ?x = "r XOR ucast b"
  have x: "?x = (?x AND 0xff) XOR (?x AND NOT 0xff)"
    by (rule bit_word_eqI) (auto simp: bit_simps)
  have "(ref_bit ^^ 8) (?x AND NOT 0xff) = drop_bit 8 (?x AND NOT 0xff)"
    by (rule ref_bits_high) (simp add: mask_ff bit_simps)
  moreover have "drop_bit 8 (?x AND NOT 0xff) = drop_bit 8 r"
    by (rule bit_word_eqI) (auto simp: mask_ff bit_simps dest: bit_imp_le_length)
  ultimately show ?thesis unfolding ref_byte_def by (subst x) (simp only: ref_bits_xor)
qed

lemma crc_step_ref: "crc_step r b = Inr (ref_byte r b AND 0xffff)"
proof -
  let ?i = "unat ((r XOR ucast b) AND 0xff)"
  have "?i < length crc_table" using low_byte by (simp add: table_length)
  moreover have "crc_table ! ?i = (ref_bit ^^ 8) ((r XOR ucast b) AND 0xff)"
    using low_byte by (simp add: table_entry)
  ultimately show ?thesis by (simp add: crc_step_def ref_byte_split)
qed

lemma low_16_iff: "(x :: u64) AND 0xffff = x \<longleftrightarrow> (\<forall>n \<ge> 16. \<not> bit x n)"
proof -
  have "n < 64" if "bit x n" for n using bit_imp_le_length [OF that] by simp
  then show ?thesis by (simp add: mask_ff bit_eq_iff bit_simps) (meson not_less)
qed

lemma poly_low: "\<forall>n \<ge> 16. \<not> bit (0xA001 :: u64) n"
  unfolding low_16_iff [symmetric] by simp

lemma ref_bit_range: "\<forall>n \<ge> 16. \<not> bit x n \<Longrightarrow> \<forall>n \<ge> 16. \<not> bit (ref_bit x) n"
  using poly_low by (auto simp: ref_bit_def bit_simps)

lemma ref_bits_range: "\<forall>n \<ge> 16. \<not> bit x n \<Longrightarrow> \<forall>n \<ge> 16. \<not> bit ((ref_bit ^^ k) x) n"
proof (induction k)
  case 0
  then show ?case by simp
next
  case (Suc k)
  then show ?case using ref_bit_range [of "(ref_bit ^^ k) x"] by simp
qed

lemma ref_byte_range:
  assumes "r AND 0xffff = r"
  shows "ref_byte r b AND 0xffff = ref_byte r b"
proof -
  have "\<forall>n \<ge> 16. \<not> bit (r XOR ucast b) n"
    using assms unfolding low_16_iff by (auto simp: bit_simps dest: bit_imp_le_length)
  then show ?thesis unfolding low_16_iff ref_byte_def by (rule ref_bits_range)
qed

lemma ref_crc_range: "r AND 0xffff = r \<Longrightarrow> ref_crc r bs AND 0xffff = ref_crc r bs"
  unfolding ref_crc_def by (induction bs arbitrary: r) (simp_all add: ref_byte_range)

lemma crc_loop_ref: "r AND 0xffff = r \<Longrightarrow> crc_loop r bs = Inr (ref_crc r bs)"
  by (induction bs arbitrary: r) (simp_all add: ref_crc_def crc_step_ref ref_byte_range)

text \<open>Feeding a checksum its own two bytes gives zero.\<close>

lemma ref_byte_own:
  assumes "c AND 0xffff = c"
  shows "ref_byte (ref_byte c (ucast c)) (ucast (drop_bit 8 c)) = 0"
proof -
  have low: "ref_byte c (ucast c) = drop_bit 8 c"
  proof -
    have x: "c XOR ucast (ucast c :: u8) = push_bit 8 (drop_bit 8 c)"
      by (rule bit_word_eqI) (auto simp: bit_simps dest: bit_imp_le_length)
    have "(ref_bit ^^ 8) (push_bit 8 (drop_bit 8 c)) = drop_bit 8 (push_bit 8 (drop_bit 8 c))"
      by (rule ref_bits_high) (simp add: bit_simps)
    also have "\<dots> = drop_bit 8 c"
      by (rule bit_word_eqI) (auto simp: bit_simps dest: bit_imp_le_length)
    finally show ?thesis by (simp add: ref_byte_def x)
  qed
  have "drop_bit 8 c XOR ucast (ucast (drop_bit 8 c) :: u8) = 0"
    using assms unfolding low_16_iff
    by (intro bit_word_eqI) (auto simp: bit_simps not_less dest!: spec [of _ "8 + _"])
  moreover have "(ref_bit ^^ 8) 0 = 0"
    by (subst ref_bits_high) auto
  ultimately show ?thesis unfolding low by (simp add: ref_byte_def)
qed

subsection \<open>Properties\<close>

text \<open>
  C31: from a 16-bit checksum, the table-driven update of a buffer never indexes outside its
  table and returns what the bit-serial division by the reflected polynomial \<open>0xA001\<close>
  returns, again a 16-bit value.
\<close>

theorem crc_update_is_division:
  assumes "crc AND 0xffff = crc"
  shows "crc_update crc data = Inr (ref_crc crc data) \<and>
    ref_crc crc data AND 0xffff = ref_crc crc data"
  using crc_loop_ref [OF assms] ref_crc_range [OF assms] by (simp add: crc_update_def)

text \<open>
  C32: a buffer followed by its own checksum, low byte first, has checksum zero: the check a
  receiver of the two can make.
\<close>

theorem crc_residue:
  assumes "crc_update crc_init xs = Inr c"
  shows "crc_update crc_init (xs @ [ucast c, ucast (drop_bit 8 c)]) = Inr 0"
proof -
  have "crc_init AND 0xffff = crc_init" by (simp add: crc_init_def)
  note loop = crc_loop_ref [OF this] and range = ref_crc_range [OF this]
  have c: "c = ref_crc crc_init xs"
    using assms range by (simp add: crc_update_def loop)
  then have c16: "c AND 0xffff = c" using range by simp
  have "ref_crc crc_init (xs @ [ucast c, ucast (drop_bit 8 c)]) = 0"
    using ref_byte_own [OF c16] by (simp add: ref_crc_def c)
  then show ?thesis by (simp add: crc_update_def loop)
qed

theorem crc_update_is_division_witness: "crc_update 0 [0x31, 0x32] = Inr (ref_crc 0 [0x31, 0x32])"
  using crc_update_is_division [of 0 "[0x31, 0x32]"] by simp

theorem crc_residue_witness:
  "crc_update crc_init ([0x31] @ [ucast (0xD4C1 :: u64), ucast (drop_bit 8 (0xD4C1 :: u64))]) = Inr 0"
  by (rule crc_residue) (simp add: crc_update_def crc_step_def crc_init_def crc_table_def rd_def)

end
