(* ===== verification/Shm_Queue.thy ===== *)
theory Shm_Queue
  imports Prelude
begin

text \<open>
  The shared memory queue of \<^verbatim>\<open>shm_queue.c\<close>: one writer, several readers, a ring of
  fixed-size slots in a shared buffer of \<^verbatim>\<open>SHM_SIZE\<close> bytes. The buffer is modelled as the
  512 64-bit words it holds: word 0 is \<^verbatim>\<open>write_pos[0].pos\<close>, word \<open>8 * (i + 1)\<close> is
  \<^verbatim>\<open>readers_pos[i].pos\<close> (a \<^verbatim>\<open>struct pos_pointer\<close> is padded to 64 bytes), and the slots
  start at word \<open>8 * (num_readers + 1)\<close>. Slot sizes are multiples of eight in every call
  (24 or 8), so a slot is a whole number of words. Every access is checked against the
  buffer.
\<close>

definition SHM_SIZE :: u64 where "SHM_SIZE = 4096"

type_synonym shm_mem = "u64 list"

record shm_queue =
  sq_replica_id :: u8
  sq_shm_id :: u8
  sq_num_readers :: u8
  sq_slot_size :: u64
  sq_num_slots :: u16
  sq_node_level :: bool
  sq_execute :: exec_fn

text \<open>
  \<open>pos_pointers\<close> is \<^verbatim>\<open>k * sizeof(struct pos_pointer)\<close>, computed in \<^verbatim>\<open>size_t\<close>. The difference
  with \<^verbatim>\<open>SHM_SIZE\<close> wraps around when the position words do not fit, and the quotient is
  cut to the 16 bits of \<^verbatim>\<open>num_slots\<close>.
\<close>

definition pos_pointers :: "u64 \<Rightarrow> u64" where
  "pos_pointers k = k * 64"

definition slots_for :: "u64 \<Rightarrow> u64 \<Rightarrow> u16 res" where
  "slots_for k slot_size =
     (if slot_size = 0 then Inl DivByZero
      else Inr (ucast ((SHM_SIZE - pos_pointers k) div slot_size - 1)))"

definition setup_memory :: "shm_queue \<Rightarrow> shm_queue res" where
  "setup_memory q =
     bindr (slots_for (ucast (sq_num_readers q) + 1) (sq_slot_size q)) (\<lambda>ns.
       Inr (q\<lparr>sq_num_slots := ns\<rparr>))"

definition set_execution_fn_shm :: "exec_fn \<Rightarrow> shm_queue \<Rightarrow> shm_queue" where
  "set_execution_fn_shm f q = q\<lparr>sq_execute := f\<rparr>"

text \<open>
  The initial positions: the writer stores 0 in its own position and leaves the readers'
  positions as the buffer holds them.
\<close>

definition init_shm_writer ::
    "u8 \<Rightarrow> u8 \<Rightarrow> u64 \<Rightarrow> exec_fn option \<Rightarrow> shm_queue \<Rightarrow> shm_mem \<Rightarrow> (shm_queue \<times> shm_mem) res" where
  "init_shm_writer replica_id num_readers slot_size exec_fn q buf =
     bindr (slots_for (ucast num_readers + 2) slot_size) (\<lambda>ns.
     bindr (setup_memory (q\<lparr>sq_replica_id := replica_id, sq_slot_size := slot_size,
              sq_num_readers := num_readers, sq_execute := choose_exec exec_fn,
              sq_num_slots := ns\<rparr>)) (\<lambda>q.
     bindr (wr buf 0 0) (\<lambda>buf. Inr (q, buf))))"

definition init_shm_reader ::
    "u8 \<Rightarrow> u8 \<Rightarrow> u64 \<Rightarrow> bool \<Rightarrow> u8 \<Rightarrow> exec_fn option \<Rightarrow> shm_queue \<Rightarrow> shm_queue res" where
  "init_shm_reader reader_id num_readers slot_size node_level started_from exec_fn q =
     setup_memory (q\<lparr>sq_replica_id := started_from, sq_num_readers := num_readers,
       sq_slot_size := slot_size, sq_node_level := node_level, sq_shm_id := reader_id,
       sq_execute := choose_exec exec_fn\<rparr>)"

subsection \<open>Addresses\<close>

definition reader_index :: "nat \<Rightarrow> nat" where
  "reader_index i = 8 * (i + 1)"

definition slot_words :: "shm_queue \<Rightarrow> nat" where
  "slot_words q = unat (sq_slot_size q) div 8"

definition slot_index :: "shm_queue \<Rightarrow> u64 \<Rightarrow> nat" where
  "slot_index q pos = 8 * (unat (sq_num_readers q) + 1) + unat (pos * sq_slot_size q) div 8"

text \<open>The successor of a position, \<^verbatim>\<open>(pos + 1) % num_slots\<close>.\<close>

definition next_pos :: "shm_queue \<Rightarrow> u64 \<Rightarrow> u64 res" where
  "next_pos q pos =
     (if sq_num_slots q = 0 then Inl DivByZero
      else Inr ((pos + 1) mod ucast (sq_num_slots q)))"

subsection \<open>The operations\<close>

text \<open>The loop of \<^verbatim>\<open>check_readers_end\<close>: every reader's position is 0.\<close>

fun check_from :: "shm_mem \<Rightarrow> nat list \<Rightarrow> bool res" where
  "check_from mem [] = Inr True"
| "check_from mem (i # is) =
     bindr (rd mem (reader_index i)) (\<lambda>p. if p = 0 then check_from mem is else Inr False)"

definition check_readers_end :: "shm_queue \<Rightarrow> shm_mem \<Rightarrow> bool res" where
  "check_readers_end q mem = check_from mem [0..<unat (sq_num_readers q)]"

text \<open>
  \<^verbatim>\<open>shm_write\<close> in three parts: the wait for the readers at position 0, the \<^verbatim>\<open>memcpy\<close> of
  one slot, and the store of the next position. The wait is a busy loop; on a memory no
  reader changes it ends at once or never, which is the fault \<open>Blocked\<close>.
\<close>

definition shm_sync :: "shm_queue \<Rightarrow> shm_mem \<Rightarrow> unit res" where
  "shm_sync q mem =
     bindr (rd mem 0) (\<lambda>w.
       if w = 0 then bindr (check_readers_end q mem) (\<lambda>ok. if ok then Inr () else Inl Blocked)
       else Inr ())"

definition copy_word :: "shm_queue \<Rightarrow> u64 \<Rightarrow> u64 list \<Rightarrow> nat \<Rightarrow> shm_mem \<Rightarrow> shm_mem res" where
  "copy_word q pos src j mem = bindr (rd src j) (\<lambda>v. wr mem (slot_index q pos + j) v)"

definition memcpy_slot :: "shm_queue \<Rightarrow> u64 \<Rightarrow> u64 list \<Rightarrow> shm_mem \<Rightarrow> shm_mem res" where
  "memcpy_slot q pos src mem = foldr_res (copy_word q pos src) [0..<slot_words q] mem"

definition shm_copy :: "shm_queue \<Rightarrow> u64 list \<Rightarrow> shm_mem \<Rightarrow> shm_mem res" where
  "shm_copy q src mem = bindr (rd mem 0) (\<lambda>w. memcpy_slot q w src mem)"

definition shm_publish :: "shm_queue \<Rightarrow> shm_mem \<Rightarrow> shm_mem res" where
  "shm_publish q mem = bindr (rd mem 0) (\<lambda>w. bindr (next_pos q w) (\<lambda>p. wr mem 0 p))"

definition shm_write :: "shm_queue \<Rightarrow> u64 list \<Rightarrow> shm_mem \<Rightarrow> shm_mem res" where
  "shm_write q src mem =
     bindr (shm_sync q mem) (\<lambda>_. bindr (shm_copy q src mem) (shm_publish q))"

text \<open>
  \<^verbatim>\<open>shm_read\<close> returns a pointer to the slot, here the index of its first word, or NULL when
  the reader has reached the writer's position.
\<close>

definition shm_read :: "shm_queue \<Rightarrow> shm_mem \<Rightarrow> (shm_mem \<times> nat option) res" where
  "shm_read q mem =
     (let ri = reader_index (unat (sq_shm_id q)) in
      bindr (rd mem ri) (\<lambda>r.
      bindr (rd mem 0) (\<lambda>w.
        if r = w then Inr (mem, None)
        else bindr (next_pos q r) (\<lambda>p.
             bindr (wr mem ri p) (\<lambda>mem'. Inr (mem', Some (slot_index q r)))))))"

text \<open>The words the application function finds behind the returned pointer.\<close>

definition slot_at :: "shm_queue \<Rightarrow> shm_mem \<Rightarrow> nat \<Rightarrow> u64 list res" where
  "slot_at q mem p = mapr (\<lambda>j. rd mem (p + j)) [0..<slot_words q]"

text \<open>One iteration of \<^verbatim>\<open>poll_and_execute\<close>: read, and execute what was read.\<close>

definition poll_once :: "shm_queue \<Rightarrow> shm_mem \<Rightarrow> (shm_mem \<times> action list) res" where
  "poll_once q mem =
     bindr (shm_read q mem) (\<lambda>(mem', c).
       case c of None \<Rightarrow> Inr (mem', [])
       | Some p \<Rightarrow> bindr (slot_at q mem' p) (\<lambda>v. Inr (mem', [Exec (sq_execute q) v])))"

fun write_all :: "shm_queue \<Rightarrow> u64 list list \<Rightarrow> shm_mem \<Rightarrow> shm_mem res" where
  "write_all q [] mem = Inr mem"
| "write_all q (c # cs) mem = bindr (shm_write q c mem) (write_all q cs)"

fun poll_n :: "shm_queue \<Rightarrow> nat \<Rightarrow> shm_mem \<Rightarrow> (shm_mem \<times> action list) res" where
  "poll_n q 0 mem = Inr (mem, [])"
| "poll_n q (Suc n) mem =
     bindr (poll_once q mem) (\<lambda>(mem', as). bindr (poll_n q n mem') (\<lambda>(mem'', bs).
       Inr (mem'', as @ bs)))"

subsection \<open>Layout\<close>

text \<open>
  A queue is well-formed when it was set up by \<^verbatim>\<open>setup_memory\<close> with at most 61 readers and
  the slot size the replicas use.
\<close>

definition shm_wf :: "shm_queue \<Rightarrow> bool" where
  "shm_wf q \<longleftrightarrow> unat (sq_num_readers q) \<le> 61 \<and> sq_slot_size q = 24 \<and>
     setup_memory q = Inr q"

lemma slots_for_24:
  assumes "unat k \<le> 62"
  shows "slots_for k 24 = Inr (of_nat ((4096 - unat k * 64) div 24 - 1))"
proof -
  have k64: "unat (pos_pointers k) = unat k * 64"
    using assms by (simp add: pos_pointers_def unat_word_ariths)
  have le: "pos_pointers k \<le> SHM_SIZE"
    using assms by (simp add: word_le_nat_alt k64 SHM_SIZE_def)
  have d: "unat (SHM_SIZE - pos_pointers k) = 4096 - unat k * 64"
    using le by (simp add: unat_sub k64) (simp add: SHM_SIZE_def)
  have q: "unat ((SHM_SIZE - pos_pointers k) div 24) = (4096 - unat k * 64) div 24"
    by (simp add: unat_div d)
  have pos: "(1::u64) \<le> (SHM_SIZE - pos_pointers k) div 24"
  proof -
    have "1 \<le> (4096 - unat k * 64) div 24"
      using assms by (simp add: Suc_le_eq div_greater_zero_iff)
    then show ?thesis by (simp add: word_le_nat_alt q)
  qed
  have r: "unat ((SHM_SIZE - pos_pointers k) div 24 - 1) = (4096 - unat k * 64) div 24 - 1"
    using pos by (simp add: unat_sub q)
  have "ucast ((SHM_SIZE - pos_pointers k) div 24 - 1) =
      (of_nat ((4096 - unat k * 64) div 24 - 1) :: u16)"
    by (metis r of_nat_unat)
  then show ?thesis by (simp add: slots_for_def)
qed

definition ring_base :: "shm_queue \<Rightarrow> nat" where
  "ring_base q = 8 * (unat (sq_num_readers q) + 1)"

definition ring_size :: "shm_queue \<Rightarrow> nat" where
  "ring_size q = unat (sq_num_slots q)"

lemma num_slots_same: "q\<lparr>sq_num_slots := b\<rparr> = q \<Longrightarrow> b = sq_num_slots q"
  by (drule arg_cong [where f = sq_num_slots]) simp

lemma shm_wf_num_slots:
  assumes "shm_wf q"
  shows "ring_size q = (4096 - (unat (sq_num_readers q) + 1) * 64) div 24 - 1"
proof -
  let ?k = "ucast (sq_num_readers q) + 1 :: u64"
  have n: "unat (sq_num_readers q) \<le> 61" using assms by (simp add: shm_wf_def)
  have k: "unat ?k = unat (sq_num_readers q) + 1"
    using n by (simp add: unat_word_ariths)
  have "slots_for ?k 24 = Inr (sq_num_slots q)"
    using assms by (cases "slots_for ?k 24") (auto simp: shm_wf_def setup_memory_def dest: num_slots_same)
  moreover have "slots_for ?k 24 = Inr (of_nat ((4096 - unat ?k * 64) div 24 - 1))"
    using n k by (intro slots_for_24) simp
  ultimately have "sq_num_slots q = of_nat ((4096 - unat ?k * 64) div 24 - 1)" by simp
  then show ?thesis
    by (simp add: ring_size_def k unat_of_nat)
qed

lemma shm_wf_layout:
  assumes "shm_wf q"
  shows "4 \<le> ring_size q" and "ring_size q < 256"
    and "ring_base q + 3 * ring_size q \<le> 512"
proof -
  have n: "unat (sq_num_readers q) \<le> 61" using assms by (simp add: shm_wf_def)
  note ns = shm_wf_num_slots [OF assms]
  show "4 \<le> ring_size q" using n by (simp add: ns)
  show "ring_size q < 256" by (simp add: ns)
  show "ring_base q + 3 * ring_size q \<le> 512" using n by (simp add: ns ring_base_def)
qed

lemma slot_words_24 [simp]: "shm_wf q \<Longrightarrow> slot_words q = 3"
  by (simp add: slot_words_def shm_wf_def)

lemma slot_index_eq:
  assumes "shm_wf q" and "k < ring_size q"
  shows "slot_index q (of_nat k) = ring_base q + 3 * k"
proof -
  have "k < 256" using assms shm_wf_layout(2) [OF assms(1)] by simp
  then have "unat (of_nat k * (24 :: u64)) = k * 24"
    by (simp add: unat_word_ariths unat_of_nat)
  then show ?thesis
    using assms(1) by (simp add: slot_index_def ring_base_def shm_wf_def)
qed

lemma next_pos_eq:
  assumes "shm_wf q"
  shows "next_pos q (of_nat (k mod ring_size q)) = Inr (of_nat (Suc k mod ring_size q))"
proof -
  let ?N = "ring_size q"
  note l = shm_wf_layout [OF assms]
  have kN: "k mod ?N < ?N" using l(1) by simp
  have a: "unat (of_nat (k mod ?N) + 1 :: u64) = Suc (k mod ?N)"
    using kN l(2) by (simp add: unat_word_ariths unat_of_nat)
  have "unat ((of_nat (k mod ?N) + 1) mod (ucast (sq_num_slots q) :: u64)) = Suc k mod ?N"
    by (simp add: unat_mod a mod_Suc_eq flip: ring_size_def)
  then have "(of_nat (k mod ?N) + 1) mod (ucast (sq_num_slots q) :: u64) = of_nat (Suc k mod ?N)"
    by (metis of_nat_unat ucast_id)
  moreover have "sq_num_slots q \<noteq> 0" using l(1) by (auto simp: ring_size_def)
  ultimately show ?thesis by (simp add: next_pos_def)
qed

subsection \<open>The contract of a ring of slots\<close>

text \<open>
  What the queue needs of its slot storage: writing one word of a slot changes that word
  and no other slot. The window of the last \<open>N - 1\<close> published commands survives the copy
  of the next one, and the copy completed makes it part of the window.
\<close>

definition ring_window :: "(nat \<Rightarrow> 'v) \<Rightarrow> nat \<Rightarrow> 'v list \<Rightarrow> bool" where
  "ring_window g N xs \<longleftrightarrow> (\<forall>k < length xs. length xs < k + N \<longrightarrow> g (k mod N) = xs ! k)"

locale ring_store =
  fixes slot :: "'m \<Rightarrow> nat \<Rightarrow> 'w list"
    and poke :: "nat \<Rightarrow> nat \<Rightarrow> 'w \<Rightarrow> 'm \<Rightarrow> 'm"
    and N :: nat
    and width :: nat
    and valid :: "'m \<Rightarrow> bool"
  assumes valid_poke: "valid m \<Longrightarrow> valid (poke k j v m)"
    and slot_width: "valid m \<Longrightarrow> k < N \<Longrightarrow> length (slot m k) = width"
    and slot_poke: "valid m \<Longrightarrow> k < N \<Longrightarrow> j < width \<Longrightarrow> slot (poke k j v m) k = (slot m k)[j := v]"
    and slot_poke_other: "valid m \<Longrightarrow> k < N \<Longrightarrow> k' < N \<Longrightarrow> j < width \<Longrightarrow> k \<noteq> k' \<Longrightarrow>
      slot (poke k j v m) k' = slot m k'"
begin

lemma window_poke:
  assumes m: "valid m" and N: "0 < N" and j: "j < width" and w: "ring_window (slot m) N xs"
  shows "ring_window (slot (poke (length xs mod N) j v m)) N xs"
  unfolding ring_window_def
proof (intro allI impI)
  fix k assume k: "k < length xs" "length xs < k + N"
  have "k mod N \<noteq> length xs mod N"
  proof
    assume eq: "k mod N = length xs mod N"
    then have "(length xs - k) mod N = 0" using k(1) by (metis less_imp_le mod_eq_dvd_iff_nat dvd_imp_mod_0)
    moreover have "(length xs - k) mod N = length xs - k" using k by simp
    ultimately show False using k by simp
  qed
  then have "slot (poke (length xs mod N) j v m) (k mod N) = slot m (k mod N)"
    using m N j by (intro slot_poke_other) auto
  with w k show "slot (poke (length xs mod N) j v m) (k mod N) = xs ! k"
    by (simp add: ring_window_def)
qed

lemma prefix_poke:
  assumes m: "valid m" and k: "k < N" and j: "j < width" and l: "length c = width"
    and p: "take j (slot m k) = take j c"
  shows "take (Suc j) (slot (poke k j (c ! j) m) k) = take (Suc j) c"
proof -
  have "take (Suc j) ((slot m k)[j := c ! j]) = take j (slot m k) @ [c ! j]"
    using slot_width [OF m k] j by (simp add: take_Suc_conv_app_nth)
  with p j l show ?thesis
    by (simp add: slot_poke [OF m k j] take_Suc_conv_app_nth)
qed

end

lemma window_publish:
  assumes "ring_window g N xs" and "g (length xs mod N) = v"
  shows "ring_window g N (xs @ [v])"
  using assms by (auto simp: ring_window_def nth_append less_Suc_eq)

lemma window_Nil [simp]: "ring_window g N []"
  by (simp add: ring_window_def)

text \<open>The slots of the shared buffer: three words each, from \<open>b\<close> on.\<close>

definition slot3 :: "nat \<Rightarrow> shm_mem \<Rightarrow> nat \<Rightarrow> u64 list" where
  "slot3 b m k = take 3 (drop (b + 3 * k) m)"

definition poke3 :: "nat \<Rightarrow> nat \<Rightarrow> nat \<Rightarrow> u64 \<Rightarrow> shm_mem \<Rightarrow> shm_mem" where
  "poke3 b k j v m = m[b + 3 * k + j := v]"

lemma slot3_nth: "b + 3 * k + 3 \<le> length m \<Longrightarrow> i < 3 \<Longrightarrow> slot3 b m k ! i = m ! (b + 3 * k + i)"
  by (simp add: slot3_def)

lemma slot3_length: "b + 3 * k + 3 \<le> length m \<Longrightarrow> length (slot3 b m k) = 3"
  by (simp add: slot3_def)

lemma slot3_poke3:
  assumes "b + 3 * k + 3 \<le> length m" and "b + 3 * k' + 3 \<le> length m" and "j < 3"
  shows "slot3 b (poke3 b k j v m) k' = (if k' = k then (slot3 b m k)[j := v] else slot3 b m k')"
proof (rule nth_equalityI)
  show "length (slot3 b (poke3 b k j v m) k') =
      length (if k' = k then (slot3 b m k)[j := v] else slot3 b m k')"
    using assms by (simp add: slot3_length poke3_def)
next
  fix i assume "i < length (slot3 b (poke3 b k j v m) k')"
  then have i: "i < 3" using assms by (simp add: slot3_length poke3_def)
  have ne: "k' \<noteq> k \<Longrightarrow> b + 3 * k + j \<noteq> b + 3 * k' + i"
    using i assms(3) by presburger
  show "slot3 b (poke3 b k j v m) k' ! i =
      (if k' = k then (slot3 b m k)[j := v] else slot3 b m k') ! i"
    using assms i ne
    by (cases "k' = k") (auto simp: slot3_nth slot3_length poke3_def nth_list_update)
qed

interpretation words: ring_store "slot3 b" "poke3 b" N 3 "\<lambda>m. b + 3 * N \<le> length m" for b N :: nat
proof
  fix m :: shm_mem and k j :: nat and v :: u64
  assume "b + 3 * N \<le> length m"
  then show "b + 3 * N \<le> length (poke3 b k j v m)" by (simp add: poke3_def)
next
  fix m :: shm_mem and k :: nat
  assume "b + 3 * N \<le> length m" "k < N"
  then show "length (slot3 b m k) = 3" by (intro slot3_length) simp
next
  fix m :: shm_mem and k j :: nat and v :: u64
  assume "b + 3 * N \<le> length m" "k < N" "j < 3"
  then show "slot3 b (poke3 b k j v m) k = (slot3 b m k)[j := v]"
    by (subst slot3_poke3) auto
next
  fix m :: shm_mem and k k' j :: nat and v :: u64
  assume "b + 3 * N \<le> length m" "k < N" "k' < N" "j < 3" "k \<noteq> k'"
  then show "slot3 b (poke3 b k j v m) k' = slot3 b m k'"
    by (subst slot3_poke3) auto
qed

subsection \<open>The operations on a well-formed queue\<close>

lemma slot_in_buffer:
  assumes "shm_wf q" and "length mem = 512" and "k < ring_size q"
  shows "ring_base q + 3 * k + 3 \<le> length mem"
  using assms shm_wf_layout(3) [OF assms(1)] by simp

lemma copy_word_eq:
  assumes "shm_wf q" and "length mem = 512" and "k < ring_size q" and "j < 3" and "j < length c"
  shows "copy_word q (of_nat k) c j mem = Inr (poke3 (ring_base q) k j (c ! j) mem)"
  using assms slot_in_buffer [OF assms(1-3)]
  by (simp add: copy_word_def slot_index_eq poke3_def)

lemma shm_copy_eq:
  assumes "shm_wf q" and "length mem = 512" and "k < ring_size q" and "mem ! 0 = of_nat k"
    and "length c = 3"
  shows "\<exists>mem'. shm_copy q c mem = Inr mem' \<and> length mem' = 512 \<and>
    slot3 (ring_base q) mem' k = c \<and>
    (\<forall>k' < ring_size q. k' \<noteq> k \<longrightarrow> slot3 (ring_base q) mem' k' = slot3 (ring_base q) mem k') \<and>
    (\<forall>i < ring_base q. mem' ! i = mem ! i)"
proof -
  let ?b = "ring_base q"
  note sl = slot_in_buffer [OF assms(1,2,3)]
  define m0 where "m0 = poke3 ?b k 0 (c ! 0) mem"
  define m1 where "m1 = poke3 ?b k (Suc 0) (c ! Suc 0) m0"
  define m2 where "m2 = poke3 ?b k 2 (c ! 2) m1"
  have len: "length m0 = 512" "length m1 = 512" "length m2 = 512"
    by (simp_all add: m0_def m1_def m2_def poke3_def assms(2))
  have three: "[0..<3] = [0, Suc 0, 2]" by (simp add: upt_rec)
  have run: "shm_copy q c mem = Inr m2"
    using assms len
    by (simp add: shm_copy_def memcpy_slot_def three copy_word_eq m0_def [symmetric]
        m1_def [symmetric] m2_def [symmetric])
  have same: "slot3 ?b m2 k = c"
  proof (rule nth_equalityI)
    show "length (slot3 ?b m2 k) = length c" using sl len assms by (simp add: slot3_length)
  next
    fix i assume "i < length (slot3 ?b m2 k)"
    then have "i = 0 \<or> i = 1 \<or> i = 2" using sl len assms by (auto simp: slot3_length)
    then show "slot3 ?b m2 k ! i = c ! i"
      using sl len assms(2)
      by (auto simp: slot3_nth m0_def m1_def m2_def poke3_def)
  qed
  have other: "slot3 ?b m2 k' = slot3 ?b mem k'" if "k' < ring_size q" "k' \<noteq> k" for k'
  proof -
    have sl': "?b + 3 * k' + 3 \<le> 512"
      using slot_in_buffer [OF assms(1,2) that(1)] assms(2) by simp
    have "slot3 ?b m2 k' = slot3 ?b m1 k'" "slot3 ?b m1 k' = slot3 ?b m0 k'"
      "slot3 ?b m0 k' = slot3 ?b mem k'"
      unfolding m2_def m1_def m0_def
      by (subst slot3_poke3; use that sl sl' len assms(2) in \<open>simp add: m1_def m0_def\<close>)+
    then show ?thesis by simp
  qed
  have low: "m2 ! i = mem ! i" if "i < ?b" for i
    using that by (simp add: m2_def m1_def m0_def poke3_def)
  show ?thesis using run len(3) same other low by blast
qed

lemma shm_publish_eq:
  assumes "shm_wf q" and "length mem = 512" and "mem ! 0 = of_nat (w mod ring_size q)"
  shows "shm_publish q mem = Inr (mem[0 := of_nat (Suc w mod ring_size q)])"
proof -
  have "0 < length mem" using assms(2) by simp
  with assms show ?thesis by (simp add: shm_publish_def next_pos_eq)
qed

lemma pos_inject:
  assumes "shm_wf q" and "a < ring_size q" and "b < ring_size q"
  shows "(of_nat a :: u64) = of_nat b \<longleftrightarrow> a = b"
  using assms shm_wf_layout(2) [OF assms(1)] by (simp add: word_of_nat_eq_iff take_bit_nat_eq_self)

lemma reader_index_less:
  "shm_wf q \<Longrightarrow> i < unat (sq_num_readers q) \<Longrightarrow> reader_index i < ring_base q \<and> reader_index i < 512"
  by (auto simp: reader_index_def ring_base_def shm_wf_def)

lemma shm_read_eq:
  assumes "shm_wf q" and "length mem = 512" and "unat (sq_shm_id q) < unat (sq_num_readers q)"
    and "mem ! 0 = of_nat (w mod ring_size q)"
    and "mem ! reader_index (unat (sq_shm_id q)) = of_nat (r mod ring_size q)"
  shows "shm_read q mem =
    (if r mod ring_size q = w mod ring_size q then Inr (mem, None)
     else Inr (mem[reader_index (unat (sq_shm_id q)) := of_nat (Suc r mod ring_size q)],
               Some (ring_base q + 3 * (r mod ring_size q))))"
proof -
  have N: "0 < ring_size q" using shm_wf_layout(1) [OF assms(1)] by simp
  have i: "reader_index (unat (sq_shm_id q)) < length mem"
    using reader_index_less [OF assms(1,3)] assms(2) by simp
  have z: "0 < length mem" using assms(2) by simp
  show ?thesis
    using assms N i z
    by (simp add: shm_read_def Let_def pos_inject next_pos_eq slot_index_eq)
qed

lemma slot_at_eq:
  assumes "shm_wf q" and "length mem = 512" and "k < ring_size q"
  shows "slot_at q mem (ring_base q + 3 * k) = Inr (slot3 (ring_base q) mem k)"
proof -
  have three: "[0..<3] = [0, 1, 2::nat]" by (simp add: upt_rec)
  have "mapr (\<lambda>j. rd mem (ring_base q + 3 * k + j)) [0..<3] =
      Inr (map (\<lambda>j. mem ! (ring_base q + 3 * k + j)) [0..<3])"
    using slot_in_buffer [OF assms] by (intro mapr_all_Inr) auto
  moreover have "map (\<lambda>j. mem ! (ring_base q + 3 * k + j)) [0..<3] = slot3 (ring_base q) mem k"
    using slot_in_buffer [OF assms]
    by (intro nth_equalityI) (auto simp: slot3_length slot3_nth)
  ultimately show ?thesis using assms(1) by (simp add: slot_at_def)
qed

end
