(* ===== verification/Shm_System.thy ===== *)
theory Shm_System
  imports Shm_Queue
begin

text \<open>
  One writer thread and the reader threads of a shared memory queue, interleaved. The
  writer's step is one position test of the wait, one word of the \<^verbatim>\<open>memcpy\<close>, or the store of
  the new position; a reader's step is one \<^verbatim>\<open>shm_read\<close> or the execution of the command its
  pointer designates. \<open>s_pub\<close>, \<open>s_reads\<close> and \<open>s_done\<close> record the history: the commands
  published, the successful reads and the commands executed per reader.
\<close>

datatype wpc = W_idle | W_scan nat | W_copy nat | W_publish

record shm_sys =
  s_mem :: shm_mem
  s_wpc :: wpc
  s_cmd :: "u64 list"
  s_pub :: "u64 list list"
  s_reads :: "nat \<Rightarrow> nat"
  s_held :: "nat \<Rightarrow> nat option"
  s_done :: "nat \<Rightarrow> u64 list list"

definition reader_queue :: "shm_queue \<Rightarrow> nat \<Rightarrow> shm_queue" where
  "reader_queue q i = q\<lparr>sq_shm_id := of_nat i\<rparr>"

definition num_readers :: "shm_queue \<Rightarrow> nat" where
  "num_readers q = unat (sq_num_readers q)"

inductive shm_init :: "shm_queue \<Rightarrow> shm_sys \<Rightarrow> bool" for q where
  "length m = 512 \<Longrightarrow> m ! 0 = 0 \<Longrightarrow> (\<And>i. i < num_readers q \<Longrightarrow> m ! reader_index i = 0) \<Longrightarrow>
   shm_init q \<lparr>s_mem = m, s_wpc = W_idle, s_cmd = [], s_pub = [], s_reads = (\<lambda>_. 0),
     s_held = (\<lambda>_. None), s_done = (\<lambda>_. [])\<rparr>"

inductive shm_step :: "shm_queue \<Rightarrow> shm_sys \<Rightarrow> shm_sys \<Rightarrow> bool" for q where
  w_start: "s_wpc s = W_idle \<Longrightarrow> length c = 3 \<Longrightarrow> rd (s_mem s) 0 = Inr w \<Longrightarrow>
    shm_step q s (s\<lparr>s_cmd := c, s_wpc := (if w = 0 then W_scan 0 else W_copy 0)\<rparr>)"
| w_scan: "s_wpc s = W_scan i \<Longrightarrow> i < num_readers q \<Longrightarrow> rd (s_mem s) (reader_index i) = Inr p \<Longrightarrow>
    shm_step q s (s\<lparr>s_wpc := (if p = 0 then W_scan (Suc i) else W_scan 0)\<rparr>)"
| w_synced: "s_wpc s = W_scan (num_readers q) \<Longrightarrow> shm_step q s (s\<lparr>s_wpc := W_copy 0\<rparr>)"
| w_copy: "s_wpc s = W_copy j \<Longrightarrow> j < slot_words q \<Longrightarrow> rd (s_mem s) 0 = Inr w \<Longrightarrow>
    copy_word q w (s_cmd s) j (s_mem s) = Inr m \<Longrightarrow>
    shm_step q s (s\<lparr>s_mem := m, s_wpc := W_copy (Suc j)\<rparr>)"
| w_copied: "s_wpc s = W_copy (slot_words q) \<Longrightarrow> shm_step q s (s\<lparr>s_wpc := W_publish\<rparr>)"
| w_publish: "s_wpc s = W_publish \<Longrightarrow> shm_publish q (s_mem s) = Inr m \<Longrightarrow>
    shm_step q s (s\<lparr>s_mem := m, s_wpc := W_idle, s_pub := s_pub s @ [s_cmd s]\<rparr>)"
| r_read: "i < num_readers q \<Longrightarrow> s_held s i = None \<Longrightarrow>
    shm_read (reader_queue q i) (s_mem s) = Inr (m, Some p) \<Longrightarrow>
    shm_step q s (s\<lparr>s_mem := m, s_held := (s_held s)(i := Some p),
      s_reads := (s_reads s)(i := Suc (s_reads s i))\<rparr>)"
| r_exec: "i < num_readers q \<Longrightarrow> s_held s i = Some p \<Longrightarrow>
    slot_at (reader_queue q i) (s_mem s) p = Inr v \<Longrightarrow>
    shm_step q s (s\<lparr>s_held := (s_held s)(i := None),
      s_done := (s_done s)(i := s_done s i @ [v])\<rparr>)"

text \<open>
  The writer is less than a full lap ahead of every command a reader has finished. A run
  is a sequence of steps through such states.
\<close>

definition less_than_a_lap :: "shm_queue \<Rightarrow> shm_sys \<Rightarrow> bool" where
  "less_than_a_lap q s \<longleftrightarrow>
     (\<forall>i < num_readers q. length (s_pub s) < length (s_done s i) + ring_size q)"

inductive shm_run :: "shm_queue \<Rightarrow> shm_sys \<Rightarrow> bool" for q where
  run_init: "shm_init q s \<Longrightarrow> shm_run q s"
| run_step: "shm_run q s \<Longrightarrow> shm_step q s t \<Longrightarrow> less_than_a_lap q t \<Longrightarrow> shm_run q t"

subsection \<open>The invariant\<close>

definition mem_ok :: "shm_queue \<Rightarrow> shm_sys \<Rightarrow> bool" where
  "mem_ok q s \<longleftrightarrow> length (s_mem s) = 512 \<and>
     s_mem s ! 0 = of_nat (length (s_pub s) mod ring_size q) \<and>
     (\<forall>i < num_readers q. s_mem s ! reader_index i = of_nat (s_reads s i mod ring_size q))"

definition readers_ok :: "shm_queue \<Rightarrow> shm_sys \<Rightarrow> bool" where
  "readers_ok q s \<longleftrightarrow> (\<forall>i < num_readers q.
     s_reads s i \<le> length (s_pub s) \<and>
     s_done s i = take (length (s_done s i)) (s_pub s) \<and>
     (s_held s i = None \<longrightarrow> s_reads s i = length (s_done s i)) \<and>
     (\<forall>p. s_held s i = Some p \<longrightarrow> s_reads s i = Suc (length (s_done s i)) \<and>
          p = ring_base q + 3 * (length (s_done s i) mod ring_size q)))"

definition writer_ok :: "shm_queue \<Rightarrow> shm_sys \<Rightarrow> bool" where
  "writer_ok q s \<longleftrightarrow> ring_window (slot3 (ring_base q) (s_mem s)) (ring_size q) (s_pub s) \<and>
     (s_wpc s \<noteq> W_idle \<longrightarrow> length (s_cmd s) = 3) \<and>
     (let cur = slot3 (ring_base q) (s_mem s) (length (s_pub s) mod ring_size q) in
      (\<forall>j. s_wpc s = W_copy j \<longrightarrow> j \<le> 3 \<and> take j cur = take j (s_cmd s)) \<and>
      (s_wpc s = W_publish \<longrightarrow> cur = s_cmd s))"

text \<open>At the start of a lap, every reader the writer has checked is level with it.\<close>

definition sync_ok :: "shm_queue \<Rightarrow> shm_sys \<Rightarrow> bool" where
  "sync_ok q s \<longleftrightarrow>
     (\<forall>k. s_wpc s = W_scan k \<longrightarrow> s_mem s ! 0 = 0 \<and> k \<le> num_readers q \<and>
         (\<forall>i < k. s_reads s i = length (s_pub s))) \<and>
     (\<forall>j. s_wpc s = W_copy j \<longrightarrow> s_mem s ! 0 = 0 \<longrightarrow>
         (\<forall>i < num_readers q. s_reads s i = length (s_pub s)))"

lemmas shm_inv_defs = mem_ok_def readers_ok_def writer_ok_def sync_ok_def

lemma reader_queue_wf [simp]: "shm_wf (reader_queue q i) = shm_wf q"
proof -
  have "setup_memory (reader_queue q i) = Inr (reader_queue q i) \<longleftrightarrow> setup_memory q = Inr q"
    by (cases q) (auto simp: setup_memory_def reader_queue_def bindr_eq_Inr)
  then show ?thesis by (simp add: shm_wf_def reader_queue_def)
qed

lemma reader_queue_ring [simp]:
  "ring_size (reader_queue q i) = ring_size q" "ring_base (reader_queue q i) = ring_base q"
  "sq_num_readers (reader_queue q i) = sq_num_readers q"
  by (simp_all add: reader_queue_def ring_size_def ring_base_def)

lemma reader_queue_id:
  "shm_wf q \<Longrightarrow> i < num_readers q \<Longrightarrow> unat (sq_shm_id (reader_queue q i)) = i"
  by (auto simp: reader_queue_def num_readers_def shm_wf_def unat_of_nat)

lemma reader_index_inject [simp]: "reader_index i = reader_index j \<longleftrightarrow> i = j"
  by (simp add: reader_index_def)

lemma reader_index_pos [simp]: "0 < reader_index i" "reader_index i \<noteq> 0"
  by (simp_all add: reader_index_def)

lemma reader_index_bound:
  "shm_wf q \<Longrightarrow> i < num_readers q \<Longrightarrow> reader_index i < ring_base q \<and> reader_index i < 512"
  using reader_index_less by (simp add: num_readers_def)

lemma slot3_low_update [simp]: "i < b \<Longrightarrow> slot3 b (m[i := v]) k = slot3 b m k"
  by (simp add: slot3_def)

lemma slot3_low_update_fun [simp]: "i < b \<Longrightarrow> slot3 b (m[i := v]) = slot3 b m"
  by (rule ext) simp

lemma poke3_low [simp]: "i < b \<Longrightarrow> poke3 b k j v m ! i = m ! i"
  by (simp add: poke3_def)

lemma poke3_len [simp]: "length (poke3 b k j v m) = length m"
  by (simp add: poke3_def)

lemma ring_base_pos [simp]: "0 < ring_base q" "0 < ring_base q \<Longrightarrow> ring_base q \<noteq> 0"
  by (simp_all add: ring_base_def)

lemma mod_same_caught_up:
  assumes "a \<le> (b::nat)" and "b < a + n" and "a mod n = b mod n"
  shows "a = b"
proof -
  have "(b - a) mod n = 0" using assms(1,3) by (metis mod_eq_dvd_iff_nat dvd_imp_mod_0)
  moreover have "(b - a) mod n = b - a" using assms(1,2) by simp
  ultimately show ?thesis using assms(1) by simp
qed

lemma zero_pos_iff:
  assumes "shm_wf q"
  shows "(of_nat (a mod ring_size q) :: u64) = 0 \<longleftrightarrow> a mod ring_size q = 0"
proof -
  have N: "0 < ring_size q" using shm_wf_layout(1) [OF assms] by simp
  then show ?thesis using pos_inject [OF assms, of "a mod ring_size q" 0] by simp
qed

definition shm_inv :: "shm_queue \<Rightarrow> shm_sys \<Rightarrow> bool" where
  "shm_inv q s \<longleftrightarrow> mem_ok q s \<and> readers_ok q s \<and> writer_ok q s \<and> sync_ok q s"

lemma shm_init_inv: "shm_init q s \<Longrightarrow> shm_inv q s"
  by (induction rule: shm_init.induct) (simp add: shm_inv_def shm_inv_defs)

lemma reads_le_done:
  "readers_ok q s \<Longrightarrow> i < num_readers q \<Longrightarrow>
   length (s_done s i) \<le> s_reads s i \<and> s_reads s i \<le> length (s_pub s)"
  by (cases "s_held s i") (auto simp: readers_ok_def)

lemma caught_up_at_zero:
  assumes "shm_wf q" and "mem_ok q s" and "readers_ok q s" and "less_than_a_lap q s"
    and "i < num_readers q" and "s_mem s ! 0 = 0" and "s_mem s ! reader_index i = 0"
  shows "s_reads s i = length (s_pub s)"
proof (rule mod_same_caught_up)
  show "s_reads s i \<le> length (s_pub s)" using reads_le_done assms(3,5) by blast
  show "length (s_pub s) < s_reads s i + ring_size q"
    using reads_le_done [OF assms(3,5)] assms(4,5) by (fastforce simp: less_than_a_lap_def)
  show "s_reads s i mod ring_size q = length (s_pub s) mod ring_size q"
    using assms by (simp add: mem_ok_def zero_pos_iff)
qed

subsection \<open>Every step keeps the invariant\<close>

lemma inv_start:
  assumes "shm_inv q s" "length c = 3" "rd (s_mem s) 0 = Inr w"
  shows "shm_inv q (s\<lparr>s_cmd := c, s_wpc := (if w = 0 then W_scan 0 else W_copy 0)\<rparr>)"
  using assms by (auto simp: shm_inv_def shm_inv_defs rd_eq_Inr Let_def)

lemma inv_scan:
  assumes wf: "shm_wf q" and inv: "shm_inv q s" and lap: "less_than_a_lap q s"
    and pc: "s_wpc s = W_scan i" and i: "i < num_readers q"
    and p: "rd (s_mem s) (reader_index i) = Inr p"
  shows "shm_inv q (s\<lparr>s_wpc := (if p = 0 then W_scan (Suc i) else W_scan 0)\<rparr>)"
proof -
  have "s_reads s i = length (s_pub s)" if "p = 0"
    using that inv pc p by (intro caught_up_at_zero [OF wf _ _ lap i])
      (auto simp: shm_inv_def sync_ok_def rd_eq_Inr)
  with inv pc i show ?thesis
    by (auto simp: shm_inv_def shm_inv_defs Let_def less_Suc_eq)
qed

lemma inv_synced:
  assumes "shm_inv q s" "s_wpc s = W_scan (num_readers q)"
  shows "shm_inv q (s\<lparr>s_wpc := W_copy 0\<rparr>)"
  using assms by (auto simp: shm_inv_def shm_inv_defs Let_def)

lemma inv_copy:
  assumes wf: "shm_wf q" and inv: "shm_inv q s" and pc: "s_wpc s = W_copy j"
    and j: "j < slot_words q" and w: "rd (s_mem s) 0 = Inr w"
    and m: "copy_word q w (s_cmd s) j (s_mem s) = Inr m"
  shows "shm_inv q (s\<lparr>s_mem := m, s_wpc := W_copy (Suc j)\<rparr>)"
proof -
  let ?b = "ring_base q" and ?N = "ring_size q" and ?W = "length (s_pub s)"
  let ?k = "?W mod ?N"
  have j3: "j < 3" using j wf by simp
  have N: "0 < ?N" using shm_wf_layout(1) [OF wf] by simp
  have len: "length (s_mem s) = 512" and w0: "s_mem s ! 0 = of_nat ?k"
    and c: "length (s_cmd s) = 3" and win: "ring_window (slot3 ?b (s_mem s)) ?N (s_pub s)"
    and pre: "take j (slot3 ?b (s_mem s) ?k) = take j (s_cmd s)"
    using inv pc by (auto simp: shm_inv_def shm_inv_defs Let_def)
  have valid: "?b + 3 * ?N \<le> length (s_mem s)" using shm_wf_layout(3) [OF wf] len by simp
  have k: "?k < ?N" using N by simp
  have m_eq: "m = poke3 ?b ?k j (s_cmd s ! j) (s_mem s)"
    using m w w0 c j3 copy_word_eq [OF wf len k j3] by (simp add: rd_eq_Inr)
  have win': "ring_window (slot3 ?b m) ?N (s_pub s)"
    unfolding m_eq by (rule words.window_poke [OF valid N j3 win])
  have pre': "take (Suc j) (slot3 ?b m ?k) = take (Suc j) (s_cmd s)"
    unfolding m_eq by (rule words.prefix_poke [OF valid k j3 c pre])
  have low: "m ! 0 = s_mem s ! 0" "\<forall>i < num_readers q. m ! reader_index i = s_mem s ! reader_index i"
    unfolding m_eq using reader_index_bound [OF wf] by simp_all
  show ?thesis
    using inv pc win' pre' low len j3
    by (simp add: shm_inv_def shm_inv_defs Let_def m_eq)
qed

lemma inv_copied:
  assumes wf: "shm_wf q" and inv: "shm_inv q s" and pc: "s_wpc s = W_copy (slot_words q)"
  shows "shm_inv q (s\<lparr>s_wpc := W_publish\<rparr>)"
proof -
  have "ring_base q + 3 * (length (s_pub s) mod ring_size q) + 3 \<le> length (s_mem s)"
    using inv shm_wf_layout(1) [OF wf]
    by (intro slot_in_buffer [OF wf]) (auto simp: shm_inv_def mem_ok_def)
  then have "length (slot3 (ring_base q) (s_mem s) (length (s_pub s) mod ring_size q)) = 3"
    by (rule slot3_length)
  with inv pc wf show ?thesis
    by (auto simp: shm_inv_def shm_inv_defs Let_def)
qed

lemma inv_publish:
  assumes wf: "shm_wf q" and inv: "shm_inv q s" and pc: "s_wpc s = W_publish"
    and m: "shm_publish q (s_mem s) = Inr m"
  shows "shm_inv q (s\<lparr>s_mem := m, s_wpc := W_idle, s_pub := s_pub s @ [s_cmd s]\<rparr>)"
proof -
  have mok: "mem_ok q s" using inv by (simp add: shm_inv_def)
  have m_eq: "m = (s_mem s)[0 := of_nat (Suc (length (s_pub s)) mod ring_size q)]"
    using m mok shm_publish_eq [OF wf] by (simp add: mem_ok_def)
  have win: "ring_window (slot3 (ring_base q) m) (ring_size q) (s_pub s @ [s_cmd s])"
    using inv pc unfolding m_eq
    by (intro window_publish) (auto simp: shm_inv_def writer_ok_def Let_def)
  have "mem_ok q (s\<lparr>s_mem := m, s_wpc := W_idle, s_pub := s_pub s @ [s_cmd s]\<rparr>)"
    using mok by (simp add: mem_ok_def m_eq)
  moreover have "readers_ok q (s\<lparr>s_mem := m, s_wpc := W_idle, s_pub := s_pub s @ [s_cmd s]\<rparr>)"
  proof -
    have r: "readers_ok q s" using inv by (simp add: shm_inv_def)
    have "take (length (s_done s i)) (s_pub s @ [s_cmd s]) = take (length (s_done s i)) (s_pub s)"
      if "i < num_readers q" for i
      using reads_le_done [OF r that] by simp
    with r show ?thesis by (auto simp: readers_ok_def intro: le_SucI)
  qed
  ultimately show ?thesis using win by (simp add: shm_inv_def writer_ok_def sync_ok_def Let_def)
qed

lemma inv_read:
  assumes wf: "shm_wf q" and inv: "shm_inv q s" and i: "i < num_readers q"
    and h: "s_held s i = None"
    and rdv: "shm_read (reader_queue q i) (s_mem s) = Inr (m, Some p)"
  shows "shm_inv q (s\<lparr>s_mem := m, s_held := (s_held s)(i := Some p),
      s_reads := (s_reads s)(i := Suc (s_reads s i))\<rparr>)"
proof -
  let ?N = "ring_size q" and ?R = "s_reads s i" and ?W = "length (s_pub s)"
  have mok: "mem_ok q s" and rok: "readers_ok q s" using inv by (simp_all add: shm_inv_def)
  have "shm_read (reader_queue q i) (s_mem s) =
    (if ?R mod ?N = ?W mod ?N then Inr (s_mem s, None)
     else Inr ((s_mem s)[reader_index i := of_nat (Suc ?R mod ?N)],
               Some (ring_base q + 3 * (?R mod ?N))))"
    using shm_read_eq [of "reader_queue q i" "s_mem s" ?W ?R] wf mok i reader_queue_id [OF wf i]
    by (simp add: mem_ok_def num_readers_def)
  with rdv have ne: "?R mod ?N \<noteq> ?W mod ?N"
    and m_eq: "m = (s_mem s)[reader_index i := of_nat (Suc ?R mod ?N)]"
    and p_eq: "p = ring_base q + 3 * (?R mod ?N)"
    by (auto split: if_splits)
  have RW: "?R < ?W" using ne reads_le_done [OF rok i] by (metis le_neq_implies_less)
  have RE: "?R = length (s_done s i)" using rok h i by (auto simp: readers_ok_def)
  let ?t = "s\<lparr>s_mem := m, s_held := (s_held s)(i := Some p), s_reads := (s_reads s)(i := Suc ?R)\<rparr>"
  have "mem_ok q ?t"
    using mok reader_index_bound [OF wf] by (auto simp: mem_ok_def m_eq nth_list_update)
  moreover have "readers_ok q ?t"
    using rok RW RE p_eq by (auto simp: readers_ok_def)
  moreover have "writer_ok q ?t"
    using inv reader_index_bound [OF wf i] by (simp add: shm_inv_def writer_ok_def m_eq)
  moreover have "sync_ok q ?t"
    using inv RW i by (fastforce simp: shm_inv_def sync_ok_def m_eq)
  ultimately show ?thesis by (simp add: shm_inv_def)
qed

lemma inv_exec:
  assumes wf: "shm_wf q" and inv: "shm_inv q s" and lap: "less_than_a_lap q s"
    and i: "i < num_readers q" and h: "s_held s i = Some p"
    and v: "slot_at (reader_queue q i) (s_mem s) p = Inr v"
  shows "shm_inv q (s\<lparr>s_held := (s_held s)(i := None), s_done := (s_done s)(i := s_done s i @ [v])\<rparr>)"
proof -
  let ?N = "ring_size q" and ?E = "length (s_done s i)" and ?W = "length (s_pub s)"
  have mok: "mem_ok q s" and rok: "readers_ok q s" using inv by (simp_all add: shm_inv_def)
  have N: "0 < ?N" using shm_wf_layout(1) [OF wf] by simp
  have R: "s_reads s i = Suc ?E" and p: "p = ring_base q + 3 * (?E mod ?N)"
    and dn: "s_done s i = take ?E (s_pub s)"
    using rok h i by (auto simp: readers_ok_def)
  have EW: "?E < ?W" using reads_le_done [OF rok i] R by simp
  have "slot_at (reader_queue q i) (s_mem s) p = Inr (slot3 (ring_base q) (s_mem s) (?E mod ?N))"
    using slot_at_eq [of "reader_queue q i"] wf mok N p by (simp add: mem_ok_def)
  moreover have "slot3 (ring_base q) (s_mem s) (?E mod ?N) = s_pub s ! ?E"
    using inv lap i EW by (simp add: shm_inv_def writer_ok_def ring_window_def less_than_a_lap_def)
  ultimately have v_eq: "v = s_pub s ! ?E" using v by simp
  have dn': "s_done s i @ [v] = take (Suc ?E) (s_pub s)"
    using EW dn v_eq by (metis take_Suc_conv_app_nth)
  show ?thesis
    using inv R EW dn' by (auto simp: shm_inv_def shm_inv_defs)
qed

lemma shm_step_inv:
  assumes "shm_step q s t" and "shm_wf q" and "shm_inv q s" and "less_than_a_lap q s"
  shows "shm_inv q t"
  using assms
  by (induction rule: shm_step.induct)
     (blast intro: inv_start inv_scan inv_synced inv_copy inv_copied inv_publish inv_read inv_exec)+

lemma shm_init_lap: "shm_wf q \<Longrightarrow> shm_init q s \<Longrightarrow> less_than_a_lap q s"
  using shm_wf_layout(1) by (fastforce elim!: shm_init.cases simp: less_than_a_lap_def)

lemma shm_run_inv: "shm_run q s \<Longrightarrow> shm_wf q \<Longrightarrow> shm_inv q s \<and> less_than_a_lap q s"
proof (induction rule: shm_run.induct)
  case (run_init s)
  then show ?case by (simp add: shm_init_inv shm_init_lap)
next
  case (run_step s t)
  then show ?case using shm_step_inv by blast
qed

subsection \<open>Properties\<close>

text \<open>
  C17: as long as the writer stays less than a lap ahead of the commands each reader has
  finished, every reader executes exactly the published commands, in order, from the
  first one on: nothing is lost, repeated, reordered or read half-written, whatever the
  interleaving of the writer's word copies, its position store and the readers.
\<close>

theorem shm_readers_execute_in_order:
  assumes "shm_run q s" and "shm_wf q" and "i < num_readers q"
  shows "s_done s i = take (length (s_done s i)) (s_pub s) \<and>
    length (s_done s i) \<le> length (s_pub s)"
proof -
  have r: "readers_ok q s" using shm_run_inv [OF assms(1,2)] by (simp add: shm_inv_def)
  have "length (s_done s i) \<le> length (s_pub s)"
    using reads_le_done [OF r assms(3)] by simp
  with r assms(3) show ?thesis by (simp add: readers_ok_def)
qed

text \<open>
  C26: as long as the writer stays less than a lap ahead of the commands each reader has
  finished (which every state of a run satisfies, and without which the claim is false), the wait
  at position 0 does what its comment says: when the writer copies the first command of a
  lap, every reader has read every command published before, and has executed all of them except
  perhaps the last, in order.
\<close>

theorem shm_sync_point:
  assumes "shm_run q s" and "shm_wf q" and "s_wpc s = W_copy j" and "s_mem s ! 0 = 0"
    and "i < num_readers q"
  shows "s_reads s i = length (s_pub s) \<and> (s_done s i = s_pub s \<or> s_done s i = butlast (s_pub s))"
proof -
  have inv: "shm_inv q s" using shm_run_inv [OF assms(1,2)] by simp
  then have all: "s_reads s i = length (s_pub s)" using assms(3-5) by (simp add: shm_inv_def sync_ok_def)
  have "s_done s i = take (length (s_done s i)) (s_pub s)"
    "s_reads s i = length (s_done s i) \<or> s_reads s i = Suc (length (s_done s i))"
    using inv assms(5) by (cases "s_held s i"; simp add: shm_inv_def readers_ok_def)+
  with all show ?thesis by (metis butlast_conv_take diff_Suc_1 take_all_iff order_refl)
qed

lemma check_from_zero:
  "(\<And>i. i \<in> set is \<Longrightarrow> reader_index i < length mem \<and> mem ! reader_index i = 0) \<Longrightarrow>
   check_from mem is = Inr True"
  by (induction "is") auto

lemma shm_write_eq:
  assumes wf: "shm_wf q" and len: "length mem = 512" and w: "mem ! 0 = of_nat (w mod ring_size q)"
    and z: "\<And>i. i < num_readers q \<Longrightarrow> mem ! reader_index i = 0" and c: "length c = 3"
  shows "\<exists>mem'. shm_write q c mem = Inr mem' \<and> length mem' = 512 \<and>
    mem' ! 0 = of_nat (Suc w mod ring_size q) \<and>
    (\<forall>i < num_readers q. mem' ! reader_index i = 0)"
proof -
  have N: "w mod ring_size q < ring_size q" using shm_wf_layout(1) [OF wf] by simp
  have "check_readers_end q mem = Inr True"
    unfolding check_readers_end_def
    using z len reader_index_bound [OF wf] by (intro check_from_zero) (auto simp: num_readers_def)
  moreover have "0 < length mem" using len by simp
  ultimately have sync: "shm_sync q mem = Inr ()"
    by (simp add: shm_sync_def)
  obtain m1 where m1: "shm_copy q c mem = Inr m1" "length m1 = 512"
    "\<forall>i < ring_base q. m1 ! i = mem ! i"
    using shm_copy_eq [OF wf len N w c] by blast
  have "shm_publish q m1 = Inr (m1[0 := of_nat (Suc w mod ring_size q)])"
    using m1 w by (intro shm_publish_eq [OF wf]) (auto simp: ring_base_def)
  with sync m1 z reader_index_bound [OF wf] show ?thesis
    by (auto simp: shm_write_def)
qed

lemma write_all_eq:
  assumes "shm_wf q" and "length mem = 512" and "mem ! 0 = of_nat (w mod ring_size q)"
    and "\<And>i. i < num_readers q \<Longrightarrow> mem ! reader_index i = 0" and "\<forall>c \<in> set cs. length c = 3"
  shows "\<exists>mem'. write_all q cs mem = Inr mem' \<and> length mem' = 512 \<and>
    mem' ! 0 = of_nat ((w + length cs) mod ring_size q) \<and>
    (\<forall>i < num_readers q. mem' ! reader_index i = 0)"
  using assms
proof (induction cs arbitrary: mem w)
  case Nil
  then show ?case by simp
next
  case (Cons c cs)
  obtain m where m: "shm_write q c mem = Inr m" "length m = 512"
    "m ! 0 = of_nat (Suc w mod ring_size q)" "\<forall>i < num_readers q. m ! reader_index i = 0"
    using shm_write_eq [OF Cons.prems(1-3), of c] Cons.prems(4,5) by auto
  then show ?case
    using Cons.IH [OF Cons.prems(1) m(2,3)] Cons.prems(5) by auto
qed

text \<open>
  C37: the bound of a lap is needed. The wait compares positions only, and a reader that is
  a whole lap behind is at position 0 like one that has read everything: when the writer
  fills the ring once before a reader has read anything, it is never held up, and the
  reader then sees an empty queue: a lap of \<open>num_slots\<close> commands is invisible to it.
\<close>

theorem shm_full_lap_is_lost:
  assumes "shm_wf q" and "length mem = 512" and "mem ! 0 = 0"
    and "\<forall>i < num_readers q. mem ! reader_index i = 0"
    and "length cs = ring_size q" and "\<forall>c \<in> set cs. length c = 3" and "k < num_readers q"
  shows "\<exists>mem'. write_all q cs mem = Inr mem' \<and>
    shm_read (reader_queue q k) mem' = Inr (mem', None)"
proof -
  have w: "mem ! 0 = of_nat (0 mod ring_size q)" using assms(3) by simp
  obtain m where m: "write_all q cs mem = Inr m" "length m = 512" "m ! 0 = 0"
    "\<forall>i < num_readers q. m ! reader_index i = 0"
    using write_all_eq [OF assms(1,2) w _ assms(6)] assms(4,5) by auto
  have "shm_read (reader_queue q k) m = Inr (m, None)"
    using shm_read_eq [of "reader_queue q k" m 0 0] assms(1,7) m reader_queue_id [OF assms(1,7)]
    by (simp add: num_readers_def)
  with m(1) show ?thesis by blast
qed

text \<open>
  C35: with at most 61 readers and slots of 24 bytes (the size of a command, the only one the
  callers use), initialising the writer succeeds without a fault and the slots lie after the
  position words, inside the 4096-byte buffer, three words apart, and there are at least four of
  them. Both bounds are needed: \<open>shm_too_many_readers\<close> shows the layout fail for the 62 and 63
  readers that the header's limit of 64 replicas still admits.
\<close>

theorem shm_writer_layout:
  assumes "unat n \<le> 61" and "length buf = 512"
  shows "\<exists>q'. init_shm_writer rid n 24 f q buf = Inr (q', buf[0 := 0]) \<and> shm_wf q' \<and>
    4 \<le> ring_size q' \<and>
    (\<forall>k < ring_size q'. slot_index q' (of_nat k) = 8 * (unat n + 1) + 3 * k \<and>
       slot_index q' (of_nat k) + slot_words q' \<le> length buf)"
proof -
  have k1: "unat (ucast n + 1 :: u64) = unat n + 1" "unat (ucast n + 2 :: u64) = unat n + 2"
    using assms(1) by (simp_all add: unat_word_ariths)
  have s1: "slots_for (ucast n + 1) 24 = Inr (of_nat ((4096 - (unat n + 1) * 64) div 24 - 1))"
    using slots_for_24 [of "ucast n + 1"] assms(1) k1 by simp
  have "\<exists>ns. slots_for (ucast n + 2) 24 = Inr ns" by (simp add: slots_for_def)
  then obtain ns where s2: "slots_for (ucast n + 2) 24 = Inr ns" by blast
  define q' where "q' = q\<lparr>sq_replica_id := rid, sq_slot_size := 24, sq_num_readers := n,
     sq_execute := choose_exec f, sq_num_slots := of_nat ((4096 - (unat n + 1) * 64) div 24 - 1)\<rparr>"
  have init: "init_shm_writer rid n 24 f q buf = Inr (q', buf[0 := 0])"
    using assms(2) by (simp add: init_shm_writer_def s2 setup_memory_def s1 q'_def)
  have wf: "shm_wf q'"
    using assms(1) by (simp add: shm_wf_def setup_memory_def q'_def s1)
  have "slot_index q' (of_nat k) = 8 * (unat n + 1) + 3 * k \<and>
       slot_index q' (of_nat k) + slot_words q' \<le> length buf" if "k < ring_size q'" for k
  proof -
    have "slot_index q' (of_nat k) = 8 * (unat n + 1) + 3 * k"
      using slot_index_eq [OF wf that] by (simp add: ring_base_def q'_def)
    moreover have "8 * (unat n + 1) + 3 * k + 3 \<le> 512"
      using shm_wf_layout(3) [OF wf] that by (simp add: ring_base_def q'_def)
    ultimately show ?thesis using wf assms(2) by simp
  qed
  with init wf shm_wf_layout(1) [OF wf] show ?thesis by blast
qed

lemma num_slots_wrap: "(ucast (- 1 :: u64) :: u16) = 65535"
  by code_simp

text \<open>
  The header allows 64 replicas, the buffer does not. With 62 readers one slot is left
  and the write position is 0 after every write, so no reader ever sees a command; with 63
  the slot count wraps around to 65535 and the first copied word falls behind the buffer.
\<close>

theorem shm_too_many_readers:
  "\<exists>q62 q63. setup_memory (q\<lparr>sq_num_readers := 62, sq_slot_size := 24\<rparr>) = Inr q62 \<and>
     next_pos q62 0 = Inr 0 \<and>
     setup_memory (q\<lparr>sq_num_readers := 63, sq_slot_size := 24\<rparr>) = Inr q63 \<and>
     sq_num_slots q63 = 65535 \<and>
     copy_word q63 0 [a, b, c] 0 (replicate 512 0) = Inl OutOfBounds"
  by (simp add: setup_memory_def slots_for_def pos_pointers_def SHM_SIZE_def next_pos_def
      copy_word_def slot_index_def num_slots_wrap)

subsection \<open>A run\<close>

definition example_queue :: shm_queue where
  "example_queue = \<lparr>sq_replica_id = 0, sq_shm_id = 0, sq_num_readers = 1, sq_slot_size = 24,
     sq_num_slots = 164, sq_node_level = False, sq_execute = Default_exec_fn\<rparr>"

lemma example_queue_wf: "shm_wf example_queue"
  by (simp add: shm_wf_def example_queue_def setup_memory_def slots_for_def pos_pointers_def
      SHM_SIZE_def)

lemma example_queue_sizes [simp]:
  "num_readers example_queue = 1" "ring_size example_queue = 164" "ring_base example_queue = 16"
  "slot_words example_queue = 3"
  "sq_num_readers example_queue = 1"
  by (simp_all add: num_readers_def ring_size_def ring_base_def example_queue_def slot_words_def)

definition fresh_sys :: shm_sys where
  "fresh_sys = \<lparr>s_mem = replicate 512 0, s_wpc = W_idle, s_cmd = [], s_pub = [],
     s_reads = (\<lambda>_. 0), s_held = (\<lambda>_. None), s_done = (\<lambda>_. [])\<rparr>"

lemma fresh_run: "shm_run example_queue fresh_sys"
  unfolding fresh_sys_def
  by (rule run_init, rule shm_init.intros) (simp_all add: reader_index_def)

lemma lap_short: "length (s_pub s) < 164 \<Longrightarrow> less_than_a_lap example_queue s"
  by (simp add: less_than_a_lap_def)

lemma example_synced: "shm_run example_queue (fresh_sys\<lparr>s_cmd := [7, 8, 9], s_wpc := W_copy 0\<rparr>)"
proof -
  let ?s1 = "fresh_sys\<lparr>s_cmd := [7, 8, 9], s_wpc := W_scan 0\<rparr>"
  have "shm_step example_queue fresh_sys ?s1"
    using shm_step.w_start [of fresh_sys "[7, 8, 9]" 0 example_queue]
    by (simp add: fresh_sys_def)
  then have r1: "shm_run example_queue ?s1"
    by (rule run_step [OF fresh_run]) (simp add: lap_short fresh_sys_def)
  let ?s2 = "?s1\<lparr>s_wpc := W_scan 1\<rparr>"
  have "shm_step example_queue ?s1 ?s2"
    using shm_step.w_scan [of ?s1 0 example_queue 0]
    by (simp add: fresh_sys_def reader_index_def)
  then have r2: "shm_run example_queue ?s2"
    by (rule run_step [OF r1]) (simp add: lap_short fresh_sys_def)
  have "shm_step example_queue ?s2 (?s2\<lparr>s_wpc := W_copy 0\<rparr>)"
    by (rule shm_step.w_synced) simp
  then have "shm_run example_queue (?s2\<lparr>s_wpc := W_copy 0\<rparr>)"
    by (rule run_step [OF r2]) (simp add: lap_short fresh_sys_def)
  then show ?thesis by simp
qed

definition example_mem :: shm_mem where
  "example_mem = (replicate 512 0)[16 := 7, 17 := 8, 18 := 9]"

lemma example_published:
  "shm_run example_queue (fresh_sys\<lparr>s_cmd := [7, 8, 9], s_mem := example_mem[0 := 1],
     s_pub := [[7, 8, 9]]\<rparr>)"
proof -
  let ?m0 = "replicate 512 (0 :: u64)"
  let ?s = "\<lambda>m w. fresh_sys\<lparr>s_cmd := [7, 8, 9], s_mem := m, s_wpc := w\<rparr>"
  have step: "shm_run example_queue (?s (poke3 16 0 j ([7, 8, 9] ! j) m) (W_copy (Suc j)))"
    if "shm_run example_queue (?s m (W_copy j))" "j < 3" "length m = 512" "m ! 0 = 0" for m j
  proof -
    have "copy_word example_queue (of_nat 0) [7, 8, 9] j m =
        Inr (poke3 (ring_base example_queue) 0 j ([7, 8, 9] ! j) m)"
      using that by (intro copy_word_eq [OF example_queue_wf]) auto
    then have "shm_step example_queue (?s m (W_copy j))
        (?s (poke3 16 0 j ([7, 8, 9] ! j) m) (W_copy (Suc j)))"
      using shm_step.w_copy [of "?s m (W_copy j)" j example_queue 0] that by simp
    then show ?thesis
      by (rule run_step [OF that(1)]) (simp add: lap_short fresh_sys_def)
  qed
  have r0: "shm_run example_queue (?s ?m0 (W_copy 0))"
    using example_synced by (simp add: fresh_sys_def)
  have r1: "shm_run example_queue (?s (poke3 16 0 0 7 ?m0) (W_copy 1))"
    using step [OF r0] by simp
  have r2: "shm_run example_queue (?s (poke3 16 0 1 8 (poke3 16 0 0 7 ?m0)) (W_copy 2))"
    using step [OF r1] by (simp add: poke3_def numeral_2_eq_2)
  have "shm_run example_queue (?s (poke3 16 0 2 9 (poke3 16 0 1 8 (poke3 16 0 0 7 ?m0))) (W_copy 3))"
    using step [OF r2] by (simp add: poke3_def numeral_3_eq_3 numeral_2_eq_2)
  then have r3: "shm_run example_queue (?s example_mem (W_copy 3))"
    by (simp add: poke3_def example_mem_def)
  have "shm_step example_queue (?s example_mem (W_copy 3)) (?s example_mem W_publish)"
    using shm_step.w_copied [of "?s example_mem (W_copy 3)" example_queue] by simp
  then have r4: "shm_run example_queue (?s example_mem W_publish)"
    by (rule run_step [OF r3]) (simp add: lap_short fresh_sys_def)
  have "shm_publish example_queue example_mem = Inr (example_mem[0 := 1])"
    using shm_publish_eq [OF example_queue_wf, of example_mem 0] by (simp add: example_mem_def)
  then have "shm_step example_queue (?s example_mem W_publish)
      (fresh_sys\<lparr>s_cmd := [7, 8, 9], s_mem := example_mem[0 := 1], s_pub := [[7, 8, 9]]\<rparr>)"
    using shm_step.w_publish [of "?s example_mem W_publish" example_queue "example_mem[0 := 1]"]
    by (simp add: fresh_sys_def)
  then show ?thesis
    by (rule run_step [OF r4]) (simp add: lap_short fresh_sys_def)
qed

lemma example_executed:
  "\<exists>s. shm_run example_queue s \<and> s_done s 0 = [[7, 8, 9]]"
proof -
  let ?s = "fresh_sys\<lparr>s_cmd := [7, 8, 9], s_mem := example_mem[0 := 1], s_pub := [[7, 8, 9]]\<rparr>"
  let ?q = "reader_queue example_queue 0"
  let ?m = "example_mem[0 := 1, 8 := 1]"
  have idq: "unat (sq_shm_id ?q) = 0" by (simp add: reader_queue_def)
  have "shm_read ?q (example_mem[0 := 1]) = Inr (?m, Some 16)"
    using shm_read_eq [of ?q "example_mem[0 := 1]" 1 0] example_queue_wf idq
    by (simp add: reader_index_def example_mem_def)
  then have "shm_step example_queue ?s
      (?s\<lparr>s_mem := ?m, s_held := (\<lambda>_. None)(0 := Some 16), s_reads := (\<lambda>_. 0)(0 := 1)\<rparr>)"
      (is "shm_step _ _ ?t")
    using shm_step.r_read [of 0 example_queue ?s ?m 16] by (simp add: fresh_sys_def)
  then have r1: "shm_run example_queue ?t"
    by (rule run_step [OF example_published]) (simp add: lap_short)
  have "slot_at ?q ?m 16 = Inr [7, 8, 9]"
    using slot_at_eq [of ?q ?m 0] example_queue_wf
    by (simp add: slot3_def example_mem_def numeral_3_eq_3 Cons_nth_drop_Suc [symmetric])
  then have "shm_step example_queue ?t
      (?t\<lparr>s_held := (\<lambda>_. None)(0 := Some 16, 0 := None), s_done := (\<lambda>_. [])(0 := [[7, 8, 9]])\<rparr>)"
      (is "shm_step _ _ ?u")
    using shm_step.r_exec [of 0 example_queue ?t 16 "[7, 8, 9]"] by (simp add: fresh_sys_def)
  then have "shm_run example_queue ?u"
    by (rule run_step [OF r1]) (simp add: lap_short)
  then show ?thesis by (intro exI [of _ ?u]) simp
qed

theorem shm_readers_execute_in_order_witness:
  "\<exists>s. shm_run example_queue s \<and> s_done s 0 = [[7, 8, 9]] \<and>
     s_done s 0 = take (length (s_done s 0)) (s_pub s)"
proof -
  obtain s where s: "shm_run example_queue s" "s_done s 0 = [[7, 8, 9]]"
    using example_executed by blast
  have "s_done s 0 = take (length (s_done s 0)) (s_pub s)"
    using shm_readers_execute_in_order [OF s(1) example_queue_wf, of 0] by simp
  with s show ?thesis by blast
qed

text \<open>
  States in which the writer is at \<open>pc\<close>, has published \<open>n\<close> commands, and the reader has executed
  them; from each the writer can publish one more and the reader execute it.
\<close>

definition level :: "wpc \<Rightarrow> nat \<Rightarrow> shm_sys \<Rightarrow> bool" where
  "level pc n s \<longleftrightarrow> shm_run example_queue s \<and> s_wpc s = pc \<and> length (s_pub s) = n \<and> s_held s 0 = None \<and>
     s_reads s 0 = n \<and> length (s_done s 0) = n"

lemma level_memory:
  assumes "level pc n s"
  shows "length (s_mem s) = 512" and "s_mem s ! 0 = of_nat (n mod 164)" and "s_mem s ! reader_index 0 = of_nat (n mod 164)"
    and "pc \<noteq> W_idle \<Longrightarrow> length (s_cmd s) = 3"
  using shm_run_inv [of example_queue s] assms example_queue_wf
  by (auto simp: level_def shm_inv_def mem_ok_def writer_ok_def Let_def)

lemma level_step:
  "level pc n s \<Longrightarrow> shm_step example_queue s (s\<lparr>s_wpc := pc'\<rparr>) \<Longrightarrow> level pc' n (s\<lparr>s_wpc := pc'\<rparr>)"
  "level pc n s \<Longrightarrow> shm_step example_queue s (s\<lparr>s_cmd := x, s_wpc := pc'\<rparr>) \<Longrightarrow> level pc' n (s\<lparr>s_cmd := x, s_wpc := pc'\<rparr>)"
  "level pc n s \<Longrightarrow> shm_step example_queue s (s\<lparr>s_mem := m, s_wpc := pc'\<rparr>) \<Longrightarrow> level pc' n (s\<lparr>s_mem := m, s_wpc := pc'\<rparr>)"
  by (auto simp: level_def less_than_a_lap_def elim!: run_step)

lemma level_start:
  assumes "level W_idle n s"
  shows "\<exists>t. level (W_copy 0) n t"
proof -
  note mem = level_memory [OF assms]
  have idle: "s_wpc s = W_idle" using assms by (simp add: level_def)
  have w: "rd (s_mem s) 0 = Inr (of_nat (n mod 164))" using mem(1,2) by (simp add: rd_eq_Inr)
  have start: "shm_step example_queue s (s\<lparr>s_cmd := [7, 8, 9], s_wpc := (if (of_nat (n mod 164) :: u64) = 0 then W_scan 0 else W_copy 0)\<rparr>)"
    by (rule shm_step.w_start [OF idle _ w]) simp
  show ?thesis
  proof (cases "(of_nat (n mod 164) :: u64) = 0")
    case False
    with start level_step(2) [OF assms] show ?thesis by fastforce
  next
    case True
    with start level_step(2) [OF assms] have l1: "level (W_scan 0) n (s\<lparr>s_cmd := [7, 8, 9], s_wpc := W_scan 0\<rparr>)" (is "level _ _ ?t") by simp
    have p: "rd (s_mem ?t) (reader_index 0) = Inr 0"
      using level_memory [OF l1] True by (simp add: rd_eq_Inr reader_index_def)
    have "shm_step example_queue ?t (?t\<lparr>s_wpc := W_scan 1\<rparr>)"
      using shm_step.w_scan [of ?t 0 example_queue 0] p by simp
    from level_step(1) [OF l1 this] have l2: "level (W_scan 1) n (?t\<lparr>s_wpc := W_scan 1\<rparr>)" (is "level _ _ ?u") .
    have "shm_step example_queue ?u (?u\<lparr>s_wpc := W_copy 0\<rparr>)" by (rule shm_step.w_synced) simp
    from level_step(1) [OF l2 this] show ?thesis by blast
  qed
qed

lemma level_copy:
  assumes "level (W_copy j) n s" and "j < 3"
  shows "\<exists>t. level (W_copy (Suc j)) n t"
proof -
  note mem = level_memory [OF assms(1)]
  have w: "rd (s_mem s) 0 = Inr (of_nat (n mod 164))" using mem(1,2) by (simp add: rd_eq_Inr)
  have "copy_word example_queue (of_nat (n mod 164)) (s_cmd s) j (s_mem s) =
      Inr (poke3 (ring_base example_queue) (n mod 164) j (s_cmd s ! j) (s_mem s))"
    using mem(1,4) assms(2) by (intro copy_word_eq [OF example_queue_wf]) simp_all
  from shm_step.w_copy [OF _ _ w this] assms level_step(3) [OF assms(1)] show ?thesis
    by (fastforce simp: level_def)
qed

lemma level_round:
  assumes "level W_idle n s"
  shows "\<exists>t. level W_idle (Suc n) t"
proof -
  obtain s0 where s0: "level (W_copy 0) n s0" using level_start [OF assms] by blast
  obtain s1 where "level (W_copy (Suc 0)) n s1" using level_copy [OF s0] by auto
  then obtain s2 where "level (W_copy (Suc (Suc 0))) n s2" using level_copy by force
  then obtain s3 where s3: "level (W_copy 3) n s3" using level_copy [of 2 n s2] by (auto simp: numeral_2_eq_2 numeral_3_eq_3)
  have "shm_step example_queue s3 (s3\<lparr>s_wpc := W_publish\<rparr>)"
    using s3 by (intro shm_step.w_copied) (simp add: level_def)
  from level_step(1) [OF s3 this] obtain s4 where s4: "level W_publish n s4" by blast
  note mem = level_memory [OF s4]
  let ?m = "(s_mem s4)[0 := of_nat (Suc n mod 164)]"
  let ?t = "s4\<lparr>s_mem := ?m, s_wpc := W_idle, s_pub := s_pub s4 @ [s_cmd s4]\<rparr>"
  have "shm_publish example_queue (s_mem s4) = Inr ?m"
    using shm_publish_eq [OF example_queue_wf mem(1), of n] mem(2) by simp
  then have "shm_step example_queue s4 ?t" using s4 by (intro shm_step.w_publish) (simp_all add: level_def)
  then have t: "shm_run example_queue ?t"
    by (rule run_step [rotated]) (use s4 in \<open>simp_all add: level_def less_than_a_lap_def\<close>)
  let ?q = "reader_queue example_queue 0" and ?p = "16 + 3 * (n mod 164)"
  let ?m2 = "?m[reader_index 0 := of_nat (Suc n mod 164)]"
  have id0: "unat (sq_shm_id ?q) = 0" by (simp add: reader_queue_def)
  have "n mod 164 \<noteq> Suc n mod 164" by (simp add: mod_Suc)
  moreover have "shm_read ?q ?m = (if n mod 164 = Suc n mod 164 then Inr (?m, None) else Inr (?m2, Some ?p))"
    using shm_read_eq [of ?q ?m "Suc n" n] example_queue_wf mem id0 by (simp add: reader_index_def)
  ultimately have "shm_read ?q (s_mem ?t) = Inr (?m2, Some ?p)" by simp
  then have "shm_step example_queue ?t (?t\<lparr>s_mem := ?m2, s_held := (s_held ?t)(0 := Some ?p), s_reads := (s_reads ?t)(0 := Suc (s_reads ?t 0))\<rparr>)"
    (is "shm_step _ _ ?u")
    using s4 by (intro shm_step.r_read) (simp_all add: level_def)
  then have u: "shm_run example_queue ?u"
    by (rule run_step [OF t]) (use s4 in \<open>simp add: level_def less_than_a_lap_def\<close>)
  have "slot_at ?q (s_mem ?u) ?p = Inr (slot3 16 (s_mem ?u) (n mod 164))"
    using slot_at_eq [of ?q "s_mem ?u" "n mod 164"] example_queue_wf mem(1) by simp
  then have "shm_step example_queue ?u (?u\<lparr>s_held := (s_held ?u)(0 := None), s_done := (s_done ?u)(0 := s_done ?u 0 @ [slot3 16 (s_mem ?u) (n mod 164)])\<rparr>)"
    (is "shm_step _ _ ?v")
    by (intro shm_step.r_exec [where p = ?p]) simp_all
  then have "shm_run example_queue ?v"
    by (rule run_step [OF u]) (use s4 in \<open>simp add: level_def less_than_a_lap_def\<close>)
  then have "level W_idle (Suc n) ?v" using s4 by (simp add: level_def)
  then show ?thesis by blast
qed

lemma level_reached: "\<exists>s. level W_idle n s"
proof (induction n)
  case 0
  show ?case using fresh_run by (intro exI [of _ fresh_sys]) (simp add: level_def fresh_sys_def)
next
  case (Suc n)
  then show ?case using level_round by blast
qed

text \<open>The second lap: 164 commands have gone through all slots of the ring.\<close>

theorem shm_sync_point_witness:
  "\<exists>s. shm_run example_queue s \<and> s_wpc s = W_copy 0 \<and> s_mem s ! 0 = 0 \<and> length (s_pub s) = 164 \<and>
     s_reads s 0 = 164 \<and> (s_done s 0 = s_pub s \<or> s_done s 0 = butlast (s_pub s))"
proof -
  obtain s0 where "level W_idle 164 s0" using level_reached by blast
  from level_start [OF this] obtain s where s: "level (W_copy 0) 164 s" by blast
  have zero: "s_mem s ! 0 = 0" using level_memory(2) [OF s] by simp
  have run: "shm_run example_queue s" "s_wpc s = W_copy 0" "length (s_pub s) = 164" using s by (simp_all add: level_def)
  from shm_sync_point [OF run(1) example_queue_wf run(2) zero, of 0] run zero show ?thesis by auto
qed

theorem shm_full_lap_is_lost_witness:
  "\<exists>mem'. write_all example_queue (replicate 164 [1, 2, 3]) (replicate 512 0) = Inr mem' \<and>
    shm_read (reader_queue example_queue 0) mem' = Inr (mem', None)"
  by (rule shm_full_lap_is_lost [OF example_queue_wf]) (simp_all add: reader_index_def)

theorem shm_writer_layout_witness:
  "\<exists>q'. init_shm_writer 0 3 24 None example_queue (replicate 512 0) = Inr (q', (replicate 512 0)[0 := 0]) \<and>
    shm_wf q' \<and> 4 \<le> ring_size q' \<and>
    (\<forall>k < ring_size q'. slot_index q' (of_nat k) = 8 * (unat (3 :: u8) + 1) + 3 * k \<and>
       slot_index q' (of_nat k) + slot_words q' \<le> length (replicate 512 (0 :: u64)))"
  by (rule shm_writer_layout) simp_all

end
