(* ===== verification/Message.thy ===== *)
theory Message
  imports Prelude
begin

text \<open>
  The message header of \<^verbatim>\<open>client.c\<close>: tag, client id and request id share the 64-bit word
  they are stored in. The code casts the word's address to \<^verbatim>\<open>uint16_t*\<close> or \<^verbatim>\<open>uint32_t*\<close> and
  indexes it; on the little-endian machines it targets, index 3 of the 16-bit view is bits
  48 to 63, index 2 is bits 32 to 47, and index 0 of the 32-bit view is bits 0 to 31.
\<close>

definition SETUP_TAG :: u16 where "SETUP_TAG = 0"
definition REQ_TAG :: u16 where "REQ_TAG = 1"
definition RESP_TAG :: u16 where "RESP_TAG = 2"

lemmas client_tags [algs] = SETUP_TAG_def REQ_TAG_def RESP_TAG_def

lemma client_tags_distinct [simp]:
  "SETUP_TAG \<noteq> REQ_TAG" "SETUP_TAG \<noteq> RESP_TAG" "REQ_TAG \<noteq> RESP_TAG"
  "REQ_TAG \<noteq> SETUP_TAG" "RESP_TAG \<noteq> SETUP_TAG" "RESP_TAG \<noteq> REQ_TAG"
  by (simp_all add: algs)

definition get_tag :: "u64 \<Rightarrow> u16" where
  "get_tag w = ucast (drop_bit 48 w)"

definition set_tag :: "u64 \<Rightarrow> u16 \<Rightarrow> u64" where
  "set_tag w t = (w AND NOT (push_bit 48 (mask 16))) OR push_bit 48 (ucast t)"

definition get_client_id :: "u64 \<Rightarrow> u16" where
  "get_client_id w = ucast (drop_bit 32 w)"

definition set_client_id :: "u64 \<Rightarrow> u16 \<Rightarrow> u64" where
  "set_client_id w c = (w AND NOT (push_bit 32 (mask 16))) OR push_bit 32 (ucast c)"

definition get_request_id :: "u64 \<Rightarrow> u32" where
  "get_request_id w = ucast w"

definition set_request_id :: "u64 \<Rightarrow> u32 \<Rightarrow> u64" where
  "set_request_id w r = (w AND NOT (mask 32)) OR ucast r"

text \<open>The same operations on the word \<^verbatim>\<open>msg->data[i]\<close> of a message.\<close>

definition put_tag :: "nat \<Rightarrow> u16 \<Rightarrow> msg \<Rightarrow> msg" where
  "put_tag i t m = m[i := set_tag (m ! i) t]"

definition put_client_id :: "nat \<Rightarrow> u16 \<Rightarrow> msg \<Rightarrow> msg" where
  "put_client_id i c m = m[i := set_client_id (m ! i) c]"

definition put_request_id :: "nat \<Rightarrow> u32 \<Rightarrow> msg \<Rightarrow> msg" where
  "put_request_id i r m = m[i := set_request_id (m ! i) r]"

definition msg_tag :: "msg \<Rightarrow> u16" where "msg_tag m = get_tag (m ! 0)"
definition msg_cid :: "msg \<Rightarrow> u16" where "msg_cid m = get_client_id (m ! 0)"
definition msg_rid :: "msg \<Rightarrow> u32" where "msg_rid m = get_request_id (m ! 0)"

subsection \<open>The contract of a header field\<close>

locale header_field =
  fixes fget :: "u64 \<Rightarrow> 'f"
    and fset :: "u64 \<Rightarrow> 'f \<Rightarrow> u64"
  assumes get_set: "fget (fset w v) = v"
    and set_set: "fset (fset w v) v' = fset w v'"
    and set_get: "fset w (fget w) = w"
begin

lemma set_inject: "fset w v = fset w v' \<longleftrightarrow> v = v'"
  by (metis get_set)

lemma same_iff: "fset w v = w \<longleftrightarrow> fget w = v"
  by (metis get_set set_get)

lemma set_idem: "fset (fset w v) v = fset w v"
  by (rule set_set)

end

locale header_fields = a: header_field fget fset + b: header_field gget gset
  for fget :: "u64 \<Rightarrow> 'f" and fset and gget :: "u64 \<Rightarrow> 'g" and gset +
  assumes get_other: "fget (gset w u) = fget w"
    and get_other': "gget (fset w v) = gget w"
    and commute: "fset (gset w u) v = gset (fset w v) u"
begin

lemma overwrite_both: "fset (gset (fset w v') u) v = gset (fset w v) u"
  by (metis a.set_set commute)

end

lemma get_set_tag: "get_tag (set_tag w t) = t"
  unfolding get_tag_def set_tag_def
  by (rule bit_word_eqI) (auto simp: bit_simps dest: bit_imp_le_length)

lemma set_set_tag: "set_tag (set_tag w t) t' = set_tag w t'"
  unfolding set_tag_def by (rule bit_word_eqI) (auto simp: bit_simps dest: bit_imp_le_length)

lemma set_get_tag: "set_tag w (get_tag w) = w"
  unfolding get_tag_def set_tag_def by (rule bit_word_eqI) (auto simp: bit_simps dest: bit_imp_le_length)

lemma get_set_client_id: "get_client_id (set_client_id w t) = t"
  unfolding get_client_id_def set_client_id_def
  by (rule bit_word_eqI) (auto simp: bit_simps dest: bit_imp_le_length)

lemma set_set_client_id: "set_client_id (set_client_id w t) t' = set_client_id w t'"
  unfolding set_client_id_def by (rule bit_word_eqI) (auto simp: bit_simps dest: bit_imp_le_length)

lemma set_get_client_id: "set_client_id w (get_client_id w) = w"
  unfolding get_client_id_def set_client_id_def
  by (rule bit_word_eqI) (auto simp: bit_simps dest: bit_imp_le_length)

lemma get_set_request_id: "get_request_id (set_request_id w t) = t"
  unfolding get_request_id_def set_request_id_def
  by (rule bit_word_eqI) (auto simp: bit_simps dest: bit_imp_le_length)

lemma set_set_request_id: "set_request_id (set_request_id w t) t' = set_request_id w t'"
  unfolding set_request_id_def by (rule bit_word_eqI) (auto simp: bit_simps dest: bit_imp_le_length)

lemma set_get_request_id: "set_request_id w (get_request_id w) = w"
  unfolding get_request_id_def set_request_id_def
  by (rule bit_word_eqI) (auto simp: bit_simps dest: bit_imp_le_length)

interpretation tag_field: header_field get_tag set_tag
  by unfold_locales (rule get_set_tag set_set_tag set_get_tag)+

interpretation cid_field: header_field get_client_id set_client_id
  by unfold_locales (rule get_set_client_id set_set_client_id set_get_client_id)+

interpretation rid_field: header_field get_request_id set_request_id
  by unfold_locales (rule get_set_request_id set_set_request_id set_get_request_id)+

lemma get_tag_set_client_id: "get_tag (set_client_id w c) = get_tag w"
  unfolding get_tag_def set_client_id_def
  by (rule bit_word_eqI) (auto simp: bit_simps dest: bit_imp_le_length)

lemma get_client_id_set_tag: "get_client_id (set_tag w t) = get_client_id w"
  unfolding get_client_id_def set_tag_def
  by (rule bit_word_eqI) (auto simp: bit_simps dest: bit_imp_le_length)

lemma set_tag_set_client_id:
  "set_tag (set_client_id w c) t = set_client_id (set_tag w t) c"
  unfolding set_tag_def set_client_id_def
  by (rule bit_word_eqI) (auto simp: bit_simps dest: bit_imp_le_length)

lemma get_tag_set_request_id: "get_tag (set_request_id w r) = get_tag w"
  unfolding get_tag_def set_request_id_def
  by (rule bit_word_eqI) (auto simp: bit_simps dest: bit_imp_le_length)

lemma get_request_id_set_tag: "get_request_id (set_tag w t) = get_request_id w"
  unfolding get_request_id_def set_tag_def
  by (rule bit_word_eqI) (auto simp: bit_simps dest: bit_imp_le_length)

lemma set_tag_set_request_id:
  "set_tag (set_request_id w r) t = set_request_id (set_tag w t) r"
  unfolding set_tag_def set_request_id_def
  by (rule bit_word_eqI) (auto simp: bit_simps dest: bit_imp_le_length)

lemma get_client_id_set_request_id: "get_client_id (set_request_id w r) = get_client_id w"
  unfolding get_client_id_def set_request_id_def
  by (rule bit_word_eqI) (auto simp: bit_simps dest: bit_imp_le_length)

lemma get_request_id_set_client_id: "get_request_id (set_client_id w c) = get_request_id w"
  unfolding get_request_id_def set_client_id_def
  by (rule bit_word_eqI) (auto simp: bit_simps dest: bit_imp_le_length)

lemma set_client_id_set_request_id:
  "set_client_id (set_request_id w r) c = set_request_id (set_client_id w c) r"
  unfolding set_client_id_def set_request_id_def
  by (rule bit_word_eqI) (auto simp: bit_simps dest: bit_imp_le_length)

interpretation tag_cid: header_fields get_tag set_tag get_client_id set_client_id
  by unfold_locales
    (rule get_tag_set_client_id get_client_id_set_tag set_tag_set_client_id)+

interpretation tag_rid: header_fields get_tag set_tag get_request_id set_request_id
  by unfold_locales
    (rule get_tag_set_request_id get_request_id_set_tag set_tag_set_request_id)+

interpretation cid_rid: header_fields get_client_id set_client_id get_request_id set_request_id
  by unfold_locales
    (rule get_client_id_set_request_id get_request_id_set_client_id
      set_client_id_set_request_id)+

text \<open>
  The same layout read as arithmetic on the 64-bit value: the request id is the low 32 bits,
  the client id the next 16, the tag the top 16.
\<close>

lemma get_tag_arith [code]: "get_tag w = word_of_int (uint w div 281474976710656)"
  by (rule bit_word_eqI) (simp add: get_tag_def bit_simps drop_bit_eq_div [of 48 "uint w", simplified, symmetric])

lemma get_client_id_arith [code]: "get_client_id w = word_of_int (uint w div 4294967296)"
  by (rule bit_word_eqI) (simp add: get_client_id_def bit_simps drop_bit_eq_div [of 32 "uint w", simplified, symmetric])

lemma set_tag_arith [code]: "set_tag w t = word_of_int (uint w mod 281474976710656 + uint t * 281474976710656)"
proof -
  have "take_bit 48 (uint w) + push_bit 48 (uint t) = take_bit 48 (uint w) OR push_bit 48 (uint t)"
    by (rule disjunctive_add_eq_or) (auto intro!: bit_eqI simp: bit_simps dest: bit_imp_le_length)
  then have "uint w mod 281474976710656 + uint t * 281474976710656 = take_bit 48 (uint w) OR push_bit 48 (uint t)"
    by (simp add: take_bit_eq_mod push_bit_eq_mult)
  moreover have "set_tag w t = word_of_int (take_bit 48 (uint w) OR push_bit 48 (uint t))" unfolding set_tag_def
    by (rule bit_word_eqI) (auto simp: bit_simps not_less)
  ultimately show ?thesis by simp
qed

lemma set_client_id_arith [code]: "set_client_id w c = word_of_int (uint w mod 4294967296 + (uint c * 4294967296 + uint w div 281474976710656 * 281474976710656))"
proof -
  have "push_bit 32 (uint c) + push_bit 48 (drop_bit 48 (uint w)) = push_bit 32 (uint c) OR push_bit 48 (drop_bit 48 (uint w))"
    by (rule disjunctive_add_eq_or, auto intro!: bit_eqI simp: bit_simps, use bit_imp_le_length [of c] in fastforce)
  moreover have "take_bit 32 (uint w) + (push_bit 32 (uint c) OR push_bit 48 (drop_bit 48 (uint w))) =
     take_bit 32 (uint w) OR (push_bit 32 (uint c) OR push_bit 48 (drop_bit 48 (uint w)))"
    by (rule disjunctive_add_eq_or) (auto intro!: bit_eqI simp: bit_simps dest: bit_imp_le_length)
  ultimately have "uint w mod 4294967296 + (uint c * 4294967296 + uint w div 281474976710656 * 281474976710656) =
     take_bit 32 (uint w) OR (push_bit 32 (uint c) OR push_bit 48 (drop_bit 48 (uint w)))"
    by (simp add: take_bit_eq_mod push_bit_eq_mult drop_bit_eq_div)
  moreover have "set_client_id w c = word_of_int (take_bit 32 (uint w) OR (push_bit 32 (uint c) OR push_bit 48 (drop_bit 48 (uint w))))"
   unfolding set_client_id_def
    by (rule bit_word_eqI) (auto simp: bit_simps not_less)
  ultimately show ?thesis by simp
qed

lemma set_request_id_arith [code]: "set_request_id w r = word_of_int (uint w div 4294967296 * 4294967296 + uint r)"
proof -
  have "push_bit 32 (drop_bit 32 (uint w)) + uint r = push_bit 32 (drop_bit 32 (uint w)) OR uint r"
    by (rule disjunctive_add_eq_or, auto intro!: bit_eqI simp: bit_simps, use bit_imp_le_length [of r] in fastforce)
  moreover have "set_request_id w r = word_of_int (push_bit 32 (drop_bit 32 (uint w)) OR uint r)"
   unfolding set_request_id_def
    by (rule bit_word_eqI) (auto simp: bit_simps not_less)
  ultimately show ?thesis by (simp add: push_bit_eq_mult drop_bit_eq_div)
qed

named_theorems hdr \<open>what the header operations leave in a message\<close>

lemmas field_laws [hdr] =
  get_set_tag set_set_tag set_get_tag
  get_set_client_id set_set_client_id set_get_client_id
  get_set_request_id set_set_request_id set_get_request_id
  get_tag_set_client_id get_tag_set_request_id
  get_client_id_set_tag get_client_id_set_request_id
  get_request_id_set_tag get_request_id_set_client_id

lemma wf_put [simp]:
  "wf_msg (put_tag i t m) = wf_msg m"
  "wf_msg (put_client_id i c m) = wf_msg m"
  "wf_msg (put_request_id i r m) = wf_msg m"
  by (simp_all add: wf_msg_def put_tag_def put_client_id_def put_request_id_def)

lemma wf_list_update [simp]: "wf_msg (m[i := v]) = wf_msg m"
  by (simp add: wf_msg_def)

lemma payload_put [simp]:
  "i < 4 \<Longrightarrow> payload (put_tag i t m) = payload m"
  "i < 4 \<Longrightarrow> payload (put_client_id i c m) = payload m"
  "i < 4 \<Longrightarrow> payload (put_request_id i r m) = payload m"
  by (simp_all add: payload_def put_tag_def put_client_id_def put_request_id_def)

lemma payload_update [simp]: "i < 4 \<Longrightarrow> payload (m[i := v]) = payload m"
  by (simp add: payload_def)

lemma wf_msg_nonempty [simp]: "wf_msg m \<Longrightarrow> m \<noteq> []"
  by (auto simp: wf_msg_def)

lemma wf_msg_len [simp]: "wf_msg m \<Longrightarrow> i < 7 \<Longrightarrow> i < length m"
  by (simp add: wf_msg_def)

lemma msg_hdr_put [hdr]:
  "wf_msg m \<Longrightarrow> msg_tag (put_tag 0 t m) = t"
  "msg_cid (put_tag 0 t m) = msg_cid m"
  "msg_rid (put_tag 0 t m) = msg_rid m"
  "msg_tag (put_client_id 0 c m) = msg_tag m"
  "wf_msg m \<Longrightarrow> msg_cid (put_client_id 0 c m) = c"
  "msg_rid (put_client_id 0 c m) = msg_rid m"
  "msg_tag (put_request_id 0 r m) = msg_tag m"
  "msg_cid (put_request_id 0 r m) = msg_cid m"
  "wf_msg m \<Longrightarrow> msg_rid (put_request_id 0 r m) = r"
  by (cases m;
      simp add: msg_tag_def msg_cid_def msg_rid_def put_tag_def put_client_id_def
        put_request_id_def wf_msg_def field_laws)+

lemma put_tag_same: "msg_tag m = t \<Longrightarrow> put_tag 0 t m = m"
  by (auto simp: put_tag_def msg_tag_def set_get_tag)

lemma put_nth_other [simp]:
  "i \<noteq> j \<Longrightarrow> put_tag i t m ! j = m ! j"
  "i \<noteq> j \<Longrightarrow> put_client_id i c m ! j = m ! j"
  "i \<noteq> j \<Longrightarrow> put_request_id i r m ! j = m ! j"
  by (simp_all add: put_tag_def put_client_id_def put_request_id_def)

lemma msg_hdr_update [hdr]:
  "0 < i \<Longrightarrow> msg_tag (m[i := v]) = msg_tag m"
  "0 < i \<Longrightarrow> msg_cid (m[i := v]) = msg_cid m"
  "0 < i \<Longrightarrow> msg_rid (m[i := v]) = msg_rid m"
  by (simp_all add: msg_tag_def msg_cid_def msg_rid_def)

end
