(* ===== verification/Com_Layer.thy ===== *)
theory Com_Layer
  imports Message Shm_Queue
begin

text \<open>
  The communication layer of \<^verbatim>\<open>com_layer.c\<close>: it starts the replicas of the node level and
  of the core level, hands them their arguments, and forwards the requests a node-level
  replica has agreed on to the core level below it. \<open>com_core\<close>, \<open>com_node\<close>, \<open>thr_args\<close> and
  \<open>thr_args2\<close> are thread-local there, so they are fields of one thread's state here. An
  array the code never allocates is the empty list, on which every read is a fault.
\<close>

record cons_args =
  a_id :: u8
  a_current_core :: u8
  a_num_clients :: u8
  a_num_replicas :: u8
  a_num_requests :: u8
  a_level :: u8
  a_alg_below :: u8
  a_algo :: u8
  a_node_size :: u8
  a_started_from :: u8
  a_cores :: "u8 list"
  a_shared_mem :: bool
  a_clients :: "u8 list"
  a_replicas :: "u8 list"
  a_exec_func :: "exec_fn option"

record com_layer =
  cl_algorithm :: u8
  cl_replica_id :: u8
  cl_num_clients :: u8
  cl_cores :: "u8 list"
  cl_core_to_send_to :: u8
  cl_client_cores :: "u8 list"
  cl_node_cores :: "u8 list"
  cl_num_cores :: u8
  cl_cmd_size :: u16
  cl_alg_below :: u8
  cl_node_size :: u8
  cl_current_core :: u8
  cl_init_done :: bool
  cl_req_count :: u64
  cl_exec_func :: "exec_fn option"
  cl_shared_mem :: bool

text \<open>The function a started node runs, and the argument pointer it is given.\<close>

datatype node_fn =
    Null_fn | Init_replica | Init_kvs_replica | Init_benchmark_client | Init_benchmark_kvs_client

datatype args_ptr = Thr_args nat | Thr_args2 nat

datatype start = Start_node u8 node_fn args_ptr

record com_thread =
  ct_core :: com_layer
  ct_node :: com_layer
  ct_args :: "cons_args list"
  ct_args2 :: "cons_args list"
  ct_replica_fn :: node_fn
  ct_client_fn :: node_fn
  ct_shm :: shm_queue
  ct_shm_mem :: shm_mem

fun deref_args :: "com_thread \<Rightarrow> args_ptr \<Rightarrow> cons_args res" where
  "deref_args t (Thr_args i) = rd (ct_args t) i"
| "deref_args t (Thr_args2 i) = rd (ct_args2 t) i"

text \<open>The zero-initialised thread-local storage of a fresh thread.\<close>

definition zero_args :: cons_args where
  "zero_args = \<lparr>a_id = 0, a_current_core = 0, a_num_clients = 0, a_num_replicas = 0,
     a_num_requests = 0, a_level = 0, a_alg_below = 0, a_algo = 0, a_node_size = 0,
     a_started_from = 0, a_cores = [], a_shared_mem = False, a_clients = [], a_replicas = [],
     a_exec_func = None\<rparr>"

definition zero_layer :: com_layer where
  "zero_layer = \<lparr>cl_algorithm = 0, cl_replica_id = 0, cl_num_clients = 0, cl_cores = [],
     cl_core_to_send_to = 0, cl_client_cores = [], cl_node_cores = [], cl_num_cores = 0,
     cl_cmd_size = 0, cl_alg_below = 0, cl_node_size = 0, cl_current_core = 0,
     cl_init_done = False, cl_req_count = 0, cl_exec_func = None, cl_shared_mem = False\<rparr>"

definition zero_shm :: shm_queue where
  "zero_shm = \<lparr>sq_replica_id = 0, sq_shm_id = 0, sq_num_readers = 0, sq_slot_size = 0,
     sq_num_slots = 0, sq_node_level = False, sq_execute = Default_exec_fn\<rparr>"

definition fresh_thread :: "node_fn \<Rightarrow> node_fn \<Rightarrow> com_thread" where
  "fresh_thread rf cf = \<lparr>ct_core = zero_layer, ct_node = zero_layer,
     ct_args = replicate 64 zero_args, ct_args2 = replicate 64 zero_args,
     ct_replica_fn = rf, ct_client_fn = cf, ct_shm = zero_shm, ct_shm_mem = []\<rparr>"

subsection \<open>Starting the core level\<close>

text \<open>
  The arguments \<^verbatim>\<open>init_protocol_core\<close> fills in for replica \<open>i\<close>; fields it does not assign
  keep their value.
\<close>

definition core_args :: "com_layer \<Rightarrow> u8 \<Rightarrow> nat \<Rightarrow> u8 \<Rightarrow> cons_args \<Rightarrow> cons_args" where
  "core_args c algorithm i core a = a\<lparr>a_num_clients := 1, a_num_replicas := cl_num_cores c,
     a_algo := algorithm, a_level := CORE_LEVEL, a_alg_below := ALG_NONE,
     a_num_requests := 0, a_started_from := cl_current_core c,
     a_exec_func := cl_exec_func c, a_id := of_nat i, a_current_core := core,
     a_shared_mem := cl_shared_mem c, a_replicas := cl_cores c,
     a_clients := [cl_current_core c]\<rparr>"

definition start_core_replica ::
    "u8 \<Rightarrow> nat \<Rightarrow> com_thread \<times> start list \<Rightarrow> (com_thread \<times> start list) res" where
  "start_core_replica algorithm i = (\<lambda>(t, ss).
     bindr (rd (cl_cores (ct_core t)) i) (\<lambda>core.
     bindr (rd (ct_args2 t) i) (\<lambda>a.
     bindr (wr (ct_args2 t) i (core_args (ct_core t) algorithm i core a)) (\<lambda>args2.
       Inr (t\<lparr>ct_args2 := args2\<rparr>,
            ss @ [Start_node core (ct_replica_fn t) (Thr_args i)])))))"

definition init_protocol_core ::
    "u8 \<Rightarrow> com_thread \<Rightarrow> (com_thread \<times> start list) res" where
  "init_protocol_core algorithm t =
     (let t = t\<lparr>ct_core := (ct_core t)\<lparr>cl_num_cores := cl_num_cores (ct_core t) - 1\<rparr>\<rparr> in
      bindr (foldr_res (start_core_replica algorithm) [1..<unat (cl_num_cores (ct_core t))] (t, []))
        (\<lambda>ts.
      bindr (start_core_replica algorithm 0 ts) (\<lambda>(t, ss).
        Inr (t\<lparr>ct_core := (ct_core t)\<lparr>cl_init_done := True\<rparr>\<rparr>, ss))))"

text \<open>
  \<^verbatim>\<open>com_layer_core_init\<close>: the shared buffer is allocated with \<^verbatim>\<open>calloc\<close>, so it is zero; for
  the shared memory algorithm this thread becomes its writer.
\<close>

definition com_layer_core_init ::
    "u8 \<Rightarrow> u8 \<Rightarrow> u8 \<Rightarrow> u8 list \<Rightarrow> u8 \<Rightarrow> u16 \<Rightarrow> exec_fn option \<Rightarrow> com_thread \<Rightarrow>
     (com_thread \<times> start list) res" where
  "com_layer_core_init algorithm replica_id current_core cores num_cores cmd_size exec_fn t =
     bindr (rd cores 0) (\<lambda>c0.
     (let t = t\<lparr>ct_core := (ct_core t)\<lparr>cl_algorithm := algorithm, cl_replica_id := replica_id,
            cl_cores := cores, cl_num_cores := num_cores, cl_cmd_size := cmd_size,
            cl_req_count := 0, cl_exec_func := exec_fn, cl_shared_mem := True,
            cl_current_core := current_core, cl_core_to_send_to := c0\<rparr>,
          ct_shm_mem := replicate 512 0\<rparr> in
      if algorithm = ALG_SHM then
        bindr (init_shm_writer replica_id (num_cores - 1) (ucast cmd_size) exec_fn (ct_shm t)
                (ct_shm_mem t)) (\<lambda>(q, m).
        init_protocol_core ALG_SHM (t\<lparr>ct_shm := q, ct_shm_mem := m\<rparr>))
      else if algorithm < 7 then init_protocol_core algorithm t
      else Inr (t, [])))"

subsection \<open>Starting the node level\<close>

definition node_args :: "com_layer \<Rightarrow> u8 \<Rightarrow> nat \<Rightarrow> u8 list \<Rightarrow> u8 \<Rightarrow> cons_args \<Rightarrow> cons_args" where
  "node_args c algorithm i cores core a = a\<lparr>a_num_clients := cl_num_clients c,
     a_num_replicas := cl_num_cores c, a_algo := algorithm, a_level := NODE_LEVEL,
     a_alg_below := cl_alg_below c, a_num_requests := 0, a_node_size := cl_node_size c,
     a_started_from := 0, a_cores := cores, a_exec_func := cl_exec_func c,
     a_id := of_nat i, a_current_core := core, a_replicas := cl_cores c,
     a_clients := cl_client_cores c\<rparr>"

text \<open>
  The core list of node \<open>i\<close>: \<^verbatim>\<open>core_tmp[i]\<close> is allocated with one byte per node-level
  replica and filled with \<^verbatim>\<open>node_size\<close> bytes.
\<close>

definition core_tmp :: "com_layer \<Rightarrow> nat \<Rightarrow> u8 list res" where
  "core_tmp c i =
     foldr_res (\<lambda>j tmp. bindr (rd (cl_node_cores c) (i * unat (cl_node_size c) + j)) (\<lambda>x. wr tmp j x))
       [0..<unat (cl_node_size c)] (replicate (unat (cl_num_cores c)) 0)"

definition node_cores_of :: "com_layer \<Rightarrow> nat \<Rightarrow> u8 list res" where
  "node_cores_of c i = (if i = 0 then Inr (cl_node_cores c) else core_tmp c i)"

definition start_node_replica ::
    "u8 \<Rightarrow> nat \<Rightarrow> com_thread \<times> start list \<Rightarrow> (com_thread \<times> start list) res" where
  "start_node_replica algorithm i = (\<lambda>(t, ss).
     bindr (node_cores_of (ct_node t) i) (\<lambda>cores.
     bindr (rd (cl_cores (ct_node t)) i) (\<lambda>core.
     bindr (rd (ct_args t) i) (\<lambda>a.
     bindr (wr (ct_args t) i (node_args (ct_node t) algorithm i cores core a)) (\<lambda>args.
       Inr (t\<lparr>ct_args := args\<rparr>,
            ss @ [Start_node core (ct_replica_fn t) (Thr_args i)]))))))"

definition init_protocol_node :: "u8 \<Rightarrow> com_thread \<Rightarrow> (com_thread \<times> start list) res" where
  "init_protocol_node algorithm t =
     bindr (start_node_replica algorithm 0 (t, [])) (\<lambda>ts.
     bindr (foldr_res (start_node_replica algorithm)
              [1..<unat (cl_num_cores (ct_node (fst ts)))] ts) (\<lambda>(t, ss).
       Inr (t\<lparr>ct_node := (ct_node t)\<lparr>cl_init_done := True\<rparr>\<rparr>, ss)))"

text \<open>
  \<^verbatim>\<open>consensus_init\<close>. The Smelt runtime set-up (\<^verbatim>\<open>smlt_init\<close>, the generated topology model,
  the context) is external; \<open>smelt_ok\<close> says whether all three calls succeed. \<open>kvs\<close> is the
  build flag \<^verbatim>\<open>KVS\<close>.
\<close>

definition consensus_init ::
    "bool \<Rightarrow> bool \<Rightarrow> u8 \<Rightarrow> u8 list \<Rightarrow> u8 \<Rightarrow> u8 \<Rightarrow> u8 \<Rightarrow> u8 \<Rightarrow> u8 list \<Rightarrow> u8 list \<Rightarrow>
     exec_fn option \<Rightarrow> com_thread \<Rightarrow> (com_thread \<times> start list) res" where
  "consensus_init kvs smelt_ok algorithm cores num_cores num_clients alg_below node_size
       node_cores client_cores exec_fn t =
     (if algorithm = ALG_SHM \<and> alg_below \<noteq> ALG_NONE then Inr (t, [])
      else
        let t = t\<lparr>ct_replica_fn := (if kvs then Init_kvs_replica else Init_replica),
              ct_client_fn := (if kvs then Init_benchmark_kvs_client else Init_benchmark_client),
              ct_node := (ct_node t)\<lparr>cl_algorithm := algorithm, cl_cores := cores,
                cl_node_cores := node_cores, cl_num_cores := num_cores,
                cl_alg_below := alg_below, cl_node_size := node_size,
                cl_num_clients := num_clients, cl_exec_func := exec_fn,
                cl_client_cores := client_cores\<rparr>\<rparr> in
        if \<not> smelt_ok then Inr (t, [])
        else if algorithm < 7 then init_protocol_node algorithm t
        else Inr (t, []))"

subsection \<open>Forwarding a request to the core level\<close>

text \<open>
  \<^verbatim>\<open>com_layer_core_send_request\<close> works on the message in place. The client id is kept in a
  \<^verbatim>\<open>uint8_t\<close> while the header is rewritten for the core level; the reply is received into
  the layer's own buffer and dropped.
\<close>

definition com_layer_core_send_request ::
    "com_layer \<Rightarrow> msg \<Rightarrow> (com_layer \<times> msg \<times> action list) res" where
  "com_layer_core_send_request c m =
     (if \<not> cl_init_done c then
        Inr (c, m, [Print ''Com Layer: Can not send request to core layer, not initialized yet''])
      else if cl_algorithm c = ALG_SHM then
        Inr (c\<lparr>cl_req_count := cl_req_count c + 1\<rparr>, m, [ShmWrite (payload m)])
      else
        let cid = (ucast (msg_cid m) :: u8);
            m = put_request_id 0 (ucast (cl_req_count c)) (put_client_id 0 0 (put_tag 0 REQ_TAG m)) in
        bindr (rd (cl_cores c) 0) (\<lambda>core.
          Inr (c\<lparr>cl_req_count := cl_req_count c + 1\<rparr>, put_client_id 0 (ucast cid) m,
               [NodeSend (unat core) m, NodeRecv (unat core)])))"

subsection \<open>Starting the benchmark clients\<close>

record bench_args =
  ba_core :: u8
  ba_num_cores :: u8
  ba_num_replicas :: u8
  ba_num_clients :: u8
  ba_dummy :: bool
  ba_sleep_time :: u32
  ba_protocol :: u8
  ba_protocol_below :: u8
  ba_topo :: u8
  ba_leader :: u8
  ba_recv_from :: u8

text \<open>
  Where client \<open>i\<close> sends to and receives from: \<open>smlt\<close> and \<open>kvs\<close> are the build flags, and
  \<open>numa_node\<close> stands for \<^verbatim>\<open>numa_node_of_cpu\<close>.
\<close>

definition bench_peers ::
    "bool \<Rightarrow> bool \<Rightarrow> (u8 \<Rightarrow> nat) \<Rightarrow> u8 \<Rightarrow> u8 \<Rightarrow> u8 list \<Rightarrow> u8 \<Rightarrow> (u8 \<times> u8) res" where
  "bench_peers smlt kvs numa_node protocol num_replicas replica_cores core =
     (if protocol \<noteq> ALG_1PAXOS then
        bindr (rd replica_cores 0) (\<lambda>leader.
          if protocol \<noteq> ALG_CHAIN then Inr (leader, leader)
          else if num_replicas = 0 then Inl OutOfBounds
          else bindr (rd replica_cores (unat num_replicas - 1)) (\<lambda>tail. Inr (leader, tail)))
      else
        bindr (rd replica_cores (if smlt then 1 else 0)) (\<lambda>leader.
          if kvs then
            let numa = numa_node core;
                numa = (if numa = 1 \<or> numa = 0 then numa + 2 else numa) in
            bindr (rd replica_cores numa) (\<lambda>r. Inr (leader, r))
          else Inr (leader, leader)))"

definition bench_client_args ::
    "bool \<Rightarrow> bool \<Rightarrow> (u8 \<Rightarrow> nat) \<Rightarrow> u8 \<Rightarrow> u8 list \<Rightarrow> u8 \<Rightarrow> u8 \<Rightarrow> u64 \<Rightarrow> u8 \<Rightarrow> u8 \<Rightarrow> u8 \<Rightarrow>
     u8 list \<Rightarrow> nat \<Rightarrow> bench_args res" where
  "bench_client_args smlt kvs numa_node num_cores cores num_clients num_replicas sleep_time
       protocol protocol_below topo replica_cores i =
     (if 64 \<le> i then Inl OutOfBounds else
      bindr (rd cores i) (\<lambda>core.
      bindr (bench_peers smlt kvs numa_node protocol num_replicas replica_cores core)
        (\<lambda>(leader, recv_from).
        Inr \<lparr>ba_core = core, ba_num_cores = num_cores, ba_num_replicas = num_replicas,
             ba_num_clients = num_clients, ba_dummy = False, ba_sleep_time = ucast sleep_time,
             ba_protocol = protocol, ba_protocol_below = protocol_below, ba_topo = topo,
             ba_leader = leader, ba_recv_from = recv_from\<rparr>)))"

definition consensus_bench_clients_init ::
    "bool \<Rightarrow> bool \<Rightarrow> (u8 \<Rightarrow> nat) \<Rightarrow> u8 \<Rightarrow> u8 list \<Rightarrow> u8 \<Rightarrow> u8 \<Rightarrow> u64 \<Rightarrow> u8 \<Rightarrow> u8 \<Rightarrow> u8 \<Rightarrow>
     u8 list \<Rightarrow> bench_args list res" where
  "consensus_bench_clients_init smlt kvs numa_node num_cores cores num_clients num_replicas
       sleep_time protocol protocol_below topo replica_cores =
     mapr (bench_client_args smlt kvs numa_node num_cores cores num_clients num_replicas
             sleep_time protocol protocol_below topo replica_cores) [0..<unat num_clients]"

subsection \<open>What the initialisation leaves behind\<close>

definition starts_of :: "node_fn \<Rightarrow> u8 list \<Rightarrow> nat list \<Rightarrow> start list" where
  "starts_of fn cores is = map (\<lambda>i. Start_node (cores ! i) fn (Thr_args i)) is"

lemma start_core_replica_eq:
  "start_core_replica alg i (t, ss) = Inr (t', ss') \<longleftrightarrow>
     i < length (cl_cores (ct_core t)) \<and> i < length (ct_args2 t) \<and>
     t' = t\<lparr>ct_args2 := (ct_args2 t)[i := core_args (ct_core t) alg i
             (cl_cores (ct_core t) ! i) (ct_args2 t ! i)]\<rparr> \<and>
     ss' = ss @ [Start_node (cl_cores (ct_core t) ! i) (ct_replica_fn t) (Thr_args i)]"
  by (auto simp: start_core_replica_def res_simps)

lemma start_core_replicas:
  assumes "foldr_res (start_core_replica alg) is (t, ss) = Inr (t', ss')" and "distinct is"
  shows "ct_core t' = ct_core t \<and> ct_args t' = ct_args t \<and> ct_replica_fn t' = ct_replica_fn t \<and>
    length (ct_args2 t') = length (ct_args2 t) \<and>
    ss' = ss @ starts_of (ct_replica_fn t) (cl_cores (ct_core t)) is \<and>
    (\<forall>i. i \<notin> set is \<longrightarrow> ct_args2 t' ! i = ct_args2 t ! i) \<and>
    (\<forall>i \<in> set is. i < length (cl_cores (ct_core t)) \<and> i < length (ct_args2 t) \<and>
       ct_args2 t' ! i = core_args (ct_core t) alg i (cl_cores (ct_core t) ! i) (ct_args2 t ! i))"
  using assms
proof (induction "is" arbitrary: t ss)
  case Nil
  then show ?case by (simp add: starts_of_def)
next
  case (Cons x xs)
  obtain t1 ss1 where st: "start_core_replica alg x (t, ss) = Inr (t1, ss1)"
    and rest: "foldr_res (start_core_replica alg) xs (t1, ss1) = Inr (t', ss')"
    using Cons.prems(1) by (auto simp: bindr_eq_Inr)
  note st' = st [unfolded start_core_replica_eq]
  from Cons.prems(2) have d: "distinct xs" "x \<notin> set xs" by simp_all
  note ih = Cons.IH [OF rest d(1)]
  have t1: "t1 = t\<lparr>ct_args2 := (ct_args2 t)[x := core_args (ct_core t) alg x
             (cl_cores (ct_core t) ! x) (ct_args2 t ! x)]\<rparr>"
    and xl: "x < length (cl_cores (ct_core t))" "x < length (ct_args2 t)"
    using st' by simp_all
  have xs: "\<forall>i \<in> set xs. ct_args2 t1 ! i = ct_args2 t ! i"
    using d(2) by (simp add: t1) (metis nth_list_update_neq)
  have each: "i < length (cl_cores (ct_core t)) \<and> i < length (ct_args2 t) \<and>
       ct_args2 t' ! i = core_args (ct_core t) alg i (cl_cores (ct_core t) ! i) (ct_args2 t ! i)"
    if "i \<in> set (x # xs)" for i
  proof (cases "i = x")
    case True
    with ih d(2) xl show ?thesis by (simp add: t1)
  next
    case False
    with that have "i \<in> set xs" by simp
    with ih xs show ?thesis by (simp add: t1)
  qed
  have "\<forall>i. i \<notin> set (x # xs) \<longrightarrow> ct_args2 t' ! i = ct_args2 t ! i"
    using ih by (auto simp: t1)
  moreover have "ct_core t' = ct_core t \<and> ct_args t' = ct_args t \<and>
    ct_replica_fn t' = ct_replica_fn t \<and> length (ct_args2 t') = length (ct_args2 t) \<and>
    ss' = ss @ starts_of (ct_replica_fn t) (cl_cores (ct_core t)) (x # xs)"
    using ih st' by (simp add: starts_of_def)
  ultimately show ?case using each by blast
qed

lemma start_node_replica_eq:
  "start_node_replica alg i (t, ss) = Inr (t', ss') \<longleftrightarrow>
     (\<exists>cs. node_cores_of (ct_node t) i = Inr cs \<and>
       i < length (cl_cores (ct_node t)) \<and> i < length (ct_args t) \<and>
       t' = t\<lparr>ct_args := (ct_args t)[i := node_args (ct_node t) alg i cs
             (cl_cores (ct_node t) ! i) (ct_args t ! i)]\<rparr> \<and>
       ss' = ss @ [Start_node (cl_cores (ct_node t) ! i) (ct_replica_fn t) (Thr_args i)])"
  by (auto simp: start_node_replica_def res_simps)

lemma start_node_replicas:
  assumes "foldr_res (start_node_replica alg) is (t, ss) = Inr (t', ss')" and "distinct is"
  shows "ct_node t' = ct_node t \<and> ct_replica_fn t' = ct_replica_fn t \<and>
    length (ct_args t') = length (ct_args t) \<and>
    ss' = ss @ starts_of (ct_replica_fn t) (cl_cores (ct_node t)) is \<and>
    (\<forall>i. i \<notin> set is \<longrightarrow> ct_args t' ! i = ct_args t ! i) \<and>
    (\<forall>i \<in> set is. i < length (cl_cores (ct_node t)) \<and> i < length (ct_args t) \<and>
       (\<exists>cs. node_cores_of (ct_node t) i = Inr cs \<and>
         ct_args t' ! i = node_args (ct_node t) alg i cs (cl_cores (ct_node t) ! i) (ct_args t ! i)))"
  using assms
proof (induction "is" arbitrary: t ss)
  case Nil
  then show ?case by (simp add: starts_of_def)
next
  case (Cons x xs)
  obtain t1 ss1 where st: "start_node_replica alg x (t, ss) = Inr (t1, ss1)"
    and rest: "foldr_res (start_node_replica alg) xs (t1, ss1) = Inr (t', ss')"
    using Cons.prems(1) by (auto simp: bindr_eq_Inr)
  obtain cs where cs: "node_cores_of (ct_node t) x = Inr cs"
    and len: "x < length (cl_cores (ct_node t))" "x < length (ct_args t)"
    and t1: "t1 = t\<lparr>ct_args := (ct_args t)[x := node_args (ct_node t) alg x cs
             (cl_cores (ct_node t) ! x) (ct_args t ! x)]\<rparr>"
    and ss1: "ss1 = ss @ [Start_node (cl_cores (ct_node t) ! x) (ct_replica_fn t) (Thr_args x)]"
    using st unfolding start_node_replica_eq by blast
  from Cons.prems(2) have d: "distinct xs" "x \<notin> set xs" by simp_all
  have ih: "ct_node t' = ct_node t1 \<and> ct_replica_fn t' = ct_replica_fn t1 \<and>
    length (ct_args t') = length (ct_args t1) \<and>
    ss' = ss1 @ starts_of (ct_replica_fn t1) (cl_cores (ct_node t1)) xs \<and>
    (\<forall>i. i \<notin> set xs \<longrightarrow> ct_args t' ! i = ct_args t1 ! i) \<and>
    (\<forall>i \<in> set xs. i < length (cl_cores (ct_node t1)) \<and> i < length (ct_args t1) \<and>
       (\<exists>cs. node_cores_of (ct_node t1) i = Inr cs \<and>
         ct_args t' ! i = node_args (ct_node t1) alg i cs (cl_cores (ct_node t1) ! i) (ct_args t1 ! i)))"
    by (rule Cons.IH [OF rest d(1)])
  have x: "ct_args t' ! x = node_args (ct_node t) alg x cs (cl_cores (ct_node t) ! x) (ct_args t ! x)"
    using ih d(2) t1 len by simp
  have xs: "\<forall>i \<in> set xs. ct_args t1 ! i = ct_args t ! i"
    using d(2) by (simp add: t1) (metis nth_list_update_neq)
  have each: "i < length (cl_cores (ct_node t)) \<and> i < length (ct_args t) \<and>
       (\<exists>cs. node_cores_of (ct_node t) i = Inr cs \<and>
         ct_args t' ! i = node_args (ct_node t) alg i cs (cl_cores (ct_node t) ! i) (ct_args t ! i))"
    if "i \<in> set (x # xs)" for i
  proof (cases "i = x")
    case True
    with x cs len show ?thesis by blast
  next
    case False
    with that have "i \<in> set xs" by simp
    with ih xs show ?thesis by (simp add: t1)
  qed
  have rest: "ct_node t' = ct_node t \<and> ct_replica_fn t' = ct_replica_fn t \<and>
    length (ct_args t') = length (ct_args t) \<and>
    ss' = ss @ starts_of (ct_replica_fn t) (cl_cores (ct_node t)) (x # xs)"
    using ih by (simp add: t1 ss1 starts_of_def)
  have "\<forall>i. i \<notin> set (x # xs) \<longrightarrow> ct_args t' ! i = ct_args t ! i"
    using ih by (auto simp: t1)
  with rest each show ?case by blast
qed

text \<open>The slice of the node core list that \<open>core_tmp\<close> copies.\<close>

lemma copy_prefix:
  "foldr_res (\<lambda>j tmp. bindr (rd xs (b + j)) (\<lambda>x. wr tmp j x)) [0..<n] tmp =
    (if n = 0 \<or> (b + n \<le> length xs \<and> n \<le> length tmp) then Inr (take n (drop b xs) @ drop n tmp)
     else Inl OutOfBounds)"
  (is "foldr_res ?f _ _ = _")
proof (induction n)
  case 0
  then show ?case by simp
next
  case (Suc n)
  note snoc = foldr_res_snoc [of ?f "[0..<n]" n tmp]
  show ?case
  proof (cases "n = 0 \<or> (b + n \<le> length xs \<and> n \<le> length tmp)")
    case True
    then have fold: "foldr_res ?f [0..<n] tmp = Inr (take n (drop b xs) @ drop n tmp)"
      using Suc.IH by simp
    show ?thesis
    proof (cases "b + n < length xs \<and> n < length tmp")
      case True
      define A where "A = take n (drop b xs)"
      have "n \<le> length xs - b" using True by auto
      then have lA: "length A = n" by (simp add: A_def)
      have dr: "drop n tmp = tmp ! n # drop (Suc n) tmp"
        using True by (simp add: Cons_nth_drop_Suc)
      have "(A @ drop n tmp)[n := xs ! (b + n)] = A @ xs ! (b + n) # drop (Suc n) tmp"
        unfolding dr using list_update_length [of A] lA by simp
      moreover have "take (Suc n) (drop b xs) = A @ [xs ! (b + n)]"
        using take_Suc_conv_app_nth [of n "drop b xs"] True by (auto simp: A_def)
      ultimately have "(take n (drop b xs) @ drop n tmp)[n := xs ! (b + n)] =
          take (Suc n) (drop b xs) @ drop (Suc n) tmp"
        by (simp add: A_def)
      moreover have "n < length (take n (drop b xs) @ drop n tmp)" using True by auto
      ultimately show ?thesis using True fold snoc by simp
    next
      case False
      then have "b + n < length xs \<Longrightarrow> \<not> n < length (take n (drop b xs) @ drop n tmp)"
        by simp
      with False fold snoc show ?thesis
        by (cases "b + n < length xs") auto
    qed
  next
    case False
    then have "foldr_res ?f [0..<n] tmp = Inl OutOfBounds" using Suc.IH by simp
    with False snoc show ?thesis by auto
  qed
qed

lemma core_tmp_eq:
  "core_tmp c i =
    (let k = unat (cl_node_size c); n = unat (cl_num_cores c) in
     if k = 0 \<or> (i * k + k \<le> length (cl_node_cores c) \<and> k \<le> n)
     then Inr (take k (drop (i * k) (cl_node_cores c)) @ replicate (n - k) 0)
     else Inl OutOfBounds)"
  unfolding core_tmp_def copy_prefix by (simp add: Let_def)

subsection \<open>Properties\<close>

text \<open>
  A successful start of the node level runs one replica per node-level core, replica 0
  first, and each is handed its own entry of \<open>thr_args\<close>, which says its id, its core, the
  protocol, the level, all replicas and all clients.
\<close>

theorem node_level_started_with_its_args:
  assumes "init_protocol_node alg t = Inr (t', ss)" and "i < unat (cl_num_cores (ct_node t))"
    and "0 < unat (cl_num_cores (ct_node t))"
  shows "length ss = unat (cl_num_cores (ct_node t)) \<and>
    ss ! i = Start_node (cl_cores (ct_node t) ! i) (ct_replica_fn t) (Thr_args i) \<and>
    (\<exists>a. deref_args t' (Thr_args i) = Inr a \<and> a_id a = of_nat i \<and>
       a_current_core a = cl_cores (ct_node t) ! i \<and> a_algo a = alg \<and> a_level a = NODE_LEVEL \<and>
       a_replicas a = cl_cores (ct_node t) \<and> a_clients a = cl_client_cores (ct_node t) \<and>
       Inr (a_cores a) = node_cores_of (ct_node t) i)"
proof -
  let ?n = "unat (cl_num_cores (ct_node t))"
  obtain ts where s0: "start_node_replica alg 0 (t, []) = Inr ts"
    and rest0: "bindr (foldr_res (start_node_replica alg) [1..<unat (cl_num_cores (ct_node (fst ts)))] ts)
       (\<lambda>(t, ss). Inr (t\<lparr>ct_node := (ct_node t)\<lparr>cl_init_done := True\<rparr>\<rparr>, ss)) = Inr (t', ss)"
    using assms(1) by (auto simp: init_protocol_node_def bindr_eq_Inr)
  have keep: "ct_node (fst ts) = ct_node t"
    using s0 by (cases ts) (auto simp: start_node_replica_eq)
  obtain t2 where fold: "foldr_res (start_node_replica alg) [1..<?n] ts = Inr (t2, ss)"
    and t': "t' = t2\<lparr>ct_node := (ct_node t2)\<lparr>cl_init_done := True\<rparr>\<rparr>"
    using rest0 keep by (auto simp: bindr_eq_Inr)
  have split: "[0..<?n] = 0 # [1..<?n]" using assms(3) by (simp add: upt_conv_Cons)
  have all: "foldr_res (start_node_replica alg) [0..<?n] (t, []) = Inr (t2, ss)"
    unfolding split using s0 fold by simp
  note st = start_node_replicas [OF all distinct_upt]
  have ss: "ss = starts_of (ct_replica_fn t) (cl_cores (ct_node t)) [0..<?n]" using st by simp
  obtain cs where cs: "node_cores_of (ct_node t) i = Inr cs"
    and args: "ct_args t2 ! i = node_args (ct_node t) alg i cs (cl_cores (ct_node t) ! i) (ct_args t ! i)"
    and len: "i < length (ct_args t2)"
  proof -
    have "i \<in> set [0..<?n]" using assms(2) by simp
    with st that show ?thesis by metis
  qed
  have "deref_args t' (Thr_args i) = Inr (ct_args t2 ! i)"
    using len by (simp add: t')
  with cs args ss assms(2) show ?thesis
    by (simp add: starts_of_def node_args_def)
qed

text \<open>
  C40: the core level is configured in \<open>thr_args2\<close> but started with pointers into
  \<open>thr_args\<close>: on a replica thread, where \<open>thr_args\<close> still is zero, every core-level node is
  started with all-zero arguments (protocol 1Paxos, id 0, no replicas and no clients), not
  with the entry prepared for it.
\<close>

theorem core_level_started_with_wrong_args:
  assumes "init_protocol_core alg t = Inr (t', ss)" and "ct_args t = replicate 64 zero_args"
    and "s \<in> set ss" and "2 \<le> unat (cl_num_cores (ct_core t))"
  shows "\<exists>i core. s = Start_node core (ct_replica_fn t) (Thr_args i) \<and>
    i + 1 < unat (cl_num_cores (ct_core t)) \<and> core = cl_cores (ct_core t) ! i \<and>
    (i < 64 \<longrightarrow> deref_args t' (Thr_args i) = Inr zero_args) \<and>
    (\<exists>a. deref_args t' (Thr_args2 i) = Inr a \<and> a_id a = of_nat i \<and> a_algo a = alg \<and>
       a_current_core a = core \<and> a_num_clients a = 1 \<and> a_replicas a = cl_cores (ct_core t))"
proof -
  define t1 where "t1 = t\<lparr>ct_core := (ct_core t)\<lparr>cl_num_cores := cl_num_cores (ct_core t) - 1\<rparr>\<rparr>"
  define n where "n = unat (cl_num_cores (ct_core t1))"
  have n: "n + 1 = unat (cl_num_cores (ct_core t))"
    using assms(4) by (simp add: n_def t1_def unat_sub_if' )
  obtain ta ssa tb where f: "foldr_res (start_core_replica alg) [1..<n] (t1, []) = Inr (ta, ssa)"
    and g: "start_core_replica alg 0 (ta, ssa) = Inr (tb, ss)"
    and t': "t' = tb\<lparr>ct_core := (ct_core tb)\<lparr>cl_init_done := True\<rparr>\<rparr>"
    using assms(1) by (auto simp: init_protocol_core_def Let_def bindr_eq_Inr t1_def n_def)
  have all: "foldr_res (start_core_replica alg) ([1..<n] @ [0]) (t1, []) = Inr (tb, ss)"
    using f g by (simp add: foldr_res_snoc)
  note st = start_core_replicas [OF all]
  have d: "distinct ([1..<n] @ [0])" by simp
  have ss: "ss = starts_of (ct_replica_fn t1) (cl_cores (ct_core t1)) ([1..<n] @ [0])"
    and args: "ct_args tb = ct_args t1" and len: "length (ct_args2 tb) = length (ct_args2 t1)"
    and a2: "\<forall>i \<in> set ([1..<n] @ [0]). i < length (ct_args2 t1) \<and>
       ct_args2 tb ! i = core_args (ct_core t1) alg i (cl_cores (ct_core t1) ! i) (ct_args2 t1 ! i)"
    using st d by auto
  obtain i where i: "i \<in> set ([1..<n] @ [0])"
    and s: "s = Start_node (cl_cores (ct_core t1) ! i) (ct_replica_fn t1) (Thr_args i)"
    using assms(3) unfolding ss starts_of_def by auto
  have "i + 1 < unat (cl_num_cores (ct_core t))" using i n assms(4) by auto
  moreover have "i < 64 \<longrightarrow> deref_args t' (Thr_args i) = Inr zero_args"
    using args assms(2) by (simp add: t' t1_def)
  moreover have "deref_args t' (Thr_args2 i) = Inr (ct_args2 tb ! i)"
    using bspec [OF a2 i] len by (simp add: t')
  ultimately show ?thesis using s bspec [OF a2 i] by (simp add: t1_def core_args_def)
qed

text \<open>
  The copy of a node's core list stays in its allocation exactly when a node has no more
  cores than there are node-level replicas; then it is the node's slice of the core list.
\<close>

theorem core_tmp_in_bounds:
  assumes "0 < cl_node_size c"
    and "(i + 1) * unat (cl_node_size c) \<le> length (cl_node_cores c)"
  shows "if cl_node_size c \<le> cl_num_cores c
    then \<exists>cs. core_tmp c i = Inr cs \<and> length cs = unat (cl_num_cores c) \<and>
        (\<forall>j < unat (cl_node_size c). cs ! j = cl_node_cores c ! (i * unat (cl_node_size c) + j))
    else core_tmp c i = Inl OutOfBounds"
proof -
  let ?k = "unat (cl_node_size c)"
  let ?cs = "take ?k (drop (i * ?k) (cl_node_cores c)) @ replicate (unat (cl_num_cores c) - ?k) 0"
  have k: "?k \<noteq> 0" using assms(1) by (simp add: word_less_nat_alt)
  have len: "i * ?k + ?k \<le> length (cl_node_cores c)" using assms(2) by (simp add: algebra_simps)
  then have tk: "length (take ?k (drop (i * ?k) (cl_node_cores c))) = ?k" by simp
  show ?thesis
  proof (cases "cl_node_size c \<le> cl_num_cores c")
    case True
    then have "core_tmp c i = Inr ?cs"
      using k len by (simp add: core_tmp_eq Let_def word_le_nat_alt)
    moreover have "length ?cs = unat (cl_num_cores c)"
      using tk True by (simp add: word_le_nat_alt)
    moreover have "\<forall>j < ?k. ?cs ! j = cl_node_cores c ! (i * ?k + j)"
      using tk len by (simp add: nth_append)
    ultimately show ?thesis using True by simp
  next
    case False
    then show ?thesis using k by (simp add: core_tmp_eq Let_def word_le_nat_alt)
  qed
qed

text \<open>
  Forwarding a request to the core level keeps the command and, for client ids below
  256, the client id; over shared memory the message is untouched, over a message protocol
  it comes back with the tag of a request and the layer's own request number in place of the
  client's.
\<close>

theorem com_send_request_header:
  assumes "wf_msg m" and "cl_init_done c" and "cl_cores c \<noteq> []" and "unat (msg_cid m) < 256"
  shows "\<exists>m' as. com_layer_core_send_request c m =
      Inr (c\<lparr>cl_req_count := cl_req_count c + 1\<rparr>, m', as) \<and>
    payload m' = payload m \<and> msg_cid m' = msg_cid m \<and> wf_msg m' \<and>
    (if cl_algorithm c = ALG_SHM then m' = m \<and> as = [ShmWrite (payload m)]
     else msg_tag m' = REQ_TAG \<and> msg_rid m' = ucast (cl_req_count c))"
proof -
  have cid: "ucast (ucast (msg_cid m) :: u8) = msg_cid m"
    using assms(4) by (intro word_unat_eq_iff [THEN iffD2]) (simp add: unsigned_ucast_eq unsigned_take_bit_eq take_bit_nat_eq_self)
  show ?thesis
    using assms cid
    by (simp add: com_layer_core_send_request_def Let_def hdr)
qed

subsection \<open>Witnesses\<close>

text \<open>
  A machine with four node-level replicas on cores 0, 4, 8 and 12, four cores per node, and
  one client on core 16; and the thread of replica 0, which has prepared a core level of
  four cores.
\<close>

definition example_cores :: "u8 list" where
  "example_cores = [0, 1, 2, 3, 4, 5, 6, 7, 8, 9, 10, 11, 12, 13, 14, 15]"

definition example_layer :: com_layer where
  "example_layer = zero_layer\<lparr>cl_cores := [0, 4, 8, 12], cl_num_cores := 4,
     cl_node_cores := example_cores, cl_node_size := 4, cl_num_clients := 1,
     cl_client_cores := [16]\<rparr>"

definition example_thread :: com_thread where
  "example_thread = (fresh_thread Init_replica Init_benchmark_client)
     \<lparr>ct_node := example_layer, ct_core := zero_layer\<lparr>cl_cores := [1, 2, 3], cl_num_cores := 4\<rparr>\<rparr>"

lemma example_fields [simp]:
  "ct_node example_thread = example_layer"
  "cl_num_cores example_layer = 4" "cl_node_size example_layer = 4"
  "cl_cores example_layer = [0, 4, 8, 12]" "cl_node_cores example_layer = example_cores"
  "ct_args example_thread = replicate 64 zero_args"
  "cl_num_cores (ct_core example_thread) = 4" "cl_cores (ct_core example_thread) = [1, 2, 3]"
  "length example_cores = 16"
  by (simp_all add: example_thread_def example_layer_def fresh_thread_def zero_layer_def
      example_cores_def)

lemma example_node_started:
  "\<exists>t' ss. init_protocol_node ALG_BROAD example_thread = Inr (t', ss)"
proof -
  have "case init_protocol_node ALG_BROAD example_thread of Inl _ \<Rightarrow> False | Inr _ \<Rightarrow> True"
    by code_simp
  then show ?thesis by (auto split: sum.splits)
qed

lemma example_core_started:
  "\<exists>t' ss s. init_protocol_core ALG_CHAIN example_thread = Inr (t', ss) \<and> s \<in> set ss"
proof -
  have "case init_protocol_core ALG_CHAIN example_thread of Inl _ \<Rightarrow> False | Inr (_, ss) \<Rightarrow> ss \<noteq> []"
    by code_simp
  then show ?thesis by (auto split: sum.splits) (metis list.set_sel(1))
qed

theorem node_level_started_with_its_args_witness:
  "\<exists>t' ss. init_protocol_node ALG_BROAD example_thread = Inr (t', ss) \<and> length ss = 4 \<and>
     ss ! 2 = Start_node 8 (ct_replica_fn example_thread) (Thr_args 2)"
proof -
  obtain t' ss where e: "init_protocol_node ALG_BROAD example_thread = Inr (t', ss)"
    using example_node_started by blast
  have "length ss = 4 \<and> ss ! 2 = Start_node 8 (ct_replica_fn example_thread) (Thr_args 2)"
    using node_level_started_with_its_args [OF e, of 2] by simp
  with e show ?thesis by blast
qed

theorem core_level_started_with_wrong_args_witness:
  "\<exists>t' ss s i. init_protocol_core ALG_CHAIN example_thread = Inr (t', ss) \<and> s \<in> set ss \<and>
     i < 3 \<and> deref_args t' (Thr_args i) = Inr zero_args"
proof -
  obtain t' ss s where e: "init_protocol_core ALG_CHAIN example_thread = Inr (t', ss)"
    and s: "s \<in> set ss"
    using example_core_started by blast
  obtain i where "i + 1 < 4" "i < 64 \<longrightarrow> deref_args t' (Thr_args i) = Inr zero_args"
    using core_level_started_with_wrong_args [OF e _ s] by auto
  with e s show ?thesis by (intro exI conjI) auto
qed

theorem core_tmp_in_bounds_witness:
  "(\<exists>cs. core_tmp example_layer 1 = Inr cs \<and> length cs = 4) \<and>
   core_tmp (example_layer\<lparr>cl_num_cores := 2\<rparr>) 1 = Inl OutOfBounds"
  using core_tmp_in_bounds [of example_layer 1]
    core_tmp_in_bounds [of "example_layer\<lparr>cl_num_cores := 2\<rparr>" 1]
  by auto

theorem com_send_request_header_witness:
  "\<exists>m' as. com_layer_core_send_request (example_layer\<lparr>cl_init_done := True\<rparr>) [0, 0, 0, 0, 1, 2, 3] =
      Inr (example_layer\<lparr>cl_init_done := True, cl_req_count := 1\<rparr>, m', as) \<and> payload m' = [1, 2, 3]"
  using com_send_request_header [of "[0, 0, 0, 0, 1, 2, 3]" "example_layer\<lparr>cl_init_done := True\<rparr>"]
  by (simp add: wf_msg_def payload_def msg_cid_def get_client_id_def example_layer_def zero_layer_def)
    blast

end
