(* ===== verification/Stats.thy ===== *)
theory Stats
  imports Complex_Main Prelude
begin

text \<open>
  The incremental statistics of \<^verbatim>\<open>incremental_stats.c\<close>. The C \<^verbatim>\<open>double\<close> operations are a
  parameter, the record \<open>fops\<close>: the compiler and the processor fix them, and the theorems say
  which of their laws they need. \<open>real_ops\<close> is the exact arithmetic they approximate. A C \<^verbatim>\<open>int\<close> is
  a word of 32 bits read with \<open>sint\<close>; the counts overflow, which C leaves undefined, only when more than
  \<open>2 ^ 31 - 1\<close> items are added.
\<close>

type_synonym c_int = "32 word"

record 'd fops =
  f_add :: "'d \<Rightarrow> 'd \<Rightarrow> 'd"
  f_sub :: "'d \<Rightarrow> 'd \<Rightarrow> 'd"
  f_mul :: "'d \<Rightarrow> 'd \<Rightarrow> 'd"
  f_div :: "'d \<Rightarrow> 'd \<Rightarrow> 'd"
  f_sqrt :: "'d \<Rightarrow> 'd"
  f_lt :: "'d \<Rightarrow> 'd \<Rightarrow> bool"
  f_ge :: "'d \<Rightarrow> 'd \<Rightarrow> bool"
  f_eq :: "'d \<Rightarrow> 'd \<Rightarrow> bool"
  f_int :: "int \<Rightarrow> 'd"
  f_conf_coef :: 'd

definition real_ops :: "real fops" where
  "real_ops = \<lparr>f_add = (+), f_sub = (-), f_mul = (*), f_div = (/), f_sqrt = sqrt,
     f_lt = (<), f_ge = (\<lambda>x y. y \<le> x), f_eq = (=), f_int = of_int, f_conf_coef = - 1.96\<rparr>"

record 'd incr_stats =
  st_min :: 'd
  st_max :: 'd
  st_sum :: 'd
  st_sqrsum :: 'd
  st_n :: c_int
  st_countmin :: c_int
  st_countmax :: c_int
  st_just_reset :: c_int

definition init_stats :: "'d fops \<Rightarrow> 'd incr_stats \<Rightarrow> 'd incr_stats" where
  "init_stats F st = st\<lparr>st_countmin := 0, st_countmax := 0, st_sum := f_int F 0,
     st_sqrsum := f_int F 0, st_n := 0, st_just_reset := 1\<rparr>"

definition add_k :: "'d fops \<Rightarrow> 'd incr_stats \<Rightarrow> 'd \<Rightarrow> c_int \<Rightarrow> 'd incr_stats" where
  "add_k F st item k =
     (let st = (if st_just_reset st = 1 then st\<lparr>st_min := item, st_countmin := 0\<rparr>
                else if f_lt F item (st_min st) then st\<lparr>st_min := item, st_countmin := 0\<rparr>
                else st);
          st = (if f_eq F item (st_min st) then st\<lparr>st_countmin := st_countmin st + k\<rparr> else st);
          st = (if st_just_reset st = 1
                then st\<lparr>st_max := item, st_countmax := 0, st_just_reset := 0\<rparr>
                else if f_lt F (st_max st) item then st\<lparr>st_max := item, st_countmax := 0\<rparr>
                else st);
          st = (if f_eq F item (st_max st) then st\<lparr>st_countmax := st_countmax st + k\<rparr> else st);
          st = st\<lparr>st_n := st_n st + k\<rparr> in
      if k = 1
      then st\<lparr>st_sum := f_add F (st_sum st) item,
              st_sqrsum := f_add F (st_sqrsum st) (f_mul F item item)\<rparr>
      else st\<lparr>st_sum := f_add F (st_sum st) (f_mul F item (f_int F (sint k))),
              st_sqrsum := f_add F (st_sqrsum st) (f_mul F (f_mul F item item) (f_int F (sint k)))\<rparr>)"

definition stats_add :: "'d fops \<Rightarrow> 'd incr_stats \<Rightarrow> 'd \<Rightarrow> 'd incr_stats" where
  "stats_add F st item = add_k F st item 1"

definition get_n :: "'d incr_stats \<Rightarrow> c_int" where "get_n st = st_n st"
definition get_max :: "'d incr_stats \<Rightarrow> 'd" where "get_max st = st_max st"
definition get_min :: "'d incr_stats \<Rightarrow> 'd" where "get_min st = st_min st"
definition get_max_count :: "'d incr_stats \<Rightarrow> c_int" where "get_max_count st = st_countmax st"
definition get_min_count :: "'d incr_stats \<Rightarrow> c_int" where "get_min_count st = st_countmin st"
definition get_sum :: "'d incr_stats \<Rightarrow> 'd" where "get_sum st = st_sum st"
definition get_sqr_sum :: "'d incr_stats \<Rightarrow> 'd" where "get_sqr_sum st = st_sqrsum st"

definition get_avg :: "'d fops \<Rightarrow> 'd incr_stats \<Rightarrow> 'd" where
  "get_avg F st = f_div F (st_sum st) (f_int F (sint (st_n st)))"

definition get_var :: "'d fops \<Rightarrow> 'd incr_stats \<Rightarrow> 'd" where
  "get_var F st =
     (let var = f_mul F (f_div F (f_int F (sint (st_n st))) (f_int F (sint (st_n st - 1))))
            (f_sub F (f_div F (st_sqrsum st) (f_int F (sint (st_n st))))
               (f_mul F (get_avg F st) (get_avg F st))) in
      if f_ge F var (f_int F 0) then var else f_int F 0)"

definition get_std_dev :: "'d fops \<Rightarrow> 'd incr_stats \<Rightarrow> 'd" where
  "get_std_dev F st = f_sqrt F (get_var F st)"

definition get_conf_interval :: "'d fops \<Rightarrow> 'd incr_stats \<Rightarrow> 'd" where
  "get_conf_interval F st =
     f_mul F (f_conf_coef F) (f_div F (get_std_dev F st) (f_sqrt F (f_int F (sint (get_n st)))))"

lemmas stats_getters = get_n_def get_max_def get_min_def get_max_count_def get_min_count_def
  get_sum_def get_sqr_sum_def

text \<open>Adding the items of a list one after the other.\<close>

definition add_list :: "'d fops \<Rightarrow> 'd incr_stats \<Rightarrow> 'd list \<Rightarrow> 'd incr_stats" where
  "add_list F st xs = foldl (stats_add F) st xs"

subsection \<open>Minimum, maximum and their counts\<close>

text \<open>What the fields say of the items added so far, for a comparison that is a linear order.\<close>

definition stats_of :: "('d :: linorder) list \<Rightarrow> 'd incr_stats \<Rightarrow> bool" where
  "stats_of xs st \<longleftrightarrow> st_n st = of_nat (length xs) \<and>
     (if xs = [] then st_just_reset st = 1 \<and> st_countmin st = 0 \<and> st_countmax st = 0
      else st_just_reset st = 0 \<and>
        st_min st = Min (set xs) \<and> st_countmin st = of_nat (count_list xs (Min (set xs))) \<and>
        st_max st = Max (set xs) \<and> st_countmax st = of_nat (count_list xs (Max (set xs))))"

lemma count_list_snoc: "count_list (xs @ [x]) y = count_list xs y + (if x = y then 1 else 0)"
  by (induction xs) auto

lemma count_list_0: "y \<notin> set xs \<Longrightarrow> count_list xs y = 0"
  by (simp add: count_list_0_iff)

lemma min_if: "min x (y :: 'a :: linorder) = (if x < y then x else y)"
  by (auto simp: min_def)

lemma max_if: "max x (y :: 'a :: linorder) = (if y < x then x else y)"
  by (auto simp: max_def)

lemma init_stats_of: "stats_of [] (init_stats F st)"
  by (simp add: stats_of_def init_stats_def)

lemma stats_add_of:
  fixes F :: "('d :: linorder) fops"
  assumes F: "f_lt F = (<)" "f_eq F = (=)" and of: "stats_of xs st"
  shows "stats_of (xs @ [x]) (stats_add F st x)"
proof (cases "xs = []")
  case True
  with of F show ?thesis by (simp add: stats_of_def stats_add_def add_k_def Let_def)
next
  case False
  let ?m = "Min (set xs)" and ?M = "Max (set xs)"
  have mins: "Min (set (xs @ [x])) = (if x < ?m then x else ?m)"
    using False min_if [of x ?m] by (simp del: Min_gr_iff)
  have maxs: "Max (set (xs @ [x])) = (if ?M < x then x else ?M)"
    using False max_if [of x ?M] by (simp del: Max_less_iff)
  define m M where "m = ?m" and "M = ?M"
  have below: "x < m \<Longrightarrow> count_list xs x = 0" "M < x \<Longrightarrow> count_list xs x = 0"
    unfolding m_def M_def
    by (auto intro!: count_list_0 dest: Min_le [OF finite_set] Max_ge [OF finite_set]
        simp del: Min_gr_iff Max_less_iff)
  have st: "st_n st = of_nat (length xs)" "st_just_reset st = 0" "st_min st = m" "st_max st = M"
    "st_countmin st = of_nat (count_list xs m)" "st_countmax st = of_nat (count_list xs M)"
    using of False by (simp_all add: stats_of_def m_def M_def)
  show ?thesis
    unfolding stats_of_def mins maxs m_def [symmetric] M_def [symmetric]
    using below st by (auto simp: stats_add_def add_k_def Let_def count_list_snoc F)
qed

lemma add_list_of:
  fixes F :: "('d :: linorder) fops"
  assumes F: "f_lt F = (<)" "f_eq F = (=)"
  shows "stats_of xs (add_list F (init_stats F st) xs)"
  by (induction xs rule: rev_induct)
    (simp_all add: add_list_def init_stats_of stats_add_of [OF F])

lemma add_list_sums:
  "st_sum (add_list F st xs) = foldl (f_add F) (st_sum st) xs \<and>
   st_sqrsum (add_list F st xs) = foldl (f_add F) (st_sqrsum st) (map (\<lambda>x. f_mul F x x) xs)"
  by (induction xs arbitrary: st) (simp_all add: add_list_def stats_add_def add_k_def Let_def)

lemma foldl_plus_sum_list: "foldl (+) (a :: real) xs = a + sum_list xs"
  by (induction xs arbitrary: a) auto

subsection \<open>Properties\<close>

lemma sint_small: "n < 2 ^ 31 \<Longrightarrow> sint (of_nat n :: c_int) = int n"
  by (simp add: signed_of_nat signed_take_bit_int_eq_self)

lemma sint_pred: "0 < n \<Longrightarrow> n < 2 ^ 31 \<Longrightarrow> sint (of_nat n - 1 :: c_int) = int n - 1"
  using sint_small [of "n - 1"] by (cases n) simp_all

lemma count_le: "count_list xs y \<le> length xs"
  by (induction xs) auto

text \<open>
  C33: what the C code computes with its own rounding arithmetic, for any floating point operations
  whose comparisons are a linear order of the items (so no item is a NaN; the two zeros count as one value) and
  fewer than \<open>2 ^ 31\<close> items, so that no \<^verbatim>\<open>int\<close> overflows. After a reset, adding the items of a
  non-empty list leaves their number, the least and the greatest of them and how often each of the two
  occurs; the sums are the rounded sums of the items and of their squares in the order they were added;
  the average is the quotient of the first sum and the number; and the variance is the value of the formula
  \<open>n / (n - 1) * (sqrsum / n - avg * avg)\<close>, or zero when rounding has made it negative or it is not a
  number, as the header guarantees.
\<close>

theorem stats_of_items:
  fixes F :: "('d :: linorder) fops"
  assumes "f_lt F = (<)" and "f_eq F = (=)" and "xs \<noteq> []" and "length xs < 2 ^ 31"
  shows "let s = add_list F (init_stats F st) xs; n = f_int F (int (length xs));
      sum = foldl (f_add F) (f_int F 0) xs; sqrsum = foldl (f_add F) (f_int F 0) (map (\<lambda>x. f_mul F x x) xs);
      var = f_mul F (f_div F n (f_int F (int (length xs) - 1)))
        (f_sub F (f_div F sqrsum n) (f_mul F (f_div F sum n) (f_div F sum n))) in
    sint (get_n s) = int (length xs) \<and>
    get_min s = Min (set xs) \<and> sint (get_min_count s) = int (count_list xs (Min (set xs))) \<and>
    get_max s = Max (set xs) \<and> sint (get_max_count s) = int (count_list xs (Max (set xs))) \<and>
    get_sum s = sum \<and> get_sqr_sum s = sqrsum \<and> get_avg F s = f_div F sum n \<and>
    get_var F s = (if f_ge F var (f_int F 0) then var else f_int F 0)"
proof -
  let ?s = "add_list F (init_stats F st) xs"
  have of: "stats_of xs ?s" by (rule add_list_of [OF assms(1,2)])
  have small: "sint (of_nat (count_list xs y) :: c_int) = int (count_list xs y)" for y
    using count_le [of xs y] assms(4) by (intro sint_small) linarith
  have n: "st_n ?s = of_nat (length xs)" using of by (simp add: stats_of_def)
  have n1: "sint (of_nat (length xs) - 1 :: c_int) = int (length xs) - 1"
    using assms(3,4) by (intro sint_pred) simp_all
  have sums: "st_sum ?s = foldl (f_add F) (f_int F 0) xs"
    "st_sqrsum ?s = foldl (f_add F) (f_int F 0) (map (\<lambda>x. f_mul F x x) xs)"
    using add_list_sums [of F "init_stats F st" xs] by (simp_all add: init_stats_def)
  have avg: "get_avg F ?s = f_div F (foldl (f_add F) (f_int F 0) xs) (f_int F (int (length xs)))"
    by (simp add: get_avg_def sums n sint_small [OF assms(4)])
  show ?thesis
    using of assms(3) small
    by (simp add: Let_def stats_getters stats_of_def avg sums n1 get_var_def sint_small [OF assms(4)])
qed

lemma sample_variance:
  fixes xs :: "real list"
  assumes n: "2 \<le> length xs"
  defines "m \<equiv> sum_list xs / length xs"
  shows "length xs / (real (length xs) - 1) * (sum_list (map (\<lambda>x. x * x) xs) / length xs - m * m) =
    sum_list (map (\<lambda>x. (x - m)\<^sup>2) xs) / (real (length xs) - 1)"
proof -
  have expand: "sum_list (map (\<lambda>x. (x - c)\<^sup>2) ys) =
      sum_list (map (\<lambda>x. x * x) ys) - 2 * c * sum_list ys + length ys * (c * c)" for c :: real and ys
    by (induction ys) (auto simp: power2_eq_square algebra_simps)
  have s: "sum_list xs = length xs * m" using n by (simp add: m_def)
  have "sum_list (map (\<lambda>x. (x - m)\<^sup>2) xs) = sum_list (map (\<lambda>x. x * x) xs) - length xs * (m * m)"
    unfolding expand s by (simp add: algebra_simps)
  also have "\<dots> = length xs * (sum_list (map (\<lambda>x. x * x) xs) / length xs - m * m)"
    using n by (simp add: field_simps)
  finally show ?thesis using n by (simp add: field_simps)
qed

lemma real_ops_simps [simp]:
  "f_add real_ops = (+)" "f_sub real_ops = (-)" "f_mul real_ops = (*)" "f_div real_ops = (/)"
  "f_sqrt real_ops = sqrt" "f_lt real_ops = (<)" "f_ge real_ops = (\<lambda>x y. y \<le> x)"
  "f_eq real_ops = (=)" "f_int real_ops = of_int" "f_conf_coef real_ops = - 1.96"
  by (simp_all add: real_ops_def)

text \<open>
  C34: in exact real arithmetic instead of rounding \<^verbatim>\<open>double\<close> operations, and for at least two and fewer
  than \<open>2 ^ 31\<close> items, the formulas are the ones they should be: average and variance are the sample
  mean and the unbiased sample variance, so that the clamp at zero is there for rounding errors only;
  and the reported 95 per cent confidence interval is never positive, because its coefficient is
  the negative quantile \<open>-1.96\<close>.
\<close>

theorem stats_sample_variance:
  assumes "2 \<le> length xs" and "length xs < 2 ^ 31"
  shows "get_avg real_ops (add_list real_ops (init_stats real_ops st) xs) =
      sum_list xs / length xs \<and>
    get_var real_ops (add_list real_ops (init_stats real_ops st) xs) =
      sum_list (map (\<lambda>x. (x - sum_list xs / length xs)\<^sup>2) xs) / (real (length xs) - 1) \<and>
    get_conf_interval real_ops (add_list real_ops (init_stats real_ops st) xs) \<le> 0"
proof -
  let ?s = "add_list real_ops (init_stats real_ops st) xs"
  have n: "sint (st_n ?s) = int (length xs)"
    using add_list_of [of real_ops xs st] sint_small [OF assms(2)] by (simp add: stats_of_def)
  have "xs \<noteq> []" using assms(1) by auto
  then have n1: "sint (st_n ?s - 1) = int (length xs) - 1"
    using add_list_of [of real_ops xs st] sint_pred [OF _ assms(2)] \<open>xs \<noteq> []\<close> by (simp add: stats_of_def)
  have sums: "st_sum ?s = sum_list xs" "st_sqrsum ?s = sum_list (map (\<lambda>x. x * x) xs)"
    using add_list_sums [of real_ops "init_stats real_ops st" xs]
    by (simp_all add: init_stats_def foldl_plus_sum_list)
  have avg: "get_avg real_ops ?s = sum_list xs / length xs" by (simp add: get_avg_def n sums)
  have pos: "0 \<le> sum_list (map (\<lambda>x. (x - sum_list xs / length xs)\<^sup>2) xs) / (real (length xs) - 1)"
    using assms(1) by (intro divide_nonneg_nonneg sum_list_nonneg) auto
  have var: "get_var real_ops ?s =
      sum_list (map (\<lambda>x. (x - sum_list xs / length xs)\<^sup>2) xs) / (real (length xs) - 1)"
    unfolding get_var_def Let_def n n1 sums avg real_ops_simps of_int_diff of_int_of_nat_eq of_int_1
      of_int_0 sample_variance [OF assms(1)]
    using pos by simp
  have "0 \<le> get_std_dev real_ops ?s / sqrt (length xs)"
    using pos by (simp add: get_std_dev_def var)
  then have "get_conf_interval real_ops ?s \<le> 0"
    by (simp add: get_conf_interval_def get_n_def n mult_nonpos_nonneg)
  with avg var show ?thesis by blast
qed

definition zero_stats :: "real incr_stats" where
  "zero_stats = \<lparr>st_min = 0, st_max = 0, st_sum = 0, st_sqrsum = 0, st_n = 0, st_countmin = 0,
     st_countmax = 0, st_just_reset = 0\<rparr>"

theorem stats_of_items_witness:
  "sint (get_min_count (add_list real_ops (init_stats real_ops zero_stats) [3, 1, 2, 1])) = 2 \<and>
   get_sqr_sum (add_list real_ops (init_stats real_ops zero_stats) [3, 1, 2, 1]) = 15"
proof -
  have "Min (set [3, 1, 2, 1 :: real]) = 1" by (simp add: min_def)
  moreover have "sint (get_min_count (add_list real_ops (init_stats real_ops zero_stats) [3, 1, 2, 1])) =
      int (count_list [3, 1, 2, 1 :: real] (Min (set [3, 1, 2, 1]))) \<and>
    get_sqr_sum (add_list real_ops (init_stats real_ops zero_stats) [3, 1, 2, 1]) =
      foldl (+) 0 (map (\<lambda>x. x * x) [3, 1, 2, 1])"
    using stats_of_items [of real_ops "[3, 1, 2, 1]" zero_stats] by (simp add: Let_def)
  ultimately show ?thesis by simp
qed

theorem stats_sample_variance_witness:
  "get_avg real_ops (add_list real_ops (init_stats real_ops zero_stats) [1, 3]) = 2 \<and>
   get_var real_ops (add_list real_ops (init_stats real_ops zero_stats) [1, 3]) = 2"
proof -
  have "get_avg real_ops (add_list real_ops (init_stats real_ops zero_stats) [1, 3]) =
      sum_list [1, 3] / length [1, 3 :: real] \<and>
    get_var real_ops (add_list real_ops (init_stats real_ops zero_stats) [1, 3]) =
      sum_list (map (\<lambda>x. (x - sum_list [1, 3] / length [1, 3 :: real])\<^sup>2) [1, 3]) /
        (real (length [1, 3 :: real]) - 1)"
    using stats_sample_variance [of "[1, 3]" zero_stats] by simp
  then show ?thesis by (simp add: power2_eq_square)
qed

end
