(* ===== verification/Replica_Base.thy ===== *)
theory Replica_Base
  imports Com_Layer Stats
begin

text \<open>
  What the replica files share. Each has its own thread-local \<^verbatim>\<open>replica\<close> structure, whose
  common fields are the record \<open>replica\<close>, and handlers that work on one message in place:
  a handler is a sequence of statements on a context \<open>ctx\<close> holding the replica, the state of
  the communication layer of its thread, the throughput counters, the message, and the actions
  performed so far. Each file also has its own copy of the throughput measurement, whose
  result thread is modelled here once.
\<close>

record replica =
  r_id :: u8
  r_current_core :: u8
  r_num_clients :: u8
  r_num_replicas :: u8
  r_exec :: "exec_fn option"
  r_level :: u8
  r_alg_below :: u8
  r_node_size :: u8
  r_started_from :: u8
  r_cores :: "u8 list"
  r_clients :: "u8 list"
  r_replicas :: "u8 list"

record measure =
  m_timer_started :: bool
  m_num_reqs :: u64

record 'r ctx =
  cx_rep :: 'r
  cx_com :: com_layer
  cx_meas :: measure
  cx_msg :: msg
  cx_acts :: "action list"

text \<open>The zero-initialised thread-local structure, and a context before any message.\<close>

definition zero_replica :: replica where
  "zero_replica = \<lparr>r_id = 0, r_current_core = 0, r_num_clients = 0, r_num_replicas = 0,
     r_exec = None, r_level = 0, r_alg_below = 0, r_node_size = 0, r_started_from = 0,
     r_cores = [], r_clients = [], r_replicas = []\<rparr>"

definition start_ctx :: "'r \<Rightarrow> com_layer \<Rightarrow> 'r ctx" where
  "start_ctx r com = \<lparr>cx_rep = r, cx_com = com,
     cx_meas = \<lparr>m_timer_started = False, m_num_reqs = 0\<rparr>,
     cx_msg = replicate 7 0, cx_acts = []\<rparr>"

definition replica_thread :: com_thread where
  "replica_thread = fresh_thread Init_replica Init_benchmark_client"

subsection \<open>Statements\<close>

definition do_all :: "('c \<Rightarrow> 'c res) list \<Rightarrow> 'c \<Rightarrow> 'c res" where
  "do_all stmts c = foldr_res (\<lambda>f. f) stmts c"

definition st_act :: "action \<Rightarrow> 'r ctx \<Rightarrow> 'r ctx res" where
  "st_act a c = Inr (c\<lparr>cx_acts := cx_acts c @ [a]\<rparr>)"

definition st_print :: "string \<Rightarrow> 'r ctx \<Rightarrow> 'r ctx res" where
  "st_print s = st_act (Print s)"

definition st_tag :: "u16 \<Rightarrow> 'r ctx \<Rightarrow> 'r ctx res" where
  "st_tag t c = Inr (c\<lparr>cx_msg := put_tag 0 t (cx_msg c)\<rparr>)"

definition st_data :: "nat \<Rightarrow> u64 \<Rightarrow> 'r ctx \<Rightarrow> 'r ctx res" where
  "st_data i v c = bindr (wr (cx_msg c) i v) (\<lambda>m. Inr (c\<lparr>cx_msg := m\<rparr>))"

definition st_send :: "nat \<Rightarrow> 'r ctx \<Rightarrow> 'r ctx res" where
  "st_send d c = st_act (Send d (cx_msg c)) c"

definition st_send_at :: "u8 list \<Rightarrow> nat \<Rightarrow> 'r ctx \<Rightarrow> 'r ctx res" where
  "st_send_at xs i c = bindr (rd xs i) (\<lambda>d. st_send (unat d) c)"

text \<open>\<^verbatim>\<open>smlt_send(replica.clients[get_client_id(msg->data)], msg)\<close>\<close>

definition st_reply :: "u8 list \<Rightarrow> 'r ctx \<Rightarrow> 'r ctx res" where
  "st_reply clients c = st_send_at clients (unat (msg_cid (cx_msg c))) c"

definition st_bcast :: "'r ctx \<Rightarrow> 'r ctx res" where
  "st_bcast c = st_act (Bcast (cx_msg c)) c"

definition st_exec :: "exec_fn option \<Rightarrow> 'r ctx \<Rightarrow> 'r ctx res" where
  "st_exec f c = (case f of None \<Rightarrow> Inl NullCall
     | Some g \<Rightarrow> st_act (Exec g (payload (cx_msg c))) c)"

definition st_core :: "'r ctx \<Rightarrow> 'r ctx res" where
  "st_core c = bindr (com_layer_core_send_request (cx_com c) (cx_msg c)) (\<lambda>(com, m, as).
     Inr (c\<lparr>cx_com := com, cx_msg := m, cx_acts := cx_acts c @ as\<rparr>))"

definition st_when :: "bool \<Rightarrow> ('c \<Rightarrow> 'c res) \<Rightarrow> 'c \<Rightarrow> 'c res" where
  "st_when b f c = (if b then f c else Inr c)"

text \<open>\<^verbatim>\<open>for (int i = 1; i < num_replicas; i++) smlt_send(replicas[i], msg)\<close>\<close>

definition st_send_others :: "u8 list \<Rightarrow> u8 \<Rightarrow> 'r ctx \<Rightarrow> 'r ctx res" where
  "st_send_others replicas n = foldr_res (st_send_at replicas) [1..<unat n]"

text \<open>The measurement statements of the request handlers.\<close>

definition st_start_timer :: "'r ctx \<Rightarrow> 'r ctx res" where
  "st_start_timer c = Inr (c\<lparr>cx_meas := (cx_meas c)\<lparr>m_timer_started := True\<rparr>\<rparr>)"

definition st_count :: "'r ctx \<Rightarrow> 'r ctx res" where
  "st_count c = Inr (c\<lparr>cx_meas := (cx_meas c)\<lparr>m_num_reqs := m_num_reqs (cx_meas c) + 1\<rparr>\<rparr>)"

text \<open>
  The setup handler: the last client index whose core is the message's client id is written
  into \<^verbatim>\<open>data[4]\<close>, and the message goes back to that core.
\<close>

definition st_setup :: "u8 list \<Rightarrow> u8 \<Rightarrow> 'r ctx \<Rightarrow> 'r ctx res" where
  "st_setup clients n c =
     (let core = msg_cid (cx_msg c) in
      bindr (foldr_res (\<lambda>i m. bindr (rd clients i) (\<lambda>x.
               if unat x = unat core then wr m 4 (of_nat i) else Inr m))
             [0..<unat n] (cx_msg c)) (\<lambda>m.
      st_send (unat core) (c\<lparr>cx_msg := m\<rparr>)))"

text \<open>
  The body of a polling iteration: \<open>m\<close> is what \<^verbatim>\<open>smlt_can_recv\<close> and \<^verbatim>\<open>smlt_recv\<close> give.
\<close>

definition recv_and_handle ::
    "('r ctx \<Rightarrow> 'r ctx res) \<Rightarrow> msg option \<Rightarrow> 'r ctx \<Rightarrow> 'r ctx res" where
  "recv_and_handle h m c = (case m of None \<Rightarrow> Inr c | Some m \<Rightarrow> h (c\<lparr>cx_msg := m\<rparr>))"

lemmas stmts = st_print_def st_act_def st_tag_def st_data_def st_send_def st_send_at_def st_reply_def
  st_bcast_def st_exec_def st_start_timer_def st_count_def

lemma do_all_Nil [simp]: "do_all [] c = Inr c"
  by (simp add: do_all_def)

lemma do_all_Cons [simp]: "do_all (f # fs) c = bindr (f c) (do_all fs)"
proof -
  have "foldr_res (\<lambda>f. f) fs = do_all fs" by (rule ext) (simp add: do_all_def)
  then show ?thesis by (simp add: do_all_def)
qed

lemma do_all_Nil_fun: "do_all [] = Inr"
  by (rule ext) simp

lemma do_all_one: "do_all [f] = f"
  by (rule ext) (simp add: do_all_Nil_fun bindr_Inr_right)

lemma st_send_others_eq:
  "unat n \<le> length replicas \<Longrightarrow> st_send_others replicas n c =
     Inr (c\<lparr>cx_acts := cx_acts c @ map (\<lambda>d. Send (unat d) (cx_msg c)) (take (unat n - 1) (drop 1 replicas))\<rparr>)"
proof -
  have gen: "Suc k \<le> length replicas \<Longrightarrow> foldr_res (st_send_at replicas) [1..<Suc k] c =
     Inr (c\<lparr>cx_acts := cx_acts c @ map (\<lambda>d. Send (unat d) (cx_msg c)) (take k (drop 1 replicas))\<rparr>)" for k
  proof (induction k)
    case 0
    then show ?case by simp
  next
    case (Suc k)
    have "[1..<Suc (Suc k)] = [1..<Suc k] @ [Suc k]" by simp
    moreover have "take (Suc k) (drop 1 replicas) = take k (drop 1 replicas) @ [replicas ! Suc k]"
      using Suc.prems by (simp add: take_Suc_conv_app_nth)
    ultimately show ?case using Suc by (simp add: foldr_res_snoc stmts del: upt_Suc)
  qed
  assume n: "unat n \<le> length replicas"
  show ?thesis
  proof (cases "unat n")
    case 0
    then show ?thesis by (simp add: st_send_others_def)
  next
    case (Suc k)
    then show ?thesis using gen [of k] n by (simp add: st_send_others_def)
  qed
qed

text \<open>The index a setup message finds: the last one whose core is the given one.\<close>

fun last_client :: "u8 list \<Rightarrow> nat \<Rightarrow> u16 \<Rightarrow> nat option" where
  "last_client clients 0 core = None"
| "last_client clients (Suc i) core =
     (if unat (clients ! i) = unat core then Some i else last_client clients i core)"

lemma last_client_distinct:
  "distinct clients \<Longrightarrow> k < n \<Longrightarrow> n \<le> length clients \<Longrightarrow> unat (clients ! k) = unat core \<Longrightarrow>
   last_client clients n core = Some k"
proof (induction n)
  case 0
  then show ?case by simp
next
  case (Suc n)
  show ?case
  proof (cases "k = n")
    case True
    with Suc.prems show ?thesis by simp
  next
    case False
    with Suc.prems have "clients ! n \<noteq> clients ! k" by (simp add: nth_eq_iff_index_eq)
    then have "unat (clients ! n) \<noteq> unat core" using Suc.prems(4) by (metis word_unat_eq_iff)
    with False Suc show ?thesis by simp
  qed
qed

lemma setup_loop:
  assumes "wf_msg m" and "n \<le> length clients"
  shows "foldr_res (\<lambda>i m. bindr (rd clients i) (\<lambda>x.
      if unat x = unat core then wr m 4 (of_nat i) else Inr m)) [0..<n] m =
    Inr (case last_client clients n core of None \<Rightarrow> m | Some k \<Rightarrow> m[4 := of_nat k])"
  using assms(2)
proof (induction n)
  case 0
  then show ?case by simp
next
  case (Suc n)
  have "4 < length m" using assms(1) by simp
  with Suc show ?case by (simp add: foldr_res_snoc split: option.split)
qed

lemma st_setup_eq:
  assumes "wf_msg (cx_msg c)" and "unat n \<le> length clients"
  shows "st_setup clients n c =
    (let m = (case last_client clients (unat n) (msg_cid (cx_msg c)) of None \<Rightarrow> cx_msg c
              | Some k \<Rightarrow> (cx_msg c)[4 := of_nat k]) in
     Inr (c\<lparr>cx_msg := m, cx_acts := cx_acts c @ [Send (unat (msg_cid (cx_msg c))) m]\<rparr>))"
  using setup_loop [OF assms] by (simp add: st_setup_def Let_def stmts)

lemma setup_Inr:
  assumes "st_setup clients n c = Inr c'" and "wf_msg (cx_msg c)"
  shows "\<exists>m. wf_msg m \<and> msg_tag m = msg_tag (cx_msg c) \<and>
    c' = c\<lparr>cx_msg := m, cx_acts := cx_acts c @ [Send (unat (msg_cid (cx_msg c))) m]\<rparr>"
proof -
  let ?f = "\<lambda>i m. bindr (rd clients i) (\<lambda>x. if unat x = unat (msg_cid (cx_msg c)) then wr m 4 (of_nat i) else Inr m)"
  obtain m where m: "foldr_res ?f [0..<unat n] (cx_msg c) = Inr m"
    and c': "c' = c\<lparr>cx_msg := m, cx_acts := cx_acts c @ [Send (unat (msg_cid (cx_msg c))) m]\<rparr>"
    using assms(1) by (auto simp: st_setup_def Let_def bindr_eq_Inr stmts)
  have "wf_msg m \<and> msg_tag m = msg_tag (cx_msg c)"
    by (rule foldr_res_invariant [OF m]) (use assms(2) in \<open>auto simp: res_simps hdr split: if_splits\<close>)
  with c' show ?thesis by blast
qed

text \<open>
  Forwarding to the core level adds no application call of its own and no \<open>Send\<close>: over shared
  memory it is a queue write, else a request to a core-level node and its reply.
\<close>

lemma send_request_acts:
  "com_layer_core_send_request com m = Inr (com', m', as) \<Longrightarrow>
   execs as = [] \<and> sends_to d as = [] \<and> Bcast b \<notin> set as \<and> payload m' = payload m \<and> wf_msg m' = wf_msg m"
  by (auto simp: com_layer_core_send_request_def Let_def res_simps split: if_splits)

definition silent :: "action list \<Rightarrow> bool" where
  "silent as \<longleftrightarrow> execs as = [] \<and> (\<forall>d. sends_to d as = []) \<and> (\<forall>m. Bcast m \<notin> set as)"

lemma silent_simps [simp]: "silent as \<Longrightarrow> execs as = []" "silent as \<Longrightarrow> sends_to d as = []" "silent as \<Longrightarrow> Bcast m \<notin> set as"
  by (simp_all add: silent_def)

lemma st_below_Inr:
  assumes "st_when b st_core c = Inr c'"
  shows "\<exists>com m as. silent as \<and> payload m = payload (cx_msg c) \<and> wf_msg m = wf_msg (cx_msg c) \<and>
    c' = c\<lparr>cx_com := com, cx_msg := m, cx_acts := cx_acts c @ as\<rparr>"
proof (cases b)
  case True
  then have "st_core c = Inr c'" using assms by (simp add: st_when_def)
  then obtain com m as where r: "com_layer_core_send_request (cx_com c) (cx_msg c) = Inr (com, m, as)"
    and c': "c' = c\<lparr>cx_com := com, cx_msg := m, cx_acts := cx_acts c @ as\<rparr>"
    by (auto simp: st_core_def bindr_eq_Inr)
  have "silent as" unfolding silent_def using send_request_acts [OF r] by blast
  moreover have "payload m = payload (cx_msg c)" "wf_msg m = wf_msg (cx_msg c)"
    using send_request_acts [OF r] by blast+
  ultimately show ?thesis using c' by blast
next
  case False
  then have "c' = c\<lparr>cx_com := cx_com c, cx_msg := cx_msg c, cx_acts := cx_acts c @ []\<rparr>"
    using assms by (simp add: st_when_def)
  moreover have "silent []" by (simp add: silent_def)
  ultimately show ?thesis by blast
qed

subsection \<open>The throughput measurement\<close>

fun dec :: "nat \<Rightarrow> string" where
  "dec n = (if n < 10 then [char_of (48 + n)] else dec (n div 10) @ [char_of (48 + n mod 10)])"

declare dec.simps [simp del]

datatype 'd out = Out_text string | Out_vals string "'d list"

record 'd results =
  rs_runs :: u8
  rs_run_res :: "'d list"
  rs_avg :: "'d incr_stats"
  rs_file :: "string option"
  rs_out :: "'d out list"

definition hash_line :: string where "hash_line = replicate 74 CHR ''#''"

text \<open>The body the \<^verbatim>\<open>print_results\<close> functions share: a header, four run results, their summary.\<close>

definition results_table_with ::
    "'d fops \<Rightarrow> string \<Rightarrow> string \<Rightarrow> 'd results \<Rightarrow> 'd results res" where
  "results_table_with F title f_name rs =
     (let avg = init_stats F (rs_avg rs) in
      bindr (foldr_res (\<lambda>i (out, avg). bindr (rd (rs_run_res rs) i) (\<lambda>x.
               Inr (out @ [Out_vals [] [x]], stats_add F avg x))) [2..<6] ([Out_text hash_line, Out_text title], avg))
        (\<lambda>(out, avg).
      let v = [get_avg F avg, get_std_dev F avg, get_conf_interval F avg] in
      Inr (rs\<lparr>rs_avg := avg, rs_file := Some f_name,
              rs_out := rs_out rs @ out @ [Out_vals ''avg, stdv, 95% conf'' v, Out_vals ''||'' v]\<rparr>)))"

definition results_table ::
    "'d fops \<Rightarrow> string \<Rightarrow> replica \<Rightarrow> 'd results \<Rightarrow> 'd results res" where
  "results_table F f_name rep = results_table_with F (''algo_below '' @ dec (unat (r_alg_below rep)) @
     '' num_clients '' @ dec (unat (r_num_clients rep)) @ '' topo adaptivetree'') f_name"

text \<open>One iteration of a result thread; the flag says whether the loop goes on.\<close>

definition results_iter ::
    "'d fops \<Rightarrow> ('d results \<Rightarrow> 'd results res) \<Rightarrow> 'd results \<times> measure \<Rightarrow>
     (('d results \<times> measure) \<times> bool) res" where
  "results_iter F print = (\<lambda>(rs, ms).
     let rate = f_div F (f_int F (uint (m_num_reqs ms))) (f_int F 20) in
     bindr (wr (rs_run_res rs) (unat (rs_runs rs)) rate) (\<lambda>rr.
     let rs = rs\<lparr>rs_run_res := rr, rs_runs := rs_runs rs + 1,
                 rs_out := rs_out rs @ [Out_vals ''Throughput/s current'' [rate]]\<rparr>;
         ms = ms\<lparr>m_num_reqs := 0\<rparr> in
     if 6 < rs_runs rs then bindr (print rs) (\<lambda>rs. Inr ((rs, ms), False))
     else Inr ((rs, ms), True)))"

text \<open>
  The thread over the periods between its wake-ups: \<open>reqs\<close> gives the number of requests the
  replica counted in each; the loop breaks by itself, and the periods left over are returned.
\<close>

fun results_loop ::
    "'d fops \<Rightarrow> ('d results \<Rightarrow> 'd results res) \<Rightarrow> u64 list \<Rightarrow> 'd results \<times> measure \<Rightarrow>
     ('d results \<times> u64 list) res" where
  "results_loop F print [] (rs, ms) = Inr (rs, [])"
| "results_loop F print (n # ns) (rs, ms) =
     bindr (results_iter F print (rs, ms\<lparr>m_num_reqs := n\<rparr>)) (\<lambda>((rs, ms), on).
       if on then results_loop F print ns (rs, ms) else Inr (rs, ns))"

definition fresh_results :: "'d incr_stats \<Rightarrow> 'd \<Rightarrow> 'd results" where
  "fresh_results avg z = \<lparr>rs_runs = 0, rs_run_res = replicate 7 z, rs_avg = avg, rs_file = None,
     rs_out = []\<rparr>"

definition rate :: "'d fops \<Rightarrow> u64 \<Rightarrow> 'd" where
  "rate F n = f_div F (f_int F (uint n)) (f_int F 20)"

lemma list_update_numeral: "(x # xs)[numeral v := y] = x # xs[pred_numeral v := y]"
  by (simp add: numeral_eq_Suc)

lemma replicate_numeral: "replicate (numeral v) x = x # replicate (pred_numeral v) x"
  by (simp add: numeral_eq_Suc)

lemma iter_go:
  "rs_runs rs < 6 \<Longrightarrow> length (rs_run_res rs) = 7 \<Longrightarrow> results_iter F print (rs, ms) =
     Inr ((rs\<lparr>rs_run_res := (rs_run_res rs)[unat (rs_runs rs) := rate F (m_num_reqs ms)],
             rs_runs := rs_runs rs + 1,
             rs_out := rs_out rs @ [Out_vals ''Throughput/s current'' [rate F (m_num_reqs ms)]]\<rparr>,
           ms\<lparr>m_num_reqs := 0\<rparr>), True)"
proof -
  assume r: "rs_runs rs < 6" and l: "length (rs_run_res rs) = 7"
  from r have n: "unat (rs_runs rs) < 6" by (simp add: word_less_nat_alt)
  then have "unat (rs_runs rs + 1) = unat (rs_runs rs) + 1" by (simp add: unat_word_ariths)
  with n have "\<not> 6 < rs_runs rs + 1" by (simp add: word_less_nat_alt)
  with n l show ?thesis by (simp add: results_iter_def rate_def Let_def)
qed

lemma iter_stop:
  "rs_runs rs = 6 \<Longrightarrow> length (rs_run_res rs) = 7 \<Longrightarrow> results_iter F print (rs, ms) =
     bindr (print (rs\<lparr>rs_run_res := (rs_run_res rs)[6 := rate F (m_num_reqs ms)], rs_runs := 7,
             rs_out := rs_out rs @ [Out_vals ''Throughput/s current'' [rate F (m_num_reqs ms)]]\<rparr>))
       (\<lambda>rs. Inr ((rs, ms\<lparr>m_num_reqs := 0\<rparr>), False))"
  by (simp add: results_iter_def rate_def Let_def)

lemma results_loop_seven:
  assumes "7 \<le> length ns"
  shows "results_loop F (results_table F name rep) ns (fresh_results avg z, ms) =
    (let xs = map (rate F) ns; st = add_list F (init_stats F avg) (take 4 (drop 2 xs));
         v = [get_avg F st, get_std_dev F st, get_conf_interval F st] in
     Inr (\<lparr>rs_runs = 7, rs_run_res = take 7 xs, rs_avg = st, rs_file = Some name,
           rs_out = map (\<lambda>x. Out_vals ''Throughput/s current'' [x]) (take 7 xs) @
             [Out_text hash_line,
              Out_text (''algo_below '' @ dec (unat (r_alg_below rep)) @ '' num_clients '' @
                dec (unat (r_num_clients rep)) @ '' topo adaptivetree'')] @
             map (\<lambda>x. Out_vals [] [x]) (take 4 (drop 2 xs)) @
             [Out_vals ''avg, stdv, 95% conf'' v, Out_vals ''||'' v]\<rparr>, drop 7 ns))"
proof -
  have list: "[2..<6] = [2, 3, 4, 5 :: nat]" by (simp add: upt_rec)
  obtain a b c d e f g ns' where ns: "ns = a # b # c # d # e # f # g # ns'"
    using assms by (auto simp: eval_nat_numeral length_Suc_conv Suc_le_length_iff)
  note list_ops = list_update_numeral replicate_numeral take_Cons_numeral drop_Cons_numeral
    nth_Cons_numeral
  have table: "results_table F name rep rs =
      (let st = add_list F (init_stats F (rs_avg rs)) (map (rate F) [c, d, e, f]);
           v = [get_avg F st, get_std_dev F st, get_conf_interval F st] in
       Inr (rs\<lparr>rs_avg := st, rs_file := Some name, rs_out := rs_out rs @
         [Out_text hash_line,
          Out_text (''algo_below '' @ dec (unat (r_alg_below rep)) @ '' num_clients '' @
            dec (unat (r_num_clients rep)) @ '' topo adaptivetree'')] @
         map (\<lambda>x. Out_vals [] [x]) (map (rate F) [c, d, e, f]) @
         [Out_vals ''avg, stdv, 95% conf'' v, Out_vals ''||'' v]\<rparr>))"
    if "rs_run_res rs = map (rate F) [a, b, c, d, e, f, g]" for rs
    using that by (simp add: results_table_def results_table_with_def list add_list_def Let_def nth_Cons_numeral)
  show ?thesis
    by (simp add: ns fresh_results_def iter_go iter_stop list_ops table Let_def)
qed

end
