(* ===== verification/Network.thy ===== *)
theory Network
  imports Replica_Base "HOL-Library.Multiset"
begin

text \<open>
  A system of replicas and clients over Smelt channels. A channel between two cores is a FIFO
  queue, which is what the code relies on Smelt for. A replica receives from a core its
  message loop polls, when it has finished the actions of the previous message; its handler
  decides the actions, which are then performed one by one, so the steps of different
  replicas interleave between any two of them. Clients may send any seven-word message to any
  core at any time. The locale \<open>log_replication\<close> states what a protocol must promise, per
  message, so that all replicas execute the same sequence of commands.
\<close>

text \<open>
  A configuration. \<open>cf_rank\<close> belongs to Smelt, not to the program: it is the order in which Smelt's topology
  hands a broadcast message to the cores.
\<close>

record conf =
  cf_cores :: "u8 list"
  cf_clients :: "u8 list"
  cf_exec :: "exec_fn option"
  cf_below :: u8
  cf_node_size :: u8
  cf_node_cores :: "nat \<Rightarrow> u8 list"
  cf_rank :: "msg \<Rightarrow> u8 \<Rightarrow> nat"

record 'r proto =
  p_handler :: "'r ctx \<Rightarrow> 'r ctx res"
  p_polls :: "nat \<Rightarrow> nat \<Rightarrow> bool"
  p_start :: "nat \<Rightarrow> 'r ctx \<Rightarrow> bool"

record 'r net =
  n_st :: "nat \<Rightarrow> 'r ctx"
  n_pend :: "nat \<Rightarrow> action list"
  n_log :: "nat \<Rightarrow> u64 list list"
  n_chan :: "nat \<Rightarrow> nat \<Rightarrow> msg list"
  n_sent :: "u64 list list"

definition core_of :: "conf \<Rightarrow> nat \<Rightarrow> nat" where
  "core_of C i = unat (cf_cores C ! i)"

definition conf_wf :: "conf \<Rightarrow> bool" where
  "conf_wf C \<longleftrightarrow> distinct (cf_cores C) \<and> set (cf_cores C) \<inter> set (cf_clients C) = {} \<and>
     length (cf_cores C) \<le> 64 \<and> length (cf_clients C) \<le> 64"

definition push_chan :: "nat \<Rightarrow> nat \<Rightarrow> msg \<Rightarrow> 'r net \<Rightarrow> 'r net" where
  "push_chan p q m s =
     s\<lparr>n_chan := (n_chan s)(p := (n_chan s p)(q := n_chan s p q @ [m]))\<rparr>"

definition set_chan :: "nat \<Rightarrow> nat \<Rightarrow> msg list \<Rightarrow> 'r net \<Rightarrow> 'r net" where
  "set_chan p q ms s = s\<lparr>n_chan := (n_chan s)(p := (n_chan s p)(q := ms))\<rparr>"

text \<open>Performing one action of replica \<open>i\<close>.\<close>

fun perform :: "conf \<Rightarrow> nat \<Rightarrow> action \<Rightarrow> 'r net \<Rightarrow> 'r net" where
  "perform C i (Send d m) s = push_chan (core_of C i) d m s"
| "perform C i (Exec f p) s = s\<lparr>n_log := (n_log s)(i := n_log s i @ [p])\<rparr>"
| "perform C i a s = s"

datatype choice =
    Receive nat nat
  | Act nat
  | Client_send nat nat msg
  | Client_recv nat nat

fun net_do :: "conf \<Rightarrow> 'r proto \<Rightarrow> choice \<Rightarrow> 'r net \<Rightarrow> 'r net option" where
  "net_do C P (Receive i q) s =
     (if i < length (cf_cores C) \<and> n_pend s i = [] \<and> p_polls P i q then
        (case n_chan s q (core_of C i) of [] \<Rightarrow> None
         | m # ms \<Rightarrow>
           (case p_handler P ((n_st s i)\<lparr>cx_msg := m, cx_acts := []\<rparr>) of Inl _ \<Rightarrow> None
            | Inr c \<Rightarrow> Some (set_chan q (core_of C i) ms
                (s\<lparr>n_st := (n_st s)(i := c), n_pend := (n_pend s)(i := cx_acts c)\<rparr>))))
      else None)"
| "net_do C P (Act i) s =
     (if i < length (cf_cores C) then
        (case n_pend s i of [] \<Rightarrow> None
         | a # as \<Rightarrow> Some (perform C i a (s\<lparr>n_pend := (n_pend s)(i := as)\<rparr>)))
      else None)"
| "net_do C P (Client_send q d m) s =
     (if q \<in> unat ` set (cf_clients C) \<and> wf_msg m
      then Some (push_chan q d m (s\<lparr>n_sent := n_sent s @ [payload m]\<rparr>)) else None)"
| "net_do C P (Client_recv q p) s =
     (if q \<in> unat ` set (cf_clients C) then
        (case n_chan s p q of [] \<Rightarrow> None | m # ms \<Rightarrow> Some (set_chan p q ms s))
      else None)"

definition run_on :: "'r proto \<Rightarrow> 'r ctx \<Rightarrow> msg \<Rightarrow> 'r ctx res" where
  "run_on P c m = p_handler P (c\<lparr>cx_msg := m, cx_acts := []\<rparr>)"

text \<open>What has happened when a choice was possible.\<close>

lemma receiveE:
  assumes "net_do C P (Receive k q) s = Some s'"
  obtains m ms c where "k < length (cf_cores C)" "n_pend s k = []" "p_polls P k q" "n_chan s q (core_of C k) = m # ms"
    "run_on P (n_st s k) m = Inr c"
    "s' = set_chan q (core_of C k) ms (s\<lparr>n_st := (n_st s)(k := c), n_pend := (n_pend s)(k := cx_acts c)\<rparr>)"
  using assms by (auto simp: run_on_def split: if_splits list.splits sum.splits)

lemma actE:
  assumes "net_do C P (Act k) s = Some s'"
  obtains a as where "k < length (cf_cores C)" "n_pend s k = a # as"
    "s' = perform C k a (s\<lparr>n_pend := (n_pend s)(k := as)\<rparr>)"
  using assms by (auto split: if_splits list.splits)

lemma client_sendD:
  assumes "net_do C P (Client_send q d m) s = Some s'"
  shows "q \<in> unat ` set (cf_clients C)" "wf_msg m" "s' = push_chan q d m (s\<lparr>n_sent := n_sent s @ [payload m]\<rparr>)"
  using assms by (auto split: if_splits)

lemma client_recvE:
  assumes "net_do C P (Client_recv q p) s = Some s'"
  obtains m ms where "q \<in> unat ` set (cf_clients C)" "n_chan s p q = m # ms" "s' = set_chan p q ms s"
  using assms by (auto split: if_splits list.splits)

definition net_init :: "conf \<Rightarrow> 'r proto \<Rightarrow> 'r net \<Rightarrow> bool" where
  "net_init C P s \<longleftrightarrow> n_pend s = (\<lambda>_. []) \<and> n_log s = (\<lambda>_. []) \<and>
     n_chan s = (\<lambda>_ _. []) \<and> n_sent s = [] \<and>
     (\<forall>i < length (cf_cores C). p_start P i (n_st s i))"

inductive net_reach :: "conf \<Rightarrow> 'r proto \<Rightarrow> 'r net \<Rightarrow> bool" for C P where
  init: "net_init C P s \<Longrightarrow> net_reach C P s"
| step: "net_reach C P s \<Longrightarrow> net_do C P ch s = Some s' \<Longrightarrow> net_reach C P s'"

text \<open>A run given by its choices, for concrete runs.\<close>

fun net_run :: "conf \<Rightarrow> 'r proto \<Rightarrow> choice list \<Rightarrow> 'r net \<Rightarrow> 'r net option" where
  "net_run C P [] s = Some s"
| "net_run C P (ch # chs) s =
     (case net_do C P ch s of None \<Rightarrow> None | Some s \<Rightarrow> net_run C P chs s)"

lemma net_run_reach: "net_reach C P s \<Longrightarrow> net_run C P chs s = Some s' \<Longrightarrow> net_reach C P s'"
  by (induction chs arbitrary: s) (auto split: option.splits intro: net_reach.step)

text \<open>The commands that the commit messages of a channel carry.\<close>

definition commits :: "u16 \<Rightarrow> msg list \<Rightarrow> u64 list list" where
  "commits t ms = map payload (filter (\<lambda>m. msg_tag m = t) ms)"

lemma commits_simps [simp]:
  "commits t [] = []"
  "commits t (m # ms) = (if msg_tag m = t then payload m # commits t ms else commits t ms)"
  "commits t (ms @ ns) = commits t ms @ commits t ns"
  by (simp_all add: commits_def)

lemma chan_simps [simp]:
  "n_chan (push_chan p q m s) = (n_chan s)(p := (n_chan s p)(q := n_chan s p q @ [m]))"
  "n_chan (set_chan p q ms s) = (n_chan s)(p := (n_chan s p)(q := ms))"
  "n_st (push_chan p q m s) = n_st s" "n_st (set_chan p q ms s) = n_st s"
  "n_pend (push_chan p q m s) = n_pend s" "n_pend (set_chan p q ms s) = n_pend s"
  "n_log (push_chan p q m s) = n_log s" "n_log (set_chan p q ms s) = n_log s"
  "n_sent (push_chan p q m s) = n_sent s" "n_sent (set_chan p q ms s) = n_sent s"
  by (simp_all add: push_chan_def set_chan_def)

lemma perform_st [simp]: "n_st (perform C i a s) = n_st s" "n_pend (perform C i a s) = n_pend s"
  "n_sent (perform C i a s) = n_sent s"
  by (cases a; simp)+

lemma core_of_inject:
  "conf_wf C \<Longrightarrow> i < length (cf_cores C) \<Longrightarrow> j < length (cf_cores C) \<Longrightarrow>
   core_of C i = core_of C j \<longleftrightarrow> i = j"
  by (simp add: conf_wf_def core_of_def word_unat_eq_iff [symmetric] nth_eq_iff_index_eq)

lemma core_not_client:
  "conf_wf C \<Longrightarrow> i < length (cf_cores C) \<Longrightarrow> core_of C i \<notin> unat ` set (cf_clients C)"
  unfolding conf_wf_def core_of_def
  by (metis IntI emptyE imageE nth_mem word_unat_eq_iff)

lemma sends_to_map_set: "set (sends_to d (map (\<lambda>x. Send (f x) m) xs)) \<subseteq> {m}"
  by (induction xs) auto

lemma sends_to_map_in: "m' \<in> set (sends_to d (map (\<lambda>x. Send (f x) m) xs)) \<Longrightarrow> m' = m"
  using sends_to_map_set by fastforce

lemma sends_to_map_target: "x \<in> set (sends_to d (map (\<lambda>y. Send (f y) m) ys)) \<Longrightarrow> d \<in> f ` set ys"
  by (induction ys) (auto split: if_splits)

text \<open>Every core but the root's, once each, in some order.\<close>

definition each_other :: "conf \<Rightarrow> u8 list \<Rightarrow> bool" where
  "each_other C ds \<longleftrightarrow> mset ds = mset (drop 1 (cf_cores C))"

lemma each_other_cores: "each_other C (drop 1 (cf_cores C))"
  by (simp add: each_other_def)

lemma each_other_facts:
  assumes "each_other C ds"
  shows "set ds = set (drop 1 (cf_cores C))" and "length ds = length (cf_cores C) - 1"
  using mset_eq_setD [OF assms [unfolded each_other_def]] mset_eq_length [OF assms [unfolded each_other_def]] by simp_all

lemma each_other_distinct:
  assumes "conf_wf C" and "each_other C ds"
  shows "distinct ds"
proof -
  have "distinct (drop 1 (cf_cores C))" using assms(1) by (simp add: conf_wf_def)
  then show ?thesis using assms(2) mset_eq_imp_distinct_iff unfolding each_other_def by blast
qed

lemma send_each_one:
  assumes "conf_wf C" and "0 < i" and "i < length (cf_cores C)" and "each_other C ds"
  shows "sends_to (core_of C i) (map (\<lambda>d. Send (unat d) m) ds) = [m]"
  unfolding core_of_def
proof (rule sends_to_map_Send_one)
  have "distinct ds" by (rule each_other_distinct [OF assms(1,4)])
  moreover have "inj_on unat (set ds)" by (rule inj_onI) (simp add: word_unat_eq_iff)
  ultimately show "distinct (map unat ds)" by (simp add: distinct_map)
  have "drop 1 (cf_cores C) ! (i - 1) = cf_cores C ! i" "i - 1 < length (drop 1 (cf_cores C))"
    using assms(2,3) by auto
  then have "cf_cores C ! i \<in> set (drop 1 (cf_cores C))" by (metis nth_mem)
  then show "cf_cores C ! i \<in> set ds" using each_other_facts(1) [OF assms(4)] by simp
qed

lemma send_others_one:
  assumes "conf_wf C" and "0 < i" and "i < length (cf_cores C)"
  shows "sends_to (core_of C i) (map (\<lambda>d. Send (unat d) m) (drop 1 (cf_cores C))) = [m]"
  by (rule send_each_one [OF assms each_other_cores])

lemma not_client_core:
  assumes "conf_wf C" and "i < length (cf_cores C)" and "k < length (cf_clients C)"
  shows "unat (cf_clients C ! k) \<noteq> core_of C i"
  using core_not_client [OF assms(1,2)] assms(3) by (metis image_eqI nth_mem)

subsection \<open>Replicating a log\<close>

text \<open>What replica \<open>i\<close> has executed or is about to execute.\<close>

definition upto :: "'r net \<Rightarrow> nat \<Rightarrow> u64 list list" where
  "upto s i = n_log s i @ execs (n_pend s i)"

definition linked :: "conf \<Rightarrow> u16 \<Rightarrow> 'r net \<Rightarrow> nat \<Rightarrow> nat \<Rightarrow> bool" where
  "linked C t s p i \<longleftrightarrow> upto s p = upto s i @ commits t (n_chan s (core_of C p) (core_of C i)) @
     commits t (sends_to (core_of C i) (n_pend s p))"

definition msgs_wf :: "conf \<Rightarrow> 'r net \<Rightarrow> bool" where
  "msgs_wf C s \<longleftrightarrow> (\<forall>p q. \<forall>m \<in> set (n_chan s p q). wf_msg m) \<and>
     (\<forall>i < length (cf_cores C). \<forall>d. \<forall>m \<in> set (sends_to d (n_pend s i)). wf_msg m)"

lemma perform_linked:
  assumes "conf_wf C" and "p < length (cf_cores C)" and "i < length (cf_cores C)"
    and "k < length (cf_cores C)" and "p \<noteq> i" and "n_pend s k = a # as" and "linked C t s p i"
  shows "linked C t (perform C k a (s\<lparr>n_pend := (n_pend s)(k := as)\<rparr>)) p i"
proof -
  have inj: "core_of C k = core_of C p \<longleftrightarrow> k = p" "core_of C p = core_of C k \<longleftrightarrow> p = k"
    using core_of_inject [OF assms(1)] assms(2,4) by auto
  show ?thesis
    using assms(5-7) by (cases a) (auto simp: linked_def upto_def inj)
qed

text \<open>A claim about all messages, from where they come and where they go, survives an action.\<close>

definition every_msg :: "conf \<Rightarrow> (nat \<Rightarrow> nat \<Rightarrow> msg \<Rightarrow> bool) \<Rightarrow> 'r net \<Rightarrow> bool" where
  "every_msg C L s \<longleftrightarrow> (\<forall>p d. \<forall>m \<in> set (n_chan s p d). L p d m) \<and>
     (\<forall>i < length (cf_cores C). \<forall>d. \<forall>m \<in> set (sends_to d (n_pend s i)). L (core_of C i) d m)"

lemma perform_every:
  assumes "every_msg C L s" and "k < length (cf_cores C)" and "n_pend s k = a # as"
  shows "every_msg C L (perform C k a (s\<lparr>n_pend := (n_pend s)(k := as)\<rparr>))"
proof -
  have all: "\<forall>m \<in> set (sends_to d (a # as)). L (core_of C k) d m" for d
    using assms unfolding every_msg_def by metis
  have "\<forall>m \<in> set (sends_to d as). L (core_of C k) d m" for d
    using all [of d] by (cases a) (auto split: if_splits)
  moreover have "\<forall>p d. \<forall>m \<in> set (n_chan (perform C k a (s\<lparr>n_pend := (n_pend s)(k := as)\<rparr>)) p d). L p d m"
  proof (cases a)
    case (Send d m)
    then have "L (core_of C k) d m" using all [of d] by simp
    with assms(1) Send show ?thesis by (auto simp: every_msg_def)
  qed (use assms(1) in \<open>auto simp: every_msg_def\<close>)
  ultimately show ?thesis using assms(1) unfolding every_msg_def by simp
qed

lemma msgs_wf_every: "msgs_wf C s \<longleftrightarrow> every_msg C (\<lambda>_ _. wf_msg) s"
  by (simp add: msgs_wf_def every_msg_def)

lemma perform_msgs:
  "msgs_wf C s \<Longrightarrow> k < length (cf_cores C) \<Longrightarrow> n_pend s k = a # as \<Longrightarrow>
   msgs_wf C (perform C k a (s\<lparr>n_pend := (n_pend s)(k := as)\<rparr>))"
  unfolding msgs_wf_every by (rule perform_every)

locale log_replication =
  fixes proto :: "conf \<Rightarrow> 'r proto"
    and par :: "nat \<Rightarrow> nat"
    and ct :: u16
    and local :: "conf \<Rightarrow> nat \<Rightarrow> 'r ctx \<Rightarrow> bool"
  assumes par_less: "0 < i \<Longrightarrow> par i < i"
    and start_local: "conf_wf C \<Longrightarrow> i < length (cf_cores C) \<Longrightarrow> p_start (proto C) i c \<Longrightarrow> local C i c"
    and keep_local: "conf_wf C \<Longrightarrow> i < length (cf_cores C) \<Longrightarrow> local C i c \<Longrightarrow> wf_msg m \<Longrightarrow>
      run_on (proto C) c m = Inr c' \<Longrightarrow> local C i c'"
    and sends_wf: "conf_wf C \<Longrightarrow> i < length (cf_cores C) \<Longrightarrow> local C i c \<Longrightarrow> wf_msg m \<Longrightarrow>
      run_on (proto C) c m = Inr c' \<Longrightarrow> m' \<in> set (sends_to d (cx_acts c')) \<Longrightarrow> wf_msg m'"
    and child_polls: "conf_wf C \<Longrightarrow> 0 < i \<Longrightarrow> i < length (cf_cores C) \<Longrightarrow> p_polls (proto C) i q \<Longrightarrow>
      q = core_of C (par i)"
    and child_law: "conf_wf C \<Longrightarrow> 0 < i \<Longrightarrow> i < length (cf_cores C) \<Longrightarrow> local C i c \<Longrightarrow> wf_msg m \<Longrightarrow>
      run_on (proto C) c m = Inr c' \<Longrightarrow> execs (cx_acts c') = commits ct [m]"
    and parent_law: "conf_wf C \<Longrightarrow> 0 < i \<Longrightarrow> i < length (cf_cores C) \<Longrightarrow> local C (par i) c \<Longrightarrow>
      wf_msg m \<Longrightarrow> run_on (proto C) c m = Inr c' \<Longrightarrow>
      execs (cx_acts c') = commits ct (sends_to (core_of C i) (cx_acts c'))"
begin

definition replicated :: "conf \<Rightarrow> 'r net \<Rightarrow> bool" where
  "replicated C s \<longleftrightarrow> msgs_wf C s \<and> (\<forall>i < length (cf_cores C). local C i (n_st s i)) \<and>
     (\<forall>i < length (cf_cores C). 0 < i \<longrightarrow> linked C ct s (par i) i)"

lemma replicated_init: "conf_wf C \<Longrightarrow> net_init C (proto C) s \<Longrightarrow> replicated C s"
  by (auto simp: net_init_def replicated_def msgs_wf_def linked_def upto_def intro: start_local)

lemma handled_linked:
  assumes "conf_wf C" and "replicated C s" and k: "k < length (cf_cores C)"
    and idle: "n_pend s k = []" and polls: "p_polls (proto C) k q"
    and chan: "n_chan s q (core_of C k) = m # ms"
    and run: "run_on (proto C) (n_st s k) m = Inr c"
    and i: "0 < i" "i < length (cf_cores C)"
  shows "linked C ct (set_chan q (core_of C k) ms
           (s\<lparr>n_st := (n_st s)(k := c), n_pend := (n_pend s)(k := cx_acts c)\<rparr>)) (par i) i"
proof -
  have lk: "linked C ct s (par i) i" and loc: "local C k (n_st s k)" and wf: "wf_msg m"
    using assms by (auto simp: replicated_def msgs_wf_def chan) (metis chan list.set_intros(1))
  have p: "par i < length (cf_cores C)" "par i \<noteq> i"
    using par_less [OF i(1)] i(2) by auto
  have inj: "core_of C k = core_of C i \<longleftrightarrow> k = i" "core_of C (par i) = core_of C k \<longleftrightarrow> par i = k"
    using core_of_inject [OF assms(1)] k p i by auto
  show ?thesis
  proof (cases "k = i")
    case True
    then have q: "q = core_of C (par i)" using child_polls [OF assms(1) i] polls by simp
    have ex: "execs (cx_acts c) = commits ct [m]"
      using child_law [OF assms(1) i _ wf] loc run True by blast
    from lk have "upto s (par i) = n_log s i @ commits ct (m # ms) @
        commits ct (sends_to (core_of C i) (n_pend s (par i)))"
      using True idle chan q by (simp add: linked_def upto_def)
    then show ?thesis using True p q ex by (simp add: linked_def upto_def)
  next
    case False
    show ?thesis
    proof (cases "k = par i")
      case True
      have ex: "execs (cx_acts c) = commits ct (sends_to (core_of C i) (cx_acts c))"
        using parent_law [OF assms(1) i _ wf] loc run True by blast
      from lk show ?thesis using True False p idle ex inj by (simp add: linked_def upto_def)
    next
      case False
      with lk \<open>k \<noteq> i\<close> inj show ?thesis by (simp add: linked_def upto_def)
    qed
  qed
qed

lemma replicated_step:
  assumes C: "conf_wf C" and inv: "replicated C s" and st: "net_do C (proto C) ch s = Some s'"
  shows "replicated C s'"
proof (cases ch)
  case (Receive k q)
  from st [unfolded Receive] obtain m ms c where k: "k < length (cf_cores C)" and idle: "n_pend s k = []"
    and polls: "p_polls (proto C) k q" and chan: "n_chan s q (core_of C k) = m # ms"
    and run: "run_on (proto C) (n_st s k) m = Inr c"
    and s': "s' = set_chan q (core_of C k) ms
           (s\<lparr>n_st := (n_st s)(k := c), n_pend := (n_pend s)(k := cx_acts c)\<rparr>)"
    by (rule receiveE) blast
  have loc: "local C k (n_st s k)" and all: "\<forall>p q. \<forall>m \<in> set (n_chan s p q). wf_msg m"
    using inv k by (auto simp: replicated_def msgs_wf_def)
  then have wf: "wf_msg m" by (metis chan list.set_intros(1))
  have "\<forall>m' \<in> set (sends_to d (cx_acts c)). wf_msg m'" for d
    using sends_wf [OF C k loc wf run] by blast
  moreover have "\<forall>m \<in> set ms. wf_msg m" using all chan by (metis list.set_intros(2))
  ultimately have "msgs_wf C s'"
    using inv all by (auto simp: s' replicated_def msgs_wf_def)
  moreover have "\<forall>i < length (cf_cores C). local C i (n_st s' i)"
    using inv keep_local [OF C k loc wf run] by (auto simp: s' replicated_def)
  moreover have "\<forall>i < length (cf_cores C). 0 < i \<longrightarrow> linked C ct s' (par i) i"
    unfolding s' using handled_linked [OF C inv k idle polls chan run] by blast
  ultimately show ?thesis by (simp add: replicated_def)
next
  case (Act k)
  from st [unfolded Act] obtain a as where k: "k < length (cf_cores C)" and pend: "n_pend s k = a # as"
    and s': "s' = perform C k a (s\<lparr>n_pend := (n_pend s)(k := as)\<rparr>)"
    by (rule actE) blast
  have "linked C ct s' (par i) i" if "i < length (cf_cores C)" "0 < i" for i
  proof -
    have "par i < length (cf_cores C)" "par i \<noteq> i" using par_less [OF that(2)] that(1) by auto
    with that inv k show ?thesis
      unfolding s' by (intro perform_linked [OF C _ _ _ _ pend]) (auto simp: replicated_def)
  qed
  then show ?thesis
    using inv perform_msgs [OF _ k pend] by (simp add: replicated_def s')
next
  case (Client_send q d m)
  have q: "q \<in> unat ` set (cf_clients C)" and m: "wf_msg m"
    and s': "s' = push_chan q d m (s\<lparr>n_sent := n_sent s @ [payload m]\<rparr>)"
    using client_sendD [OF st [unfolded Client_send]] by blast+
  have "linked C ct s' (par i) i" if "i < length (cf_cores C)" "0 < i" for i
  proof -
    have "par i < length (cf_cores C)" using par_less [OF that(2)] that(1) by simp
    then have "core_of C (par i) \<noteq> q" using core_not_client [OF C] q by metis
    with that inv show ?thesis by (simp add: replicated_def linked_def upto_def s')
  qed
  with inv m show ?thesis by (auto simp: replicated_def msgs_wf_def s')
next
  case (Client_recv q p)
  from st [unfolded Client_recv] obtain m ms where q: "q \<in> unat ` set (cf_clients C)" and chan: "n_chan s p q = m # ms"
    and s': "s' = set_chan p q ms s"
    by (rule client_recvE) blast
  have "core_of C i \<noteq> q" if "i < length (cf_cores C)" for i
    using core_not_client [OF C that] q by metis
  with inv have "\<forall>i < length (cf_cores C). 0 < i \<longrightarrow> linked C ct s' (par i) i"
    by (simp add: replicated_def linked_def upto_def s')
  moreover have "\<forall>m \<in> set ms. wf_msg m"
    using inv chan unfolding replicated_def msgs_wf_def by (metis list.set_intros(2))
  ultimately show ?thesis using inv by (auto simp: replicated_def msgs_wf_def s')
qed

lemma replicated_reach: "net_reach C (proto C) s \<Longrightarrow> conf_wf C \<Longrightarrow> replicated C s"
  by (induction rule: net_reach.induct) (auto intro: replicated_init replicated_step)

lemma upto_prefix:
  assumes "conf_wf C" and "net_reach C (proto C) s"
  shows "i < length (cf_cores C) \<Longrightarrow> prefix (upto s i) (upto s 0)"
proof (induction i rule: less_induct)
  case (less i)
  show ?case
  proof (cases "i = 0")
    case False
    then have p: "par i < i" by (simp add: par_less)
    have "linked C ct s (par i) i"
      using replicated_reach [OF assms(2,1)] less.prems False by (simp add: replicated_def)
    then have "prefix (upto s i) (upto s (par i))" by (simp add: linked_def)
    also have "prefix \<dots> (upto s 0)" using less p by simp
    finally show ?thesis .
  qed simp
qed

lemma executed_prefix:
  "conf_wf C \<Longrightarrow> net_reach C (proto C) s \<Longrightarrow> i < length (cf_cores C) \<Longrightarrow>
   prefix (n_log s i) (upto s 0)"
  using upto_prefix [of C s i] append_prefixD [of "n_log s i" "execs (n_pend s i)" "upto s 0"]
  by (simp add: upto_def)

lemma agreement:
  "conf_wf C \<Longrightarrow> net_reach C (proto C) s \<Longrightarrow> i < length (cf_cores C) \<Longrightarrow> j < length (cf_cores C) \<Longrightarrow>
   prefix (n_log s i) (n_log s j) \<or> prefix (n_log s j) (n_log s i)"
  using executed_prefix [of C s i] executed_prefix [of C s j]
    prefix_same_cases [of "n_log s i" "upto s 0" "n_log s j"] by simp

text \<open>When nothing is left to do or deliver, all replicas have executed the same commands.\<close>

definition quiet :: "conf \<Rightarrow> 'r net \<Rightarrow> bool" where
  "quiet C s \<longleftrightarrow> (\<forall>i < length (cf_cores C). n_pend s i = [] \<and>
     (\<forall>p < length (cf_cores C). n_chan s (core_of C p) (core_of C i) = []))"

lemma quiet_same:
  assumes "conf_wf C" and "net_reach C (proto C) s" and "quiet C s"
  shows "i < length (cf_cores C) \<Longrightarrow> n_log s i = n_log s 0"
proof (induction i rule: less_induct)
  case (less i)
  show ?case
  proof (cases "i = 0")
    case False
    then have p: "par i < i" by (simp add: par_less)
    have "linked C ct s (par i) i"
      using replicated_reach [OF assms(2,1)] less.prems False by (simp add: replicated_def)
    moreover have "par i < length (cf_cores C)" using less.prems p by simp
    moreover from this have "n_pend s i = []" "n_pend s (par i) = []"
      "n_chan s (core_of C (par i)) (core_of C i) = []"
      using assms(3) less.prems by (simp_all add: quiet_def)
    ultimately have "n_log s i = n_log s (par i)" unfolding linked_def upto_def by simp
    also have "\<dots> = n_log s 0" using less.prems p by (intro less.IH) simp_all
    finally show ?thesis .
  qed simp
qed

end

subsection \<open>Only requested commands\<close>

definition requested :: "u64 list list \<Rightarrow> msg \<Rightarrow> bool" where
  "requested ps m \<longleftrightarrow> msg_tag m = SETUP_TAG \<or> payload m \<in> set ps"

definition only_requested :: "conf \<Rightarrow> 'r net \<Rightarrow> bool" where
  "only_requested C s \<longleftrightarrow> (\<forall>p q. \<forall>m \<in> set (n_chan s p q). requested (n_sent s) m) \<and>
     (\<forall>i < length (cf_cores C). set (n_log s i) \<subseteq> set (n_sent s) \<and>
        set (execs (n_pend s i)) \<subseteq> set (n_sent s) \<and>
        (\<forall>d. \<forall>m \<in> set (sends_to d (n_pend s i)). requested (n_sent s) m))"

lemma requested_mono: "requested ps m \<Longrightarrow> set ps \<subseteq> set qs \<Longrightarrow> requested qs m"
  by (auto simp: requested_def)

lemma perform_requested:
  assumes inv: "only_requested C s" and k: "k < length (cf_cores C)" and pend: "n_pend s k = a # as"
  shows "only_requested C (perform C k a (s\<lparr>n_pend := (n_pend s)(k := as)\<rparr>))"
proof -
  have "every_msg C (\<lambda>_ _. requested (n_sent s)) s" using inv by (simp add: only_requested_def every_msg_def)
  then have "every_msg C (\<lambda>_ _. requested (n_sent s)) (perform C k a (s\<lparr>n_pend := (n_pend s)(k := as)\<rparr>))"
    by (rule perform_every [OF _ k pend])
  moreover have ex: "set (execs (a # as)) \<subseteq> set (n_sent s)"
    using inv k pend unfolding only_requested_def by metis
  then have "set (execs as) \<subseteq> set (n_sent s)" by (cases a) auto
  moreover have "set (n_log (perform C k a (s\<lparr>n_pend := (n_pend s)(k := as)\<rparr>)) i) \<subseteq> set (n_sent s)"
    if "i < length (cf_cores C)" for i
    using inv ex that by (cases a) (auto simp: only_requested_def)
  ultimately show ?thesis using inv unfolding only_requested_def every_msg_def by simp
qed

locale valid_replication = log_replication proto par ct local
  for proto :: "conf \<Rightarrow> 'r proto" and par ct local +
  assumes out_payload: "conf_wf C \<Longrightarrow> i < length (cf_cores C) \<Longrightarrow> local C i c \<Longrightarrow> wf_msg m \<Longrightarrow>
      run_on (proto C) c m = Inr c' \<Longrightarrow> m' \<in> set (sends_to d (cx_acts c')) \<Longrightarrow>
      msg_tag m' = SETUP_TAG \<or> (msg_tag m \<noteq> SETUP_TAG \<and> payload m' = payload m)"
    and exec_payload: "conf_wf C \<Longrightarrow> i < length (cf_cores C) \<Longrightarrow> local C i c \<Longrightarrow> wf_msg m \<Longrightarrow>
      run_on (proto C) c m = Inr c' \<Longrightarrow> p \<in> set (execs (cx_acts c')) \<Longrightarrow>
      msg_tag m \<noteq> SETUP_TAG \<and> p = payload m"
begin

lemma requested_step:
  assumes C: "conf_wf C" and reach: "net_reach C (proto C) s" and inv: "only_requested C s"
    and st: "net_do C (proto C) ch s = Some s'"
  shows "only_requested C s'"
proof (cases ch)
  case (Receive k q)
  from st [unfolded Receive] obtain m ms c where k: "k < length (cf_cores C)"
    and chan: "n_chan s q (core_of C k) = m # ms" and run: "run_on (proto C) (n_st s k) m = Inr c"
    and s': "s' = set_chan q (core_of C k) ms
           (s\<lparr>n_st := (n_st s)(k := c), n_pend := (n_pend s)(k := cx_acts c)\<rparr>)"
    by (rule receiveE) blast
  have loc: "local C k (n_st s k)" and wf: "wf_msg m"
    using replicated_reach [OF reach C] k chan
    by (auto simp: replicated_def msgs_wf_def) (metis list.set_intros(1))
  have all: "\<forall>m \<in> set (m # ms). requested (n_sent s) m"
    using inv chan unfolding only_requested_def by metis
  then have m: "msg_tag m \<noteq> SETUP_TAG \<Longrightarrow> payload m \<in> set (n_sent s)" by (simp add: requested_def)
  have "\<forall>m' \<in> set (sends_to d (cx_acts c)). requested (n_sent s) m'" for d
    using out_payload [OF C k loc wf run] m by (metis requested_def)
  moreover have "set (execs (cx_acts c)) \<subseteq> set (n_sent s)"
    using exec_payload [OF C k loc wf run] m by blast
  ultimately show ?thesis using inv all by (simp add: s' only_requested_def)
next
  case (Act k)
  from st [unfolded Act] obtain a as where k: "k < length (cf_cores C)" and pend: "n_pend s k = a # as"
    and s': "s' = perform C k a (s\<lparr>n_pend := (n_pend s)(k := as)\<rparr>)"
    by (rule actE) blast
  show ?thesis unfolding s' by (rule perform_requested [OF inv k pend])
next
  case (Client_send q d m)
  have s': "s' = push_chan q d m (s\<lparr>n_sent := n_sent s @ [payload m]\<rparr>)"
    using client_sendD [OF st [unfolded Client_send]] by blast+
  have mono: "requested (n_sent s) m' \<Longrightarrow> requested (n_sent s @ [payload m]) m'" for m'
    by (auto simp: requested_def)
  have "requested (n_sent s @ [payload m]) m" by (simp add: requested_def)
  with inv mono show ?thesis by (auto simp: only_requested_def s')
next
  case (Client_recv q p)
  from st [unfolded Client_recv] obtain m ms where chan: "n_chan s p q = m # ms" and s': "s' = set_chan p q ms s"
    by (rule client_recvE) blast
  have "\<forall>m \<in> set ms. requested (n_sent s) m"
    using inv chan unfolding only_requested_def by (metis list.set_intros(2))
  with inv show ?thesis by (simp add: only_requested_def s')
qed

lemma requested_reach:
  "net_reach C (proto C) s \<Longrightarrow> conf_wf C \<Longrightarrow> only_requested C s"
proof (induction rule: net_reach.induct)
  case (init s)
  then show ?case by (auto simp: net_init_def only_requested_def)
next
  case (step s ch s')
  then show ?case using requested_step by blast
qed

lemma validity:
  "conf_wf C \<Longrightarrow> net_reach C (proto C) s \<Longrightarrow> i < length (cf_cores C) \<Longrightarrow>
   set (n_log s i) \<subseteq> set (n_sent s)"
  using requested_reach by (auto simp: only_requested_def)

end

subsection \<open>Smelt's broadcast\<close>

text \<open>
  What the code relies on: Smelt's broadcast delivers a message of its root to every other core once,
  and to each of them in the order of the broadcasts. In which order the cores get one message is up to
  Smelt's topology: the cores are sorted by the rank \<open>cf_rank\<close> gives them for this message,
  so any order is possible, and a different one for each message. The copies then travel
  over FIFO channels, from which the replicas receive at any later time.
\<close>

definition bcast_order :: "conf \<Rightarrow> msg \<Rightarrow> u8 list" where
  "bcast_order C m = sort_key (cf_rank C m) (drop 1 (cf_cores C))"

definition spread :: "conf \<Rightarrow> action list \<Rightarrow> action list" where
  "spread C as = concat (map (\<lambda>a. case a of Bcast m \<Rightarrow> map (\<lambda>d. Send (unat d) m) (bcast_order C m) | _ \<Rightarrow> [a]) as)"

lemma bcast_order_each [simp]: "each_other C (bcast_order C m)"
  by (simp add: each_other_def bcast_order_def)

text \<open>Every order of the cores is the one of some ranks.\<close>

lemma filter_one: "distinct xs \<Longrightarrow> a \<in> set xs \<Longrightarrow> filter (\<lambda>x. a = x) xs = [a]"
  by (induction xs) (auto simp: filter_empty_conv)

lemma ranks_exist: "distinct ds \<Longrightarrow> \<exists>k :: u8 \<Rightarrow> nat. inj_on k (set ds) \<and> sorted (map k ds)"
proof (induction ds)
  case (Cons x xs)
  then obtain k :: "u8 \<Rightarrow> nat" where k: "inj_on k (set xs)" "sorted (map k xs)" by auto
  let ?k = "\<lambda>y. if y = x then 0 else k y + 1"
  have same: "map ?k xs = map (\<lambda>y. k y + 1) xs" using Cons.prems by auto
  have "sorted (map (\<lambda>y. k y + 1) xs)" using k(2) by (simp add: sorted_wrt_map)
  then have "sorted (map ?k (x # xs))" unfolding list.map same by simp
  moreover have "inj_on ?k (set (x # xs))" using k(1) Cons.prems by (auto simp: inj_on_def)
  ultimately show ?case by blast
qed simp

lemma bcast_order_any:
  assumes "conf_wf C" and "each_other C ds"
  shows "\<exists>r. bcast_order (C\<lparr>cf_rank := r\<rparr>) m = ds"
proof -
  let ?xs = "drop 1 (cf_cores C)"
  have d: "distinct ds" "distinct ?xs" using each_other_distinct [OF assms] assms(1) by (simp_all add: conf_wf_def)
  have same: "set ds = set ?xs" using each_other_facts(1) [OF assms(2)] .
  obtain k :: "u8 \<Rightarrow> nat" where k: "inj_on k (set ds)" "sorted (map k ds)" using ranks_exist [OF d(1)] by blast
  have one: "filter (\<lambda>x. k a = k x) zs = [a]" if "distinct zs" "set zs = set ds" "a \<in> set ds" for a zs
  proof -
    have "filter (\<lambda>x. k a = k x) zs = filter (\<lambda>x. a = x) zs"
      using k(1) that(2,3) by (intro filter_cong) (auto simp: inj_on_def)
    with filter_one that show ?thesis by metis
  qed
  have "sort_key k ?xs = ds"
    using assms(2) k(2) one [OF d(1) refl] one [OF d(2) same [symmetric]]
    by (intro properties_for_sort_key) (simp_all add: each_other_def)
  then show ?thesis by (intro exI [of _ "\<lambda>_. k"]) (simp add: bcast_order_def)
qed

lemma spread_simps [simp]:
  "spread C [] = []" "spread C (as @ bs) = spread C as @ spread C bs"
  "spread C (Bcast m # as) = map (\<lambda>d. Send (unat d) m) (bcast_order C m) @ spread C as"
  "spread C (Send d m # as) = Send d m # spread C as" "spread C (Exec f p # as) = Exec f p # spread C as"
  "spread C (Print t # as) = Print t # spread C as"
  by (simp_all add: spread_def)

definition delivered :: "conf \<Rightarrow> 'r ctx res \<Rightarrow> 'r ctx res" where
  "delivered C r = bindr r (\<lambda>c. Inr (c\<lparr>cx_acts := spread C (cx_acts c)\<rparr>))"

lemma delivered_simps [simp]:
  "delivered C (Inl e) = Inl e" "delivered C (Inr c) = Inr (c\<lparr>cx_acts := spread C (cx_acts c)\<rparr>)"
  by (simp_all add: delivered_def)

lemma spread_core: "com_layer_core_send_request com m = Inr (com', m', as) \<Longrightarrow> spread C as = as"
  by (auto simp: com_layer_core_send_request_def Let_def res_simps spread_def split: if_splits)

lemma spread_none: "(\<And>m. Bcast m \<notin> set as) \<Longrightarrow> spread C as = as"
  by (induction as) (auto simp: spread_def split: action.split)

text \<open>A replica handling a list of messages one after the other, with all its actions.\<close>

fun handle_all :: "('r ctx \<Rightarrow> 'r ctx res) \<Rightarrow> msg list \<Rightarrow> 'r ctx \<Rightarrow> 'r ctx res" where
  "handle_all h [] c = Inr c"
| "handle_all h (m # ms) c = bindr (h (c\<lparr>cx_msg := m\<rparr>)) (handle_all h ms)"

lemma handle_all_snoc: "handle_all h (ms @ [m]) c = bindr (handle_all h ms c) (\<lambda>c. h (c\<lparr>cx_msg := m\<rparr>))"
proof (induction ms arbitrary: c)
  case Nil
  have "handle_all h [] = Inr" by (rule ext) simp
  then show ?case by (simp add: bindr_Inr_right)
next
  case (Cons x xs)
  then show ?case by (cases "h (c\<lparr>cx_msg := x\<rparr>)") simp_all
qed

subsection \<open>A small configuration for concrete runs\<close>

text \<open>Three replicas on cores 0 to 2, a client on core 5, no core-level protocol.\<close>

definition example_conf :: conf where
  "example_conf = \<lparr>cf_cores = [0, 1, 2], cf_clients = [5], cf_exec = Some (App_exec_fn 1),
     cf_below = ALG_NONE, cf_node_size = 1, cf_node_cores = (\<lambda>_. []), cf_rank = (\<lambda>_ _. 0)\<rparr>"

definition example_request :: msg where
  "example_request = put_tag 0 REQ_TAG [9, 0, 0, 0, 11, 12, 13]"

lemma example_request_facts:
  "wf_msg example_request" "msg_tag example_request = REQ_TAG"
  "unat (msg_cid example_request) < length (cf_clients example_conf)"
  "payload example_request = [11, 12, 13]"
  by code_simp+

definition empty_net :: "(nat \<Rightarrow> 'r ctx) \<Rightarrow> 'r net" where
  "empty_net st = \<lparr>n_st = st, n_pend = (\<lambda>_. []), n_log = (\<lambda>_. []), n_chan = (\<lambda>_ _. []), n_sent = []\<rparr>"

lemma example_conf_wf: "conf_wf example_conf"
  by (simp add: conf_wf_def example_conf_def)

lemma example_conf_length [simp]: "length (cf_cores example_conf) = 3"
  by (simp add: example_conf_def)

lemma example_reach:
  "(\<And>i. i < 3 \<Longrightarrow> p_start P i (st i)) \<Longrightarrow> net_run example_conf P chs (empty_net st) = Some s \<Longrightarrow>
   net_reach example_conf P s"
  by (rule net_run_reach [OF net_reach.init]) (auto simp: net_init_def empty_net_def)

end
