(* ===== verification/Progress.thy ===== *)
theory Progress
  imports Network "HOL-Library.Multiset"
begin

text \<open>
  Progress of a replicated log: the work left in a state, which every step of a replica
  decreases, and what has become of the clients' requests when no replica can do a step any
  more. The locale \<open>progressing\<close> states what a protocol's handler has to satisfy.
\<close>

text \<open>
  A message that replicas can serve: it names one of the clients, unless it is a set-up message,
  which has the core of the client in the place of its index.
\<close>

definition served :: "conf \<Rightarrow> msg \<Rightarrow> bool" where
  "served C m \<longleftrightarrow> wf_msg m \<and> (msg_tag m = SETUP_TAG \<or> unat (msg_cid m) < length (cf_clients C))"

fun good_choice :: "conf \<Rightarrow> choice \<Rightarrow> bool" where
  "good_choice C (Client_send q d m) \<longleftrightarrow> served C m"
| "good_choice C ch \<longleftrightarrow> True"

text \<open>A set-up message is answered whatever the client id, with the header it came with.\<close>

lemma setup_answers:
  assumes "wf_msg (cx_msg c)" and "unat n \<le> length clients"
  shows "\<exists>c' m'. st_setup clients n c = Inr c' \<and> cx_rep c' = cx_rep c \<and>
    cx_acts c' = cx_acts c @ [Send (unat (msg_cid (cx_msg c))) m'] \<and> wf_msg m' \<and>
    msg_cid m' = msg_cid (cx_msg c) \<and> msg_tag m' = msg_tag (cx_msg c)"
  using assms by (simp add: st_setup_eq Let_def hdr split: option.split)

text \<open>The steps of the replicas, and those that only clients take.\<close>

fun internal :: "choice \<Rightarrow> bool" where
  "internal (Receive i q) \<longleftrightarrow> True"
| "internal (Act i) \<longleftrightarrow> True"
| "internal ch \<longleftrightarrow> False"

fun sends_request :: "choice \<Rightarrow> bool" where
  "sends_request (Client_send q d m) \<longleftrightarrow> True"
| "sends_request ch \<longleftrightarrow> False"

text \<open>The commands of the requests that clients have sent to the head of the log.\<close>

fun requests :: "conf \<Rightarrow> choice list \<Rightarrow> u64 list list" where
  "requests C [] = []"
| "requests C (Client_send q d m # chs) =
     (if d = core_of C 0 \<and> msg_tag m = REQ_TAG then payload m # requests C chs else requests C chs)"
| "requests C (ch # chs) = requests C chs"

lemma requests_snoc: "requests C (chs @ [ch]) = requests C chs @ requests C [ch]"
  by (induction C chs rule: requests.induct) auto

lemma net_run_append:
  "net_run C P (chs @ chs') s = (case net_run C P chs s of None \<Rightarrow> None | Some s \<Rightarrow> net_run C P chs' s)"
  by (induction chs arbitrary: s) (auto split: option.splits)

lemma net_run_snoc:
  "net_run C P (chs @ [ch]) s = Some s' \<longleftrightarrow> (\<exists>s1. net_run C P chs s = Some s1 \<and> net_do C P ch s1 = Some s')"
  by (auto simp: net_run_append split: option.splits)

subsection \<open>Work\<close>

text \<open>
  \<open>w i m\<close> bounds the work that message \<open>m\<close> makes when replica \<open>i\<close> receives it. An action is one step, and a
  message that is sent to a replica that will poll it is work for that replica.
\<close>

definition arrival :: "conf \<Rightarrow> 'r proto \<Rightarrow> (nat \<Rightarrow> msg \<Rightarrow> nat) \<Rightarrow> nat \<Rightarrow> nat \<Rightarrow> msg \<Rightarrow> nat" where
  "arrival C P w p d m = (\<Sum>j<length (cf_cores C). if core_of C j = d \<and> p_polls P j p then w j m else 0)"

fun cost :: "conf \<Rightarrow> 'r proto \<Rightarrow> (nat \<Rightarrow> msg \<Rightarrow> nat) \<Rightarrow> nat \<Rightarrow> action \<Rightarrow> nat" where
  "cost C P w i (Send d m) = 1 + arrival C P w (core_of C i) d m"
| "cost C P w i a = 1"

definition costs :: "conf \<Rightarrow> 'r proto \<Rightarrow> (nat \<Rightarrow> msg \<Rightarrow> nat) \<Rightarrow> nat \<Rightarrow> action list \<Rightarrow> nat" where
  "costs C P w i as = sum_list (map (cost C P w i) as)"

lemma costs_simps [simp]: "costs C P w i [] = 0" "costs C P w i (a # as) = cost C P w i a + costs C P w i as"
  "costs C P w i (as @ bs) = costs C P w i as + costs C P w i bs"
  by (simp_all add: costs_def)

definition chan_work :: "conf \<Rightarrow> 'r proto \<Rightarrow> (nat \<Rightarrow> msg \<Rightarrow> nat) \<Rightarrow> 'r net \<Rightarrow> nat" where
  "chan_work C P w s = (\<Sum>i<length (cf_cores C). \<Sum>q<256.
     if p_polls P i q then sum_list (map (w i) (n_chan s q (core_of C i))) else 0)"

definition pend_work :: "conf \<Rightarrow> 'r proto \<Rightarrow> (nat \<Rightarrow> msg \<Rightarrow> nat) \<Rightarrow> 'r net \<Rightarrow> nat" where
  "pend_work C P w s = (\<Sum>i<length (cf_cores C). costs C P w i (n_pend s i))"

definition work :: "conf \<Rightarrow> 'r proto \<Rightarrow> (nat \<Rightarrow> msg \<Rightarrow> nat) \<Rightarrow> 'r net \<Rightarrow> nat" where
  "work C P w s = chan_work C P w s + pend_work C P w s"

lemma core_less: "core_of C i < 256"
  by (simp add: core_of_def)

lemma clients_less: "q \<in> unat ` set (cf_clients C) \<Longrightarrow> q < 256"
  by auto

lemma sum_if_eq: "finite A \<Longrightarrow> p \<in> A \<Longrightarrow> (\<Sum>q\<in>A. if q = p \<and> B then x else (0 :: nat)) = (if B then x else 0)"
  by (cases B) (simp_all add: sum.delta)

lemma chan_work_push:
  assumes "p < 256"
  shows "chan_work C P w (push_chan p d m s) = chan_work C P w s + arrival C P w p d m"
proof -
  have "(if p_polls P i q then sum_list (map (w i) (n_chan (push_chan p d m s) q (core_of C i))) else 0) =
      (if p_polls P i q then sum_list (map (w i) (n_chan s q (core_of C i))) else 0) +
      (if q = p \<and> (core_of C i = d \<and> p_polls P i p) then w i m else 0)" for i q
    by auto
  then show ?thesis
    using assms by (simp add: chan_work_def arrival_def sum.distrib sum_if_eq del: sum.delta sum.delta')
qed

lemma chan_work_pop:
  assumes "n_chan s p d = m # ms" and "p < 256"
  shows "chan_work C P w (set_chan p d ms s) + arrival C P w p d m = chan_work C P w s"
proof -
  have "(if p_polls P i q then sum_list (map (w i) (n_chan s q (core_of C i))) else 0) =
      (if p_polls P i q then sum_list (map (w i) (n_chan (set_chan p d ms s) q (core_of C i))) else 0) +
      (if q = p \<and> (core_of C i = d \<and> p_polls P i p) then w i m else 0)" for i q
    using assms(1) by auto
  then show ?thesis
    using assms(2) by (simp add: chan_work_def arrival_def sum.distrib sum_if_eq del: sum.delta sum.delta')
qed

lemma arrival_polled:
  assumes "conf_wf C" and "k < length (cf_cores C)" and "p_polls P k q"
  shows "arrival C P w q (core_of C k) m = w k m"
proof -
  have "(\<Sum>j<length (cf_cores C). if core_of C j = core_of C k \<and> p_polls P j q then w j m else 0) =
      (\<Sum>j<length (cf_cores C). if j = k then w k m else 0)"
    using core_of_inject [OF assms(1) _ assms(2)] assms(3) by (intro sum.cong) auto
  then show ?thesis using assms(2) by (simp add: arrival_def)
qed

text \<open>A message reaches at most one replica.\<close>

lemma arrival_le:
  assumes "conf_wf C" and "\<And>j. j < length (cf_cores C) \<Longrightarrow> p_polls P j p \<Longrightarrow> w j m \<le> b"
  shows "arrival C P w p d m \<le> b"
proof (cases "\<exists>k < length (cf_cores C). core_of C k = d \<and> p_polls P k p")
  case True
  then obtain k where "k < length (cf_cores C)" "core_of C k = d" "p_polls P k p" by blast
  with assms(2) arrival_polled [OF assms(1), of k P p w m] show ?thesis by auto
next
  case False
  then have "arrival C P w p d m = 0" by (auto simp: arrival_def)
  then show ?thesis by simp
qed

lemma arrival_client:
  assumes "conf_wf C" and "d \<in> unat ` set (cf_clients C)"
  shows "arrival C P w p d m = 0"
proof -
  have "core_of C j \<noteq> d" if "j < length (cf_cores C)" for j using core_not_client [OF assms(1) that] assms(2) by metis
  then show ?thesis by (simp add: arrival_def)
qed

lemma costs_sends_le:
  assumes "\<And>d. arrival C P w (core_of C i) d m \<le> b"
  shows "costs C P w i (map (\<lambda>x. Send (f x) m) xs) \<le> (1 + b) * length xs"
proof (induction xs)
  case (Cons x xs)
  with assms [of "f x"] show ?case by simp
qed simp

lemma pend_work_set:
  "k < length (cf_cores C) \<Longrightarrow> pend_work C P w (s\<lparr>n_pend := (n_pend s)(k := as)\<rparr>) + costs C P w k (n_pend s k) =
     pend_work C P w s + costs C P w k as"
  unfolding pend_work_def
  by (simp add: sum.remove [of _ k] flip: sum.remove)

text \<open>The work does not depend on the replicas' states and logs.\<close>

lemma work_irrelevant [simp]:
  "chan_work C P w (s\<lparr>n_pend := x\<rparr>) = chan_work C P w s" "chan_work C P w (s\<lparr>n_st := y\<rparr>) = chan_work C P w s"
  "chan_work C P w (s\<lparr>n_log := z\<rparr>) = chan_work C P w s" "chan_work C P w (s\<lparr>n_sent := u\<rparr>) = chan_work C P w s"
  "pend_work C P w (s\<lparr>n_st := y\<rparr>) = pend_work C P w s" "pend_work C P w (s\<lparr>n_log := z\<rparr>) = pend_work C P w s"
  "pend_work C P w (s\<lparr>n_sent := u\<rparr>) = pend_work C P w s"
  "pend_work C P w (push_chan p d m s) = pend_work C P w s"
  "pend_work C P w (set_chan p d ms s) = pend_work C P w s"
  by (simp_all add: chan_work_def pend_work_def cong: if_cong)

text \<open>Performing an action takes one step off the work.\<close>

lemma act_work:
  assumes "k < length (cf_cores C)" and "n_pend s k = a # as"
  shows "Suc (work C P w (perform C k a (s\<lparr>n_pend := (n_pend s)(k := as)\<rparr>))) = work C P w s"
proof -
  let ?s = "s\<lparr>n_pend := (n_pend s)(k := as)\<rparr>"
  have "pend_work C P w ?s + cost C P w k a = pend_work C P w s"
    using pend_work_set [OF assms(1), of P w s as] assms(2) by simp
  then show ?thesis
    by (cases a) (simp_all add: work_def chan_work_push core_less)
qed

text \<open>Receiving a message replaces its weight by the costs of the actions it makes.\<close>

lemma receive_work:
  assumes "conf_wf C" and "k < length (cf_cores C)" and "n_pend s k = []" and "p_polls P k q" and "q < 256"
    and "n_chan s q (core_of C k) = m # ms" and "costs C P w k as < w k m"
  shows "work C P w (set_chan q (core_of C k) ms (s\<lparr>n_st := st, n_pend := (n_pend s)(k := as)\<rparr>)) < work C P w s"
proof -
  let ?s = "s\<lparr>n_st := st, n_pend := (n_pend s)(k := as)\<rparr>"
  have "chan_work C P w (set_chan q (core_of C k) ms ?s) + w k m = chan_work C P w s"
    using chan_work_pop [of ?s q "core_of C k" m ms C P w] assms(5,6) arrival_polled [OF assms(1,2,4), of w m] by simp
  moreover have "pend_work C P w ?s = pend_work C P w s + costs C P w k as"
    using pend_work_set [OF assms(2), of P w "s\<lparr>n_st := st\<rparr>" as] assms(3) by simp
  ultimately show ?thesis using assms(7) by (simp add: work_def)
qed

text \<open>What clients receive is no work of the replicas.\<close>

lemma client_recv_work:
  assumes "conf_wf C" and "q \<in> unat ` set (cf_clients C)"
  shows "work C P w (set_chan p q ms s) = work C P w s"
proof -
  have "core_of C i \<noteq> q" if "i < length (cf_cores C)" for i
    using core_not_client [OF assms(1) that] assms(2) by metis
  then have "chan_work C P w (set_chan p q ms s) = chan_work C P w s"
    unfolding chan_work_def by (intro sum.cong) auto
  then show ?thesis by (simp add: work_def)
qed

subsection \<open>Requests\<close>

text \<open>The requests that wait in the channels from the clients to the head.\<close>

definition waiting_requests :: "conf \<Rightarrow> 'r net \<Rightarrow> u64 list multiset" where
  "waiting_requests C s = (\<Sum>q\<in>unat ` set (cf_clients C). mset (commits REQ_TAG (n_chan s q (core_of C 0))))"

lemma sum_change:
  "finite A \<Longrightarrow> p \<in> A \<Longrightarrow> (\<And>q. q \<in> A \<Longrightarrow> q \<noteq> p \<Longrightarrow> g q = f q) \<Longrightarrow> sum g A + f p = sum f A + (g p :: 'b :: comm_monoid_add)"
proof -
  assume A: "finite A" "p \<in> A" "\<And>q. q \<in> A \<Longrightarrow> q \<noteq> p \<Longrightarrow> g q = f q"
  have "sum g (A - {p}) = sum f (A - {p})" using A(3) by (intro sum.cong) auto
  then show ?thesis
    using sum.remove [OF A(1,2), of g] sum.remove [OF A(1,2), of f] by (simp add: ac_simps)
qed

lemma cancel_middle: "a + b = c + (b + d) \<Longrightarrow> a = c + (d :: 'b multiset)"
  by (metis add.assoc add.commute add_right_cancel)

lemma waiting_push:
  assumes "p \<in> unat ` set (cf_clients C)"
  shows "waiting_requests C (push_chan p d m s) = waiting_requests C s +
    (if d = core_of C 0 then mset (commits REQ_TAG [m]) else {#})"
proof -
  let ?f = "\<lambda>q. mset (commits REQ_TAG (n_chan s q (core_of C 0)))"
    and ?g = "\<lambda>q. mset (commits REQ_TAG (n_chan (push_chan p d m s) q (core_of C 0)))"
  have "sum ?g (unat ` set (cf_clients C)) + ?f p = sum ?f (unat ` set (cf_clients C)) + ?g p"
    by (rule sum_change) (use assms in auto)
  moreover have "?g p = ?f p + (if d = core_of C 0 then mset (commits REQ_TAG [m]) else {#})" by simp
  ultimately have "sum ?g (unat ` set (cf_clients C)) + ?f p = sum ?f (unat ` set (cf_clients C)) +
      (?f p + (if d = core_of C 0 then mset (commits REQ_TAG [m]) else {#}))" by (simp only:)
  then show ?thesis unfolding waiting_requests_def by (rule cancel_middle)
qed

lemma waiting_pop:
  assumes "p \<in> unat ` set (cf_clients C)" and "n_chan s p (core_of C 0) = m # ms"
  shows "waiting_requests C s = waiting_requests C (set_chan p (core_of C 0) ms s) + mset (commits REQ_TAG [m])"
proof -
  let ?f = "\<lambda>q. mset (commits REQ_TAG (n_chan s q (core_of C 0)))"
    and ?g = "\<lambda>q. mset (commits REQ_TAG (n_chan (set_chan p (core_of C 0) ms s) q (core_of C 0)))"
  have "sum ?g (unat ` set (cf_clients C)) + ?f p = sum ?f (unat ` set (cf_clients C)) + ?g p"
    by (rule sum_change) (use assms in auto)
  moreover have "?f p = ?g p + mset (commits REQ_TAG [m])" using assms(2) by simp
  ultimately have "sum ?f (unat ` set (cf_clients C)) + ?g p = sum ?g (unat ` set (cf_clients C)) +
      (?g p + mset (commits REQ_TAG [m]))" by (simp only:)
  then show ?thesis unfolding waiting_requests_def by (rule cancel_middle)
qed

lemma waiting_other:
  assumes "\<And>q. q \<in> unat ` set (cf_clients C) \<Longrightarrow> n_chan s' q (core_of C 0) = n_chan s q (core_of C 0)"
  shows "waiting_requests C s' = waiting_requests C s"
  unfolding waiting_requests_def using assms by (intro sum.cong) auto

subsection \<open>Protocols that make progress\<close>

definition all_served :: "conf \<Rightarrow> 'r net \<Rightarrow> bool" where
  "all_served C s \<longleftrightarrow> (\<forall>p q. \<forall>m \<in> set (n_chan s p q). served C m) \<and>
     (\<forall>i < length (cf_cores C). \<forall>d. \<forall>m \<in> set (sends_to d (n_pend s i)). served C m)"

lemma perform_served:
  "all_served C s \<Longrightarrow> k < length (cf_cores C) \<Longrightarrow> n_pend s k = a # as \<Longrightarrow>
   all_served C (perform C k a (s\<lparr>n_pend := (n_pend s)(k := as)\<rparr>))"
  using perform_every [of C "\<lambda>_ _. served C" s] by (simp add: all_served_def every_msg_def)

lemma perform_upto: "n_pend s k = a # as \<Longrightarrow> upto (perform C k a (s\<lparr>n_pend := (n_pend s)(k := as)\<rparr>)) i = upto s i"
  by (cases a) (auto simp: upto_def)

text \<open>No replica can take a step.\<close>

definition idle :: "conf \<Rightarrow> 'r proto \<Rightarrow> 'r net \<Rightarrow> bool" where
  "idle C P s \<longleftrightarrow> (\<forall>ch. internal ch \<longrightarrow> net_do C P ch s = None)"

text \<open>A test for it over the cores of the configuration.\<close>

definition nothing_left :: "conf \<Rightarrow> 'r proto \<Rightarrow> 'r net \<Rightarrow> bool" where
  "nothing_left C P s \<longleftrightarrow> list_all (\<lambda>i. n_pend s i = [] \<and>
     list_all (\<lambda>q. p_polls P i q \<longrightarrow> n_chan s q (core_of C i) = []) (map unat (cf_cores C @ cf_clients C)))
     [0..<length (cf_cores C)]"

lemma nothing_left_idle:
  assumes "nothing_left C P s"
    and polls: "\<And>i q. i < length (cf_cores C) \<Longrightarrow> p_polls P i q \<Longrightarrow> q \<in> unat ` set (cf_cores C) \<union> unat ` set (cf_clients C)"
  shows "idle C P s"
proof -
  have "n_pend s i = []" "p_polls P i q \<Longrightarrow> n_chan s q (core_of C i) = []" if "i < length (cf_cores C)" for i q
    using assms(1) that polls [of i q] by (auto simp: nothing_left_def list_all_iff)
  then have "net_do C P ch s = None" if "internal ch" for ch
    using that by (cases ch) auto
  then show ?thesis by (simp add: idle_def)
qed

lemma core_in: "i < length (cf_cores C) \<Longrightarrow> core_of C i \<in> unat ` set (cf_cores C)"
  by (simp add: core_of_def)

locale progressing = log_replication proto par ct local
  for proto :: "conf \<Rightarrow> 'r proto" and par ct local +
  fixes ready :: "conf \<Rightarrow> nat \<Rightarrow> 'r ctx \<Rightarrow> bool"
    and good :: "conf \<Rightarrow> bool"
    and weight :: "conf \<Rightarrow> nat \<Rightarrow> msg \<Rightarrow> nat"
  assumes good_head: "good C \<Longrightarrow> 0 < length (cf_cores C)"
    and start_ready: "conf_wf C \<Longrightarrow> good C \<Longrightarrow> i < length (cf_cores C) \<Longrightarrow> p_start (proto C) i c \<Longrightarrow> ready C i c"
    and polls_core: "p_polls (proto C) i q \<Longrightarrow> q < 256"
    and head_polls: "p_polls (proto C) 0 q \<longleftrightarrow> q \<in> unat ` set (cf_clients C)"
    and parent_polled: "0 < i \<Longrightarrow> p_polls (proto C) i (core_of C (par i))"
    and handled: "conf_wf C \<Longrightarrow> good C \<Longrightarrow> i < length (cf_cores C) \<Longrightarrow> ready C i c \<Longrightarrow> served C m \<Longrightarrow>
      \<exists>c'. run_on (proto C) c m = Inr c' \<and> ready C i c' \<and> costs C (proto C) (weight C) i (cx_acts c') < weight C i m \<and>
        (\<forall>d. \<forall>m' \<in> set (sends_to d (cx_acts c')). served C m') \<and> (i = 0 \<longrightarrow> execs (cx_acts c') = commits REQ_TAG [m])"
begin

definition ongoing :: "conf \<Rightarrow> 'r net \<Rightarrow> bool" where
  "ongoing C s \<longleftrightarrow> all_served C s \<and> (\<forall>i < length (cf_cores C). ready C i (n_st s i))"

abbreviation left :: "conf \<Rightarrow> 'r net \<Rightarrow> nat" where
  "left C s \<equiv> work C (proto C) (weight C) s"

definition asked :: "conf \<Rightarrow> 'r net \<Rightarrow> u64 list multiset" where
  "asked C s = mset (upto s 0) + waiting_requests C s"

lemma ongoing_init: "conf_wf C \<Longrightarrow> good C \<Longrightarrow> net_init C (proto C) s \<Longrightarrow> ongoing C s \<and> asked C s = {#}"
  by (auto simp: net_init_def ongoing_def all_served_def asked_def upto_def waiting_requests_def intro: start_ready)

lemma receive_progress:
  assumes C: "conf_wf C" "good C" and inv: "ongoing C s" and st: "net_do C (proto C) (Receive k q) s = Some s'"
  shows "ongoing C s' \<and> left C s' < left C s \<and> asked C s' = asked C s"
proof -
  from st obtain m ms c where k: "k < length (cf_cores C)" and idle: "n_pend s k = []"
    and polls: "p_polls (proto C) k q" and chan: "n_chan s q (core_of C k) = m # ms"
    and run: "run_on (proto C) (n_st s k) m = Inr c"
    and s': "s' = set_chan q (core_of C k) ms
           (s\<lparr>n_st := (n_st s)(k := c), n_pend := (n_pend s)(k := cx_acts c)\<rparr>)"
    by (rule receiveE) blast
  have all: "\<forall>p q. \<forall>m \<in> set (n_chan s p q). served C m" using inv by (simp add: ongoing_def all_served_def)
  then have m: "\<forall>x \<in> set (m # ms). served C x" by (metis chan)
  have rdy: "ready C k (n_st s k)" using inv k by (simp add: ongoing_def)
  have h: "ready C k c" "costs C (proto C) (weight C) k (cx_acts c) < weight C k m"
    "\<forall>d. \<forall>m' \<in> set (sends_to d (cx_acts c)). served C m'" "k = 0 \<longrightarrow> execs (cx_acts c) = commits REQ_TAG [m]"
    using handled [OF C k rdy, of m] m run by auto
  have "ongoing C s'" using inv h(1,3) m by (auto simp: s' ongoing_def all_served_def)
  moreover have "left C s' < left C s"
    unfolding s' by (rule receive_work [OF C(1) k idle polls polls_core [OF polls] chan h(2)])
  moreover have "asked C s' = asked C s"
  proof (cases "k = 0")
    case True
    with polls have q: "q \<in> unat ` set (cf_clients C)" by (simp add: head_polls)
    have "waiting_requests C s = waiting_requests C (set_chan q (core_of C 0) ms s) + mset (commits REQ_TAG [m])"
      by (rule waiting_pop [OF q]) (use chan True in simp)
    moreover have "waiting_requests C s' = waiting_requests C (set_chan q (core_of C 0) ms s)"
      by (rule waiting_other) (simp add: s' True)
    moreover have "upto s' 0 = upto s 0 @ commits REQ_TAG [m]" using h(4) True idle by (simp add: s' upto_def)
    ultimately show ?thesis by (simp add: asked_def)
  next
    case False
    then have "core_of C k \<noteq> core_of C 0" using core_of_inject [OF C(1) k good_head [OF C(2)]] by simp
    then have "waiting_requests C s' = waiting_requests C s" by (intro waiting_other) (simp add: s')
    moreover have "upto s' 0 = upto s 0" using False by (simp add: s' upto_def)
    ultimately show ?thesis by (simp add: asked_def)
  qed
  ultimately show ?thesis by blast
qed

lemma act_progress:
  assumes C: "conf_wf C" and inv: "ongoing C s" and st: "net_do C (proto C) (Act k) s = Some s'"
  shows "ongoing C s' \<and> left C s' < left C s \<and> asked C s' = asked C s"
proof -
  from st obtain a as where k: "k < length (cf_cores C)" and pend: "n_pend s k = a # as"
    and s': "s' = perform C k a (s\<lparr>n_pend := (n_pend s)(k := as)\<rparr>)"
    by (rule actE) blast
  have "ongoing C s'" using inv perform_served [OF _ k pend] by (simp add: ongoing_def s')
  moreover have "left C s' < left C s" unfolding s' using act_work [OF k pend, of "proto C" "weight C"] by linarith
  moreover have "n_chan s' q (core_of C 0) = n_chan s q (core_of C 0)" if "q \<in> unat ` set (cf_clients C)" for q
  proof -
    have "core_of C k \<noteq> q" using core_not_client [OF C k] that by metis
    then show ?thesis by (cases a) (auto simp: s')
  qed
  then have "waiting_requests C s' = waiting_requests C s" by (rule waiting_other)
  then have "asked C s' = asked C s" unfolding asked_def s' perform_upto [OF pend] by simp
  ultimately show ?thesis by blast
qed

lemma client_progress:
  assumes C: "conf_wf C" "good C" and inv: "ongoing C s" and st: "net_do C (proto C) ch s = Some s'"
    and "good_choice C ch" and "\<not> internal ch"
  shows "ongoing C s' \<and> (\<not> sends_request ch \<longrightarrow> left C s' = left C s) \<and> asked C s' = asked C s + mset (requests C [ch])"
proof (cases ch)
  case (Client_send q d m)
  have q: "q \<in> unat ` set (cf_clients C)" and s': "s' = push_chan q d m (s\<lparr>n_sent := n_sent s @ [payload m]\<rparr>)"
    using client_sendD [OF st [unfolded Client_send]] by blast+
  have m: "served C m" using assms(5) Client_send by simp
  have "ongoing C s'" using inv m by (auto simp: ongoing_def all_served_def s')
  moreover have "asked C s' = asked C s + mset (requests C [ch])"
  proof -
    have "waiting_requests C (s\<lparr>n_sent := n_sent s @ [payload m]\<rparr>) = waiting_requests C s" by (rule waiting_other) simp
    then show ?thesis unfolding s' asked_def waiting_push [OF q] Client_send by (simp add: upto_def)
  qed
  ultimately show ?thesis by (simp add: Client_send)
next
  case (Client_recv q p)
  from st [unfolded Client_recv] obtain m ms where q: "q \<in> unat ` set (cf_clients C)" and chan: "n_chan s p q = m # ms"
    and s': "s' = set_chan p q ms s"
    by (rule client_recvE) blast
  have "\<forall>x \<in> set (m # ms). served C x" using inv chan unfolding ongoing_def all_served_def by metis
  then have "ongoing C s'" using inv by (auto simp: ongoing_def all_served_def s')
  moreover have "left C s' = left C s" unfolding s' by (rule client_recv_work [OF C(1) q])
  moreover have "waiting_requests C s' = waiting_requests C s"
  proof (rule waiting_other)
    have "core_of C 0 \<noteq> q" using core_not_client [OF C(1) good_head [OF C(2)]] q by metis
    then show "n_chan s' x (core_of C 0) = n_chan s x (core_of C 0)" for x by (simp add: s')
  qed
  then have "asked C s' = asked C s" by (simp add: asked_def upto_def s')
  ultimately show ?thesis by (simp add: Client_recv)
qed (use assms(6) in simp_all)

lemma step_progress:
  assumes C: "conf_wf C" "good C" and inv: "ongoing C s" and st: "net_do C (proto C) ch s = Some s'" and ch: "good_choice C ch"
  shows "ongoing C s'" and "asked C s' = asked C s + mset (requests C [ch])"
    and "\<not> sends_request ch \<Longrightarrow> (if internal ch then 1 else 0) + left C s' \<le> left C s"
  using receive_progress [OF C inv] act_progress [OF C(1) inv] client_progress [OF C inv st ch] st
  by (cases ch; force)+

text \<open>After a run from the start, the requests sent are those executed or pending at the head or waiting for it.\<close>

lemma run_ongoing:
  assumes C: "conf_wf C" "good C" and init: "net_init C (proto C) s0"
  shows "net_run C (proto C) chs s0 = Some s \<Longrightarrow> \<forall>ch \<in> set chs. good_choice C ch \<Longrightarrow>
    ongoing C s \<and> asked C s = mset (requests C chs)"
proof (induction chs arbitrary: s rule: rev_induct)
  case Nil
  then show ?case using ongoing_init [OF C init] by simp
next
  case (snoc ch chs)
  then obtain s1 where s1: "net_run C (proto C) chs s0 = Some s1" "net_do C (proto C) ch s1 = Some s"
    by (auto simp: net_run_snoc)
  with snoc have "ongoing C s1" "asked C s1 = mset (requests C chs)" "good_choice C ch" by auto
  with step_progress [OF C this(1) s1(2) this(3)] show ?case by (simp add: requests_snoc)
qed

text \<open>Without further requests, every step of a replica uses up work.\<close>

lemma run_bounded:
  assumes C: "conf_wf C" "good C"
  shows "ongoing C s \<Longrightarrow> net_run C (proto C) chs s = Some s' \<Longrightarrow> \<forall>ch \<in> set chs. \<not> sends_request ch \<Longrightarrow>
    ongoing C s' \<and> asked C s' = asked C s \<and> length (filter internal chs) + left C s' \<le> left C s"
proof (induction chs arbitrary: s)
  case Nil
  then show ?case by simp
next
  case (Cons ch chs)
  then obtain s1 where s1: "net_do C (proto C) ch s = Some s1" "net_run C (proto C) chs s1 = Some s'"
    by (auto split: option.splits)
  from Cons.prems(3) have ch: "\<not> sends_request ch" "good_choice C ch" "requests C [ch] = []" by (cases ch; simp)+
  note step = step_progress [OF C Cons.prems(1) s1(1) ch(2)]
  from Cons.IH [OF step(1) s1(2)] Cons.prems(3) step(2) step(3) [OF ch(1)] ch(3) show ?case
    by (auto split: if_splits)
qed

text \<open>When no replica can take a step, nothing is left to do.\<close>

lemma stuck_done:
  assumes C: "conf_wf C" "good C" and inv: "ongoing C s"
    and stuck: "idle C (proto C) s" and i: "i < length (cf_cores C)"
  shows "n_pend s i = []" and "p_polls (proto C) i q \<Longrightarrow> n_chan s q (core_of C i) = []"
proof -
  show pend: "n_pend s i = []"
    using stuck [unfolded idle_def, THEN spec, of "Act i"] i by (simp split: list.splits)
  show "n_chan s q (core_of C i) = []" if polls: "p_polls (proto C) i q"
  proof (cases "n_chan s q (core_of C i)")
    case (Cons m ms)
    then have m: "served C m" using inv unfolding ongoing_def all_served_def by (metis list.set_intros(1))
    have "ready C i (n_st s i)" using inv i by (simp add: ongoing_def)
    from handled [OF C i this m] obtain c' where "run_on (proto C) (n_st s i) m = Inr c'" by blast
    then have "net_do C (proto C) (Receive i q) s \<noteq> None" using Cons polls pend i by (simp add: run_on_def)
    with stuck [unfolded idle_def, THEN spec, of "Receive i q"] show ?thesis by simp
  qed simp
qed

lemma stuck_logs:
  assumes C: "conf_wf C" "good C" and reach: "net_reach C (proto C) s" and inv: "ongoing C s"
    and stuck: "idle C (proto C) s"
  shows "i < length (cf_cores C) \<Longrightarrow> n_log s i = n_log s 0"
proof (induction i rule: less_induct)
  case (less i)
  note finished = stuck_done [OF C inv stuck]
  show ?case
  proof (cases "i = 0")
    case False
    then have p: "par i < i" by (simp add: par_less)
    then have pl: "par i < length (cf_cores C)" using less.prems by simp
    have "linked C ct s (par i) i"
      using replicated_reach [OF reach C(1)] less.prems False by (simp add: replicated_def)
    moreover have "n_chan s (core_of C (par i)) (core_of C i) = []"
      using finished(2) [OF less.prems] parent_polled False by blast
    ultimately have "n_log s i = n_log s (par i)"
      using finished(1) [OF less.prems] finished(1) [OF pl] unfolding linked_def upto_def by simp
    also have "\<dots> = n_log s 0" using less.IH [OF p pl] .
    finally show ?thesis .
  qed simp
qed

theorem all_executed:
  assumes C: "conf_wf C" "good C" and init: "net_init C (proto C) s0"
    and run: "net_run C (proto C) chs s0 = Some s" and ok: "\<forall>ch \<in> set chs. good_choice C ch"
    and more: "net_run C (proto C) chs' s = Some s'" "\<forall>ch \<in> set chs'. \<not> sends_request ch"
  shows "length (filter internal chs') \<le> left C s"
    and "\<lbrakk>idle C (proto C) s'; i < length (cf_cores C)\<rbrakk> \<Longrightarrow>
      n_log s' i = n_log s' 0 \<and> mset (n_log s' i) = mset (requests C chs)"
proof -
  note s = run_ongoing [OF C init run ok]
  note s' = run_bounded [OF C _ more]
  show "length (filter internal chs') \<le> left C s" using s s' by force
  show "n_log s' i = n_log s' 0 \<and> mset (n_log s' i) = mset (requests C chs)"
    if stuck: "idle C (proto C) s'" and i: "i < length (cf_cores C)"
  proof -
    have "net_reach C (proto C) s'"
      using net_run_reach [OF net_run_reach [OF net_reach.init [OF init] run] more(1)] .
    moreover have o: "ongoing C s'" "asked C s' = mset (requests C chs)" using s s' by auto
    ultimately have "n_log s' i = n_log s' 0" using stuck_logs [OF C _ _ stuck i] by blast
    moreover have "waiting_requests C s' = {#}"
      using stuck_done(2) [OF C o(1) stuck good_head [OF C(2)]]
      by (simp add: waiting_requests_def head_polls)
    then have "mset (n_log s' 0) = mset (requests C chs)"
      using o(2) stuck_done(1) [OF C o(1) stuck good_head [OF C(2)]] by (simp add: asked_def upto_def)
    ultimately show ?thesis by simp
  qed
qed

end

end
