(* ===== verification/Chain.thy ===== *)
theory Chain
  imports Progress
begin

text \<open>
  Chain replication, \<^verbatim>\<open>chain_replica.c\<close>: requests enter at replica 0, each replica passes
  the commit on to its right neighbour before it executes, and the tail answers the client.
\<close>

definition CHAIN_COMMIT :: u16 where "CHAIN_COMMIT = 4"

record chain_replica = replica +
  rep_left :: u8
  rep_right :: u8
  is_tail :: bool

subsection \<open>Handlers\<close>

definition update_value_chain :: "chain_replica ctx \<Rightarrow> chain_replica ctx res" where
  "update_value_chain c = st_exec (r_exec (cx_rep c)) c"

definition handle_setup_chain :: "chain_replica ctx \<Rightarrow> chain_replica ctx res" where
  "handle_setup_chain c = st_setup (r_clients (cx_rep c)) (r_num_clients (cx_rep c)) c"

definition handle_request_chain :: "chain_replica ctx \<Rightarrow> chain_replica ctx res" where
  "handle_request_chain c =
     (let r = cx_rep c in
      bindr (do_all [st_start_timer, st_count] c)
        (if r_id r = 0 then
           do_all [st_tag CHAIN_COMMIT,
             st_send_at (r_replicas r) 1,
             if r_level r = NODE_LEVEL
             then do_all [st_when (r_alg_below r \<noteq> ALG_NONE) st_core, update_value_chain]
             else do_all [update_value_chain, st_send (unat (r_started_from r))]]
         else st_print ''Only leader should receive requests ''))"

definition handle_commit_chain :: "chain_replica ctx \<Rightarrow> chain_replica ctx res" where
  "handle_commit_chain c =
     (let r = cx_rep c in
      if r_id r \<noteq> 0 then
        do_all [if \<not> is_tail r then st_send_at (r_replicas r) (unat (rep_right r))
                else do_all [st_tag RESP_TAG, st_reply (r_clients r)],
          st_when (r_alg_below r \<noteq> ALG_NONE) st_core,
          update_value_chain] c
      else st_print ''leader should not receive commit'' c)"

definition message_handler_chain :: "chain_replica ctx \<Rightarrow> chain_replica ctx res" where
  "message_handler_chain c =
     (let t = msg_tag (cx_msg c) in
      if t = SETUP_TAG then handle_setup_chain c
      else if t = REQ_TAG then handle_request_chain c
      else if t = CHAIN_COMMIT then handle_commit_chain c
      else st_print ''unknown type in queue'' c)"

subsection \<open>The message loop\<close>

text \<open>
  One iteration of the loop: \<open>recv\<close> is what the channel of a core holds (Smelt's
  \<^verbatim>\<open>smlt_can_recv\<close> and \<^verbatim>\<open>smlt_recv\<close>); \<open>j\<close> is the index of the client that is polled. A replica
  other than the head only polls its left neighbour.
\<close>

definition message_loop_chain ::
    "(nat \<Rightarrow> msg option) \<Rightarrow> nat \<times> chain_replica ctx \<Rightarrow> (nat \<times> chain_replica ctx) res" where
  "message_loop_chain recv = (\<lambda>(j, c).
     let r = cx_rep c in
     if r_id r = 0 then
       bindr (rd (r_clients r) j) (\<lambda>core.
       bindr (recv_and_handle message_handler_chain (recv (unat core)) c) (\<lambda>c.
         if r_num_clients r = 0 then Inl DivByZero
         else Inr ((j + 1) mod unat (r_num_clients r), c)))
     else
       bindr (rd (r_replicas r) (unat (rep_left r))) (\<lambda>core.
       bindr (recv_and_handle message_handler_chain (recv (unat core)) c) (\<lambda>c. Inr (j, c))))"

subsection \<open>Initialisation\<close>

definition set_execution_fn_chain :: "exec_fn option \<Rightarrow> chain_replica \<Rightarrow> chain_replica" where
  "set_execution_fn_chain f r = r\<lparr>r_exec := f\<rparr>"

definition default_exec_fn_chain :: "'m \<Rightarrow> 'm" where
  "default_exec_fn_chain addr = addr"

text \<open>
  The flag of the result is whether the result thread is started; \<open>is_tail\<close> is false in the
  zero-initialised thread-local structure and only set here.
\<close>

definition init_replica_chain ::
    "u8 \<Rightarrow> u8 \<Rightarrow> u8 \<Rightarrow> u8 \<Rightarrow> u8 \<Rightarrow> u8 \<Rightarrow> u8 \<Rightarrow> u8 \<Rightarrow> u8 list \<Rightarrow> u8 list \<Rightarrow> u8 list \<Rightarrow> exec_fn option \<Rightarrow>
     chain_replica \<Rightarrow> com_thread \<Rightarrow> (chain_replica \<times> com_thread \<times> start list \<times> bool) res" where
  "init_replica_chain i core num_clients num_replicas level alg_below node_size started_from
       cores clients replicas f r t =
     (let r = r\<lparr>r_id := i, r_current_core := core, r_num_clients := num_clients,
            r_num_replicas := num_replicas, r_alg_below := alg_below, r_node_size := node_size,
            r_started_from := started_from, r_cores := cores, r_clients := clients,
            r_replicas := replicas, r_level := level, r_exec := Some (choose_exec f)\<rparr> in
      bindr (if r_alg_below r \<noteq> ALG_NONE
             then com_layer_core_init (r_alg_below r) (r_id r) (r_current_core r) (r_cores r)
                    (r_node_size r) 24 (r_exec r) t
             else Inr (t, [])) (\<lambda>(t, ss).
      let r = (if unat (r_id r) + 1 = unat (r_num_replicas r) then r\<lparr>is_tail := True\<rparr> else r);
          r = r\<lparr>rep_left := r_id r - 1, rep_right := r_id r + 1\<rparr> in
      Inr (r, t, ss, i = 0)))"

subsection \<open>Throughput results\<close>

definition print_results_chain ::
    "bool \<Rightarrow> 'd fops \<Rightarrow> chain_replica \<Rightarrow> 'd results \<Rightarrow> 'd results res" where
  "print_results_chain smlt F rep =
     results_table F
       ((if smlt then ''results/tp_adaptivetree_chain_num_''
         else ''results/tp_chain_below_'' @ dec (unat (r_alg_below rep)) @ ''_num_'') @
        dec (unat (r_num_replicas rep)) @ ''_numc_'' @ dec (unat (r_num_clients rep)))
       (replica.truncate rep)"

definition results_chain ::
    "bool \<Rightarrow> 'd fops \<Rightarrow> chain_replica \<Rightarrow> u64 list \<Rightarrow> 'd results \<times> measure \<Rightarrow>
     ('d results \<times> u64 list) res" where
  "results_chain smlt F rep = results_loop F (print_results_chain smlt F rep)"

subsection \<open>What a handler does\<close>

lemma chain_request_Inr:
  assumes "handle_request_chain c = Inr c'" and "r_level (cx_rep c) = NODE_LEVEL"
  shows "cx_rep c' = cx_rep c \<and>
    (if r_id (cx_rep c) = 0 then
       \<exists>f as. r_exec (cx_rep c) = Some f \<and> 1 < length (r_replicas (cx_rep c)) \<and> silent as \<and>
         cx_acts c' = cx_acts c @ [Send (unat (r_replicas (cx_rep c) ! 1)) (put_tag 0 CHAIN_COMMIT (cx_msg c))] @
           as @ [Exec f (payload (cx_msg c))]
     else cx_acts c' = cx_acts c @ [Print ''Only leader should receive requests ''])"
  using assms
  by (auto simp: handle_request_chain_def Let_def res_simps stmts update_value_chain_def
      split: option.splits dest!: st_below_Inr)

lemma chain_commit_Inr:
  assumes "handle_commit_chain c = Inr c'"
  shows "cx_rep c' = cx_rep c \<and>
    (if r_id (cx_rep c) \<noteq> 0 then
       \<exists>f as d t. r_exec (cx_rep c) = Some f \<and> silent as \<and>
         cx_acts c' = cx_acts c @ [Send d (put_tag 0 t (cx_msg c))] @ as @ [Exec f (payload (cx_msg c))] \<and>
         (if is_tail (cx_rep c)
          then t = RESP_TAG \<and> unat (msg_cid (cx_msg c)) < length (r_clients (cx_rep c)) \<and>
            d = unat (r_clients (cx_rep c) ! unat (msg_cid (cx_msg c)))
          else t = msg_tag (cx_msg c) \<and> unat (rep_right (cx_rep c)) < length (r_replicas (cx_rep c)) \<and>
            d = unat (r_replicas (cx_rep c) ! unat (rep_right (cx_rep c))))
     else cx_acts c' = cx_acts c @ [Print ''leader should not receive commit''])"
proof -
  have same: "put_tag 0 (msg_tag (cx_msg c)) (cx_msg c) = cx_msg c"
    by (simp add: put_tag_def msg_tag_def hdr)
  show ?thesis
    using assms
    by (auto simp: handle_commit_chain_def Let_def res_simps stmts update_value_chain_def same hdr
      split: option.splits if_splits dest!: st_below_Inr)
qed

subsection \<open>Replication\<close>

definition zero_chain :: chain_replica where
  "zero_chain = replica.extend zero_replica (chain_replica.fields 0 0 False)"

definition chain_init :: "conf \<Rightarrow> nat \<Rightarrow> (chain_replica \<times> com_thread \<times> start list \<times> bool) res" where
  "chain_init C i = init_replica_chain (of_nat i) (cf_cores C ! i) (of_nat (length (cf_clients C)))
     (of_nat (length (cf_cores C))) NODE_LEVEL (cf_below C) (cf_node_size C) 0 (cf_node_cores C i)
     (cf_clients C) (cf_cores C) (cf_exec C) zero_chain replica_thread"

definition chain_start :: "conf \<Rightarrow> nat \<Rightarrow> chain_replica ctx \<Rightarrow> bool" where
  "chain_start C i c = (case chain_init C i of Inl _ \<Rightarrow> False
     | Inr (r, t, _) \<Rightarrow> cx_rep c = r \<and> cx_com c = ct_core t)"

definition chain_proto :: "conf \<Rightarrow> chain_replica proto" where
  "chain_proto C = \<lparr>p_handler = message_handler_chain,
     p_polls = (\<lambda>i q. if i = 0 then q \<in> unat ` set (cf_clients C) else q = core_of C (i - 1)),
     p_start = chain_start C\<rparr>"

definition chain_local :: "conf \<Rightarrow> nat \<Rightarrow> chain_replica ctx \<Rightarrow> bool" where
  "chain_local C i c \<longleftrightarrow> (let r = cx_rep c in
     unat (r_id r) = i \<and> r_replicas r = cf_cores C \<and> r_clients r = cf_clients C \<and>
     unat (r_num_clients r) = length (cf_clients C) \<and> r_level r = NODE_LEVEL \<and>
     r_exec r = Some (choose_exec (cf_exec C)) \<and> (is_tail r \<longleftrightarrow> i + 1 = length (cf_cores C)) \<and>
     unat (rep_right r) = i + 1 \<and> (0 < i \<longrightarrow> unat (rep_left r) = i - 1))"

lemma init_replica_chain_rep:
  assumes "init_replica_chain i core nc nr lv ab ns sf cs cl rs f r t = Inr (r', t', ss, b)"
  shows "r_id r' = i \<and> r_replicas r' = rs \<and> r_clients r' = cl \<and> r_num_clients r' = nc \<and>
    r_level r' = lv \<and> r_alg_below r' = ab \<and> r_exec r' = Some (choose_exec f) \<and> rep_left r' = i - 1 \<and> rep_right r' = i + 1 \<and>
    (is_tail r' \<longleftrightarrow> is_tail r \<or> unat i + 1 = unat nr) \<and> (b \<longleftrightarrow> i = 0)"
  using assms unfolding init_replica_chain_def Let_def bindr_eq_Inr
  by (elim exE conjE) (cases "unat i + 1 = unat nr"; clarsimp)

lemma chain_start_local:
  assumes "conf_wf C" and i: "i < length (cf_cores C)" and "chain_start C i c"
  shows "chain_local C i c"
proof -
  have n: "length (cf_cores C) \<le> 64" "length (cf_clients C) \<le> 64"
    using assms(1) by (auto simp: conf_wf_def)
  have w: "unat (of_nat i :: u8) = i" "unat (of_nat (length (cf_cores C)) :: u8) = length (cf_cores C)"
    "unat (of_nat (length (cf_clients C)) :: u8) = length (cf_clients C)"
    using n i by (auto intro!: small_word)
  have "unat (of_nat i + 1 :: u8) = i + 1" using w n i by (simp add: unat_word_ariths)
  moreover have "0 < i \<Longrightarrow> unat (of_nat i - 1 :: u8) = i - 1"
    using w n i by (subst unat_sub) (simp_all add: word_le_nat_alt)
  moreover obtain t' ss b where "chain_init C i = Inr (cx_rep c, t', ss, b)"
    using assms(3) by (auto simp: chain_start_def split: sum.splits)
  note init = init_replica_chain_rep [OF this [unfolded chain_init_def]]
  moreover have "\<not> is_tail zero_chain"
    by (simp add: zero_chain_def replica.defs chain_replica.defs)
  ultimately show ?thesis using init w by (simp add: chain_local_def Let_def)
qed

lemma chain_handler_rep:
  assumes "message_handler_chain c = Inr c'" and "wf_msg (cx_msg c)"
    and "r_level (cx_rep c) = NODE_LEVEL"
  shows "cx_rep c' = cx_rep c"
  using assms
  by (auto simp: message_handler_chain_def Let_def handle_setup_chain_def stmts split: if_splits
      dest!: setup_Inr chain_commit_Inr chain_request_Inr)

lemma chain_actions:
  assumes C: "conf_wf C" and i: "i < length (cf_cores C)" and loc: "chain_local C i c"
    and wf: "wf_msg m" and run: "run_on (chain_proto C) c m = Inr c'"
  shows "(msg_tag m = SETUP_TAG \<and> (\<exists>d m'. wf_msg m' \<and> msg_tag m' = SETUP_TAG \<and> cx_acts c' = [Send d m'])) \<or>
    (\<exists>s. cx_acts c' = [Print s] \<and> (msg_tag m = CHAIN_COMMIT \<longrightarrow> i = 0)) \<or>
    (i = 0 \<and> msg_tag m = REQ_TAG \<and> 1 < length (cf_cores C) \<and> (\<exists>f as. silent as \<and>
       cx_acts c' = [Send (core_of C 1) (put_tag 0 CHAIN_COMMIT m)] @ as @ [Exec f (payload m)])) \<or>
    (0 < i \<and> msg_tag m = CHAIN_COMMIT \<and> (\<exists>f as d m'. silent as \<and> wf_msg m' \<and> payload m' = payload m \<and>
       cx_acts c' = [Send d m'] @ as @ [Exec f (payload m)] \<and>
       (if i + 1 < length (cf_cores C) then d = core_of C (i + 1) \<and> msg_tag m' = CHAIN_COMMIT
        else d \<in> unat ` set (cf_clients C) \<and> msg_tag m' = RESP_TAG)))"
proof -
  let ?c = "c\<lparr>cx_msg := m, cx_acts := []\<rparr>"
  have run': "message_handler_chain ?c = Inr c'" using run by (simp add: run_on_def chain_proto_def)
  have l: "unat (r_id (cx_rep c)) = i" "r_replicas (cx_rep c) = cf_cores C"
    "r_clients (cx_rep c) = cf_clients C" "r_level (cx_rep c) = NODE_LEVEL"
    "is_tail (cx_rep c) \<longleftrightarrow> i + 1 = length (cf_cores C)" "unat (rep_right (cx_rep c)) = i + 1"
    using loc by (auto simp: chain_local_def Let_def)
  have id0: "r_id (cx_rep c) = 0 \<longleftrightarrow> i = 0" using l(1) by (metis unat_0 unat_eq_0)
  consider (start) "msg_tag m = SETUP_TAG" "handle_setup_chain ?c = Inr c'"
    | (req) "msg_tag m = REQ_TAG" "handle_request_chain ?c = Inr c'"
    | (commit) "msg_tag m = CHAIN_COMMIT" "handle_commit_chain ?c = Inr c'"
    | (other) "msg_tag m \<noteq> CHAIN_COMMIT" "\<exists>s. cx_acts c' = [Print s]"
    using run' by (auto simp: message_handler_chain_def Let_def stmts split: if_splits)
  then show ?thesis
  proof cases
    case start
    then show ?thesis using setup_Inr [of _ _ ?c c'] wf unfolding handle_setup_chain_def by force
  next
    case req
    have "if i = 0 then \<exists>f as. r_exec (cx_rep c) = Some f \<and> 1 < length (cf_cores C) \<and> silent as \<and>
        cx_acts c' = [Send (core_of C 1) (put_tag 0 CHAIN_COMMIT m)] @ as @ [Exec f (payload m)]
      else cx_acts c' = [Print ''Only leader should receive requests '']"
      using chain_request_Inr [OF req(2)] l id0 by (cases "i = 0") (simp_all add: core_of_def)
    with req(1) show ?thesis by (auto simp: CHAIN_COMMIT_def REQ_TAG_def split: if_splits)
  next
    case commit
    note co = chain_commit_Inr [OF commit(2)]
    show ?thesis
    proof (cases "i = 0")
      case True
      with co id0 show ?thesis by auto
    next
      case False
      then obtain f as d t where d: "silent as"
          "cx_acts c' = [Send d (put_tag 0 t m)] @ as @ [Exec f (payload m)]"
          "if i + 1 = length (cf_cores C)
           then t = RESP_TAG \<and> unat (msg_cid m) < length (cf_clients C) \<and> d = unat (cf_clients C ! unat (msg_cid m))
           else t = CHAIN_COMMIT \<and> d = core_of C (i + 1)"
        using co id0 l commit(1) by (auto simp: core_of_def split: if_splits)
      have "wf_msg (put_tag 0 t m)" "payload (put_tag 0 t m) = payload m" "msg_tag (put_tag 0 t m) = t"
        using wf by (simp_all add: hdr)
      moreover from this have "if i + 1 < length (cf_cores C)
          then d = core_of C (i + 1) \<and> msg_tag (put_tag 0 t m) = CHAIN_COMMIT
          else d \<in> unat ` set (cf_clients C) \<and> msg_tag (put_tag 0 t m) = RESP_TAG"
        using d(3) i by (auto split: if_splits)
      ultimately show ?thesis using False commit(1) d(1,2) by blast
    qed
  next
    case other
    then show ?thesis by blast
  qed
qed

lemma chain_tags [simp]:
  "SETUP_TAG \<noteq> CHAIN_COMMIT" "RESP_TAG \<noteq> CHAIN_COMMIT" "REQ_TAG \<noteq> CHAIN_COMMIT"
  "CHAIN_COMMIT \<noteq> SETUP_TAG" "CHAIN_COMMIT \<noteq> RESP_TAG" "CHAIN_COMMIT \<noteq> REQ_TAG"
  by (simp_all add: algs CHAIN_COMMIT_def)

lemma chain_proto_simps [simp]:
  "p_handler (chain_proto C) = message_handler_chain" "p_start (chain_proto C) = chain_start C"
  "0 < i \<Longrightarrow> p_polls (chain_proto C) i q \<longleftrightarrow> q = core_of C (i - 1)"
  by (simp_all add: chain_proto_def)

lemma chain_keep_local:
  "chain_local C i c \<Longrightarrow> wf_msg m \<Longrightarrow> run_on (chain_proto C) c m = Inr c' \<Longrightarrow> chain_local C i c'"
  using chain_handler_rep [of "c\<lparr>cx_msg := m, cx_acts := []\<rparr>" c']
  by (simp add: chain_local_def run_on_def Let_def)

lemma chain_sends_wf:
  assumes "conf_wf C" and "i < length (cf_cores C)" and "chain_local C i c" and "wf_msg m"
    and "run_on (chain_proto C) c m = Inr c'" and "m' \<in> set (sends_to d (cx_acts c'))"
  shows "wf_msg m' \<and> (msg_tag m' = SETUP_TAG \<or> (msg_tag m \<noteq> SETUP_TAG \<and> payload m' = payload m))"
  using chain_actions [OF assms(1-5)] assms(4,6) by (auto split: if_splits)

lemma chain_child_law:
  assumes "conf_wf C" and "i < length (cf_cores C)" and "chain_local C i c" and "wf_msg m"
    and "run_on (chain_proto C) c m = Inr c'" and "0 < i"
  shows "execs (cx_acts c') = commits CHAIN_COMMIT [m]"
  using chain_actions [OF assms(1-5)] assms(6) by auto

lemma chain_parent_law:
  assumes "conf_wf C" and "0 < i" and "i < length (cf_cores C)" and "chain_local C (i - 1) c"
    and "wf_msg m" and "run_on (chain_proto C) c m = Inr c'"
  shows "execs (cx_acts c') = commits CHAIN_COMMIT (sends_to (core_of C i) (cx_acts c'))"
proof -
  have p: "i - 1 < length (cf_cores C)" using assms(3) by simp
  have one: "i - 1 = 0 \<Longrightarrow> i = 1" and nx: "i - 1 + 1 = i" using assms(2) by auto
  show ?thesis
    using chain_actions [OF assms(1) p assms(4-6), unfolded nx] assms(3,5) one
    by (elim disjE exE conjE) (auto simp: hdr)
qed

lemma chain_exec_payload:
  assumes "conf_wf C" and "i < length (cf_cores C)" and "chain_local C i c" and "wf_msg m"
    and "run_on (chain_proto C) c m = Inr c'" and "p \<in> set (execs (cx_acts c'))"
  shows "msg_tag m \<noteq> SETUP_TAG \<and> p = payload m"
  using chain_actions [OF assms(1-5)] assms(6) by auto

interpretation chain_log: valid_replication chain_proto "\<lambda>i. i - 1" CHAIN_COMMIT chain_local
proof (unfold_locales, goal_cases)
  case (1 i)
  then show ?case by simp
next
  case (2 C i c)
  then show ?case by (simp add: chain_start_local)
next
  case (3 C i c m c')
  then show ?case by (blast intro: chain_keep_local)
next
  case (4 C i c m c' m' d)
  then show ?case by (blast dest: chain_sends_wf)
next
  case (5 C i q)
  then show ?case by simp
next
  case (6 C i c m c')
  then show ?case by (blast intro: chain_child_law)
next
  case (7 C i c m c')
  then show ?case by (blast intro: chain_parent_law)
next
  case (8 C i c m c' m' d)
  then show ?case by (blast dest: chain_sends_wf)
next
  case (9 C i c m c' p)
  then show ?case by (blast dest: chain_exec_payload)
qed

subsection \<open>Progress\<close>

lemma chain_serve:
  assumes "conf_wf C" and "i < length (cf_cores C)" and "1 < length (cf_cores C)"
    and "chain_local C i c" and "r_alg_below (cx_rep c) = ALG_NONE" and "wf_msg m"
    and "unat (msg_cid m) < length (cf_clients C)"
    and "msg_tag m = (if i = 0 then REQ_TAG else CHAIN_COMMIT)"
  shows "\<exists>c' d m'. run_on (chain_proto C) c m = Inr c' \<and>
    cx_acts c' = [Send d m', Exec (choose_exec (cf_exec C)) (payload m)] \<and>
    msg_cid m' = msg_cid m \<and> msg_rid m' = msg_rid m \<and> payload m' = payload m \<and>
    (if i + 1 < length (cf_cores C) then d = core_of C (i + 1) \<and> msg_tag m' = CHAIN_COMMIT
     else d = unat (cf_clients C ! unat (msg_cid m)) \<and> msg_tag m' = RESP_TAG)"
proof -
  have l: "unat (r_id (cx_rep c)) = i" "r_replicas (cx_rep c) = cf_cores C"
    "r_clients (cx_rep c) = cf_clients C" "r_level (cx_rep c) = NODE_LEVEL"
    "r_exec (cx_rep c) = Some (choose_exec (cf_exec C))"
    "is_tail (cx_rep c) \<longleftrightarrow> i + 1 = length (cf_cores C)" "unat (rep_right (cx_rep c)) = i + 1"
    using assms(4) by (auto simp: chain_local_def Let_def)
  have id0: "r_id (cx_rep c) = 0 \<longleftrightarrow> i = 0" using l(1) by (metis unat_0 unat_eq_0)
  show ?thesis
  proof (cases "i = 0")
    case True
    then show ?thesis
      using assms(3,5,6,8) l id0
      by (simp add: run_on_def message_handler_chain_def Let_def handle_request_chain_def stmts
          update_value_chain_def st_when_def core_of_def hdr)
  next
    case False
    then show ?thesis
      using assms(2,3,5-8) l id0
      by (cases "i + 1 = length (cf_cores C)")
        (simp_all add: run_on_def message_handler_chain_def Let_def handle_commit_chain_def stmts
          update_value_chain_def st_when_def core_of_def hdr)
  qed
qed

definition chain_ready :: "conf \<Rightarrow> nat \<Rightarrow> chain_replica ctx \<Rightarrow> bool" where
  "chain_ready C i c \<longleftrightarrow> chain_local C i c \<and> r_alg_below (cx_rep c) = ALG_NONE"

definition chain_good :: "conf \<Rightarrow> bool" where
  "chain_good C \<longleftrightarrow> cf_below C = ALG_NONE \<and> 1 < length (cf_cores C)"

text \<open>A message makes three steps at each replica from where it is to the tail.\<close>

definition chain_weight :: "conf \<Rightarrow> nat \<Rightarrow> msg \<Rightarrow> nat" where
  "chain_weight C i m = 3 * (length (cf_cores C) - i)"

lemma chain_start_ready:
  assumes "conf_wf C" and "chain_good C" and "i < length (cf_cores C)" and "chain_start C i c"
  shows "chain_ready C i c"
proof -
  obtain t' ss b where "chain_init C i = Inr (cx_rep c, t', ss, b)"
    using assms(4) by (auto simp: chain_start_def split: sum.splits)
  note init = init_replica_chain_rep [OF this [unfolded chain_init_def]]
  then show ?thesis
    using assms(2) chain_start_local [OF assms(1,3,4)] by (simp add: chain_ready_def chain_good_def)
qed

lemma chain_arrival:
  assumes "conf_wf C" and i: "i < length (cf_cores C)"
  shows "arrival C (chain_proto C) (chain_weight C) (core_of C i) d m \<le> chain_weight C (i + 1) m"
proof (rule arrival_le [OF assms(1)])
  fix j assume j: "j < length (cf_cores C)" "p_polls (chain_proto C) j (core_of C i)"
  then have "0 < j" using core_not_client [OF assms] by (cases j) (auto simp: chain_proto_def)
  with j have "core_of C i = core_of C (j - 1)" by simp
  with j(1) have "i = j - 1" using core_of_inject [OF assms(1) i, of "j - 1"] by simp
  with \<open>0 < j\<close> show "chain_weight C j m \<le> chain_weight C (i + 1) m" by (simp add: chain_weight_def)
qed

text \<open>What is neither a set-up nor for this replica is dropped.\<close>

lemma chain_drops:
  assumes "chain_local C i c" and "msg_tag m \<noteq> SETUP_TAG" and "msg_tag m \<noteq> (if i = 0 then REQ_TAG else CHAIN_COMMIT)"
  shows "\<exists>c' s. run_on (chain_proto C) c m = Inr c' \<and> cx_acts c' = [Print s] \<and> (i = 0 \<longrightarrow> msg_tag m \<noteq> REQ_TAG)"
proof -
  have "r_id (cx_rep c) = 0 \<longleftrightarrow> i = 0" using assms(1) unfolding chain_local_def Let_def by (metis unat_0 unat_eq_0)
  then show ?thesis
    using assms(2,3)
    by (auto simp: run_on_def message_handler_chain_def Let_def handle_request_chain_def handle_commit_chain_def
      stmts split: if_splits)
qed

lemma chain_handled:
  assumes C: "conf_wf C" "chain_good C" and i: "i < length (cf_cores C)" and rdy: "chain_ready C i c" and m: "served C m"
  shows "\<exists>c'. run_on (chain_proto C) c m = Inr c' \<and>
    costs C (chain_proto C) (chain_weight C) i (cx_acts c') < chain_weight C i m \<and>
    (\<forall>d. \<forall>m' \<in> set (sends_to d (cx_acts c')). served C m') \<and> (i = 0 \<longrightarrow> execs (cx_acts c') = commits REQ_TAG [m])"
proof -
  have loc: "chain_local C i c" and below: "r_alg_below (cx_rep c) = ALG_NONE" and m: "wf_msg m" "msg_tag m = SETUP_TAG \<or> unat (msg_cid m) < length (cf_clients C)"
    and big: "1 < length (cf_cores C)"
    using rdy m C(2) by (auto simp: chain_ready_def served_def chain_good_def)
  have arr: "arrival C (chain_proto C) (chain_weight C) (core_of C i) d x + 2 < chain_weight C i m" for d x
    using chain_arrival [OF C(1) i, of d x] i by (simp add: chain_weight_def)
  consider (start) "msg_tag m = SETUP_TAG" | (mine) "msg_tag m = (if i = 0 then REQ_TAG else CHAIN_COMMIT)"
    | (other) "msg_tag m \<noteq> SETUP_TAG" "msg_tag m \<noteq> (if i = 0 then REQ_TAG else CHAIN_COMMIT)" by blast
  then show ?thesis
  proof cases
    case start
    have "unat (r_num_clients (cx_rep c)) \<le> length (r_clients (cx_rep c))" using loc by (simp add: chain_local_def Let_def)
    from setup_answers [of "c\<lparr>cx_msg := m, cx_acts := []\<rparr>", OF _ this] m(1) obtain c' m' where
      "run_on (chain_proto C) c m = Inr c'" "cx_acts c' = [Send (unat (msg_cid m)) m']" "wf_msg m'" "msg_tag m' = SETUP_TAG"
      using start by (auto simp: run_on_def message_handler_chain_def Let_def handle_setup_chain_def)
    with arr [of "unat (msg_cid m)" m'] start show ?thesis by (auto simp: served_def algs)
  next
    case mine
    have cid: "unat (msg_cid m) < length (cf_clients C)" using m(2) mine by (auto split: if_splits)
    from chain_serve [OF C(1) i big loc below m(1) cid mine] obtain c' d m' where c': "run_on (chain_proto C) c m = Inr c'"
        "cx_acts c' = [Send d m', Exec (choose_exec (cf_exec C)) (payload m)]" "msg_cid m' = msg_cid m"
      by blast
    have "wf_msg m'" using chain_sends_wf [OF C(1) i loc m(1) c'(1), of m' d] c'(2) by simp
    with c' cid arr [of d m'] mine show ?thesis by (auto simp: served_def)
  next
    case other
    from chain_drops [OF loc other] obtain c' s where "run_on (chain_proto C) c m = Inr c'" "cx_acts c' = [Print s]"
        "i = 0 \<longrightarrow> msg_tag m \<noteq> REQ_TAG" by blast
    with arr [of 0 m] show ?thesis by auto
  qed
qed

lemma chain_run_rep:
  "chain_local C i c \<Longrightarrow> wf_msg m \<Longrightarrow> run_on (chain_proto C) c m = Inr c' \<Longrightarrow> cx_rep c' = cx_rep c"
  using chain_handler_rep [of "c\<lparr>cx_msg := m, cx_acts := []\<rparr>" c'] by (simp add: chain_local_def run_on_def Let_def)

lemma chain_keep_ready:
  "chain_ready C i c \<Longrightarrow> served C m \<Longrightarrow> run_on (chain_proto C) c m = Inr c' \<Longrightarrow> chain_ready C i c'"
  using chain_run_rep [of C i c m c'] by (simp add: chain_ready_def chain_local_def served_def Let_def)

interpretation chain_live: progressing chain_proto "\<lambda>i. i - 1" CHAIN_COMMIT chain_local chain_ready chain_good chain_weight
proof (unfold_locales, goal_cases)
  case (1 C)
  then have "1 < length (cf_cores C)" by (simp add: chain_good_def)
  then show ?case by linarith
next
  case (2 C i c)
  then show ?case by (simp add: chain_start_ready)
next
  case (3 C i q)
  then show ?case by (auto simp: chain_proto_def core_less clients_less split: if_splits)
next
  case (4 C q)
  then show ?case by (simp add: chain_proto_def)
next
  case (5 i C)
  then show ?case by simp
next
  case (6 C i c m)
  then show ?case using chain_handled [OF 6] chain_keep_ready [OF 6(4,5)] by blast
qed

subsection \<open>Properties\<close>

text \<open>
  C1: chain replication agrees: however the replicas' steps and the channels interleave and
  whatever clients send, of the command sequences any two replicas have executed one is a
  prefix of the other, and once nothing is pending or in transit they are equal.
\<close>

theorem chain_agreement:
  assumes "conf_wf C" and "net_reach C (chain_proto C) s"
    and "i < length (cf_cores C)" and "j < length (cf_cores C)"
  shows "(prefix (n_log s i) (n_log s j) \<or> prefix (n_log s j) (n_log s i)) \<and>
    (chain_log.quiet C s \<longrightarrow> n_log s i = n_log s j)"
  using chain_log.agreement [OF assms] chain_log.quiet_same [OF assms(1,2) _ assms(3)]
    chain_log.quiet_same [OF assms(1,2) _ assms(4)] by simp

text \<open>
  Chain replication is valid: a replica only executes commands that a client has sent, and
  no replica executes a command before it is in the log of the head.
\<close>

theorem chain_validity:
  assumes "conf_wf C" and "net_reach C (chain_proto C) s" and "i < length (cf_cores C)"
  shows "set (n_log s i) \<subseteq> set (n_sent s) \<and> prefix (n_log s i) (n_log s 0 @ execs (n_pend s 0))"
  using chain_log.validity [OF assms] chain_log.executed_prefix [OF assms] by (simp add: upto_def)

text \<open>
  What a replica of a chain of at least two does with a request of a known client, at the
  head, or with a commit, further down: it never faults; it passes the command on with the
  commit tag, or at the tail answers the client the header names, and then executes it, once,
  leaving client id, request id and command as they are.
\<close>

theorem chain_step_actions:
  assumes "conf_wf C" and "i < length (cf_cores C)" and "1 < length (cf_cores C)"
    and "chain_local C i c" and "r_alg_below (cx_rep c) = ALG_NONE" and "wf_msg m"
    and "unat (msg_cid m) < length (cf_clients C)"
    and "msg_tag m = (if i = 0 then REQ_TAG else CHAIN_COMMIT)"
  shows "\<exists>c' d m'. run_on (chain_proto C) c m = Inr c' \<and>
    cx_acts c' = [Send d m', Exec (choose_exec (cf_exec C)) (payload m)] \<and>
    msg_cid m' = msg_cid m \<and> msg_rid m' = msg_rid m \<and> payload m' = payload m \<and>
    (if i + 1 < length (cf_cores C) then d = core_of C (i + 1) \<and> msg_tag m' = CHAIN_COMMIT
     else d = unat (cf_clients C ! unat (msg_cid m)) \<and> msg_tag m' = RESP_TAG)"
  by (rule chain_serve [OF assms])

text \<open>
  C7: chain replication makes progress, for a chain of at least two replicas without a core
  level below whose clients put an index of a client into their requests. From the time the
  clients stop sending, however the steps interleave, the replicas take at most as many steps
  as the work that is left says, each of the channels' messages weighing three steps per
  replica from its receiver to the tail; and when no replica can take a step any more, every
  replica has executed every request the clients sent to the head, each as often as it was
  sent, and in the same order.
\<close>

theorem chain_liveness:
  assumes "conf_wf C" and "cf_below C = ALG_NONE" and "1 < length (cf_cores C)"
    and "net_init C (chain_proto C) s0" and "net_run C (chain_proto C) chs s0 = Some s"
    and "\<forall>ch \<in> set chs. good_choice C ch"
    and "net_run C (chain_proto C) chs' s = Some s'" and "\<forall>ch \<in> set chs'. \<not> sends_request ch"
  shows "length (filter internal chs') \<le> work C (chain_proto C) (chain_weight C) s \<and>
    (idle C (chain_proto C) s' \<longrightarrow> (\<forall>i < length (cf_cores C).
       n_log s' i = n_log s' 0 \<and> mset (n_log s' i) = mset (requests C chs)))"
proof -
  have "chain_good C" using assms(2,3) by (simp add: chain_good_def)
  note chain_live.all_executed [OF assms(1) this assms(4-8)]
  then show ?thesis by blast
qed

subsection \<open>Witnesses\<close>

definition chain_example :: "nat \<Rightarrow> chain_replica ctx" where
  "chain_example i = (case chain_init example_conf i of
      Inr (r, t, _) \<Rightarrow> start_ctx r (ct_core t) | Inl _ \<Rightarrow> start_ctx zero_chain zero_layer)"

lemma chain_example_start: "chain_start example_conf i (chain_example i)"
proof -
  have "\<exists>x. chain_init example_conf i = Inr x"
    by (simp add: chain_init_def init_replica_chain_def Let_def example_conf_def)
  then show ?thesis by (auto simp: chain_start_def chain_example_def start_ctx_def)
qed

definition chain_choices :: "choice list" where
  "chain_choices = [Client_send 5 0 example_request, Receive 0 5, Act 0, Receive 1 0, Act 0, Act 1,
     Receive 2 1, Act 2, Act 2, Client_recv 5 2]"

lemma chain_run:
  "case net_run example_conf (chain_proto example_conf) chain_choices (empty_net chain_example) of
     None \<Rightarrow> False
   | Some s \<Rightarrow> n_log s 0 = [[11, 12, 13]] \<and> n_log s 1 = [] \<and> n_log s 2 = [[11, 12, 13]] \<and> n_sent s = [[11, 12, 13]]"
  by code_simp

lemma chain_example_reach:
  "\<exists>s. net_reach example_conf (chain_proto example_conf) s \<and> n_log s 0 = [[11, 12, 13]] \<and>
     n_log s 1 = [] \<and> n_log s 2 = [[11, 12, 13]] \<and> n_sent s = [[11, 12, 13]]"
proof -
  obtain s where s: "net_run example_conf (chain_proto example_conf) chain_choices
      (empty_net chain_example) = Some s"
    and "n_log s 0 = [[11, 12, 13]] \<and> n_log s 1 = [] \<and> n_log s 2 = [[11, 12, 13]] \<and> n_sent s = [[11, 12, 13]]"
    using chain_run by (auto split: option.splits)
  moreover have "net_reach example_conf (chain_proto example_conf) s"
    by (rule example_reach [OF _ s]) (simp add: chain_example_start)
  ultimately show ?thesis by blast
qed

theorem chain_agreement_witness:
  "\<exists>s. net_reach example_conf (chain_proto example_conf) s \<and> n_log s 1 = [] \<and>
     n_log s 2 = [[11, 12, 13]] \<and> (prefix (n_log s 1) (n_log s 2) \<or> prefix (n_log s 2) (n_log s 1))"
proof -
  obtain s where s: "net_reach example_conf (chain_proto example_conf) s" "n_log s 1 = []"
      "n_log s 2 = [[11, 12, 13]]"
    using chain_example_reach by blast
  with chain_agreement [OF example_conf_wf s(1), of 1 2] show ?thesis by auto
qed

theorem chain_validity_witness:
  "\<exists>s. net_reach example_conf (chain_proto example_conf) s \<and> [11, 12, 13] \<in> set (n_sent s)"
proof -
  obtain s where s: "net_reach example_conf (chain_proto example_conf) s" "n_log s 2 = [[11, 12, 13]]"
    using chain_example_reach by blast
  with chain_validity [OF example_conf_wf s(1), of 2] show ?thesis by auto
qed

theorem chain_step_actions_witness:
  "\<exists>c' d m'. run_on (chain_proto example_conf) (chain_example 0) example_request = Inr c' \<and>
     cx_acts c' = [Send d m', Exec (App_exec_fn 1) [11, 12, 13]] \<and> d = 1"
proof -
  have l: "chain_local example_conf 0 (chain_example 0)"
    using chain_start_local [OF example_conf_wf _ chain_example_start] by simp
  have "r_alg_below (cx_rep (chain_example 0)) = ALG_NONE" by code_simp
  with chain_step_actions [OF example_conf_wf _ _ l _ example_request_facts(1) example_request_facts(3)]
    example_request_facts(2,4) show ?thesis
    by (auto simp: example_conf_def core_of_def choose_exec_def)
qed

definition chain_rest :: "choice list" where
  "chain_rest = [Receive 0 5, Act 0, Receive 1 0, Act 0, Act 1, Receive 2 1, Act 2, Act 2, Client_recv 5 2, Act 1]"

lemma chain_polls_in:
  "i < length (cf_cores C) \<Longrightarrow> p_polls (chain_proto C) i q \<Longrightarrow>
   q \<in> unat ` set (cf_cores C) \<union> unat ` set (cf_clients C)"
  using core_in [of "i - 1" C] by (cases "i = 0") (simp_all add: chain_proto_def less_imp_diff_less)

lemma chain_rest_run:
  "case net_run example_conf (chain_proto example_conf) [Client_send 5 0 example_request] (empty_net chain_example) of
     None \<Rightarrow> False
   | Some s \<Rightarrow> (case net_run example_conf (chain_proto example_conf) chain_rest s of None \<Rightarrow> False
       | Some s' \<Rightarrow> nothing_left example_conf (chain_proto example_conf) s')"
  by code_simp

lemma chain_rest_choices:
  "\<forall>ch \<in> set [Client_send 5 0 example_request]. good_choice example_conf ch"
  "\<forall>ch \<in> set chain_rest. \<not> sends_request ch"
  "requests example_conf [Client_send 5 0 example_request] = [[11, 12, 13]]"
  "length (filter internal chain_rest) = 9"
  by code_simp+

theorem chain_liveness_witness:
  "\<exists>s s'. net_run example_conf (chain_proto example_conf) chain_rest s = Some s' \<and>
     9 \<le> work example_conf (chain_proto example_conf) (chain_weight example_conf) s \<and> n_log s' 1 = [[11, 12, 13]]"
proof -
  let ?P = "chain_proto example_conf"
  obtain s s' where s: "net_run example_conf ?P [Client_send 5 0 example_request] (empty_net chain_example) = Some s"
      and s': "net_run example_conf ?P chain_rest s = Some s'" and "nothing_left example_conf ?P s'"
    using chain_rest_run by (auto split: option.splits)
  then have idle: "idle example_conf ?P s'" using nothing_left_idle chain_polls_in by blast
  have init: "net_init example_conf ?P (empty_net chain_example)"
    by (simp add: net_init_def empty_net_def chain_example_start)
  have conf: "cf_below example_conf = ALG_NONE" "1 < length (cf_cores example_conf)" by (simp_all add: example_conf_def)
  note live = chain_liveness [OF example_conf_wf conf init s chain_rest_choices(1) s' chain_rest_choices(2)]
  have "9 \<le> work example_conf ?P (chain_weight example_conf) s" using live chain_rest_choices(4) by (simp only:)
  moreover have "1 < length (cf_cores example_conf)" by simp
  then have "mset (n_log s' 1) = mset [[11, 12, 13]]"
    using live [THEN conjunct2, rule_format, OF idle, of 1] unfolding chain_rest_choices(3) by blast
  then have "n_log s' 1 = [[11, 12, 13]]" by simp
  ultimately show ?thesis using s' by blast
qed

end
