(* ===== verification/Broadcast.thy ===== *)
theory Broadcast
  imports Progress
begin

text \<open>
  The broadcast protocol, \<^verbatim>\<open>broadcast_replica.c\<close>: replica 0 orders the requests, sends each
  to all other replicas, executes it and answers the client. \<open>smlt\<close> is the build flag
  \<^verbatim>\<open>SMLT\<close>, under which the replica uses Smelt's broadcast instead of point-to-point sends.
\<close>

definition BROAD_COMMIT :: u16 where "BROAD_COMMIT = 4"

subsection \<open>Handlers\<close>

definition update_value_broadcast :: "replica ctx \<Rightarrow> replica ctx res" where
  "update_value_broadcast c = st_exec (r_exec (cx_rep c)) c"

definition handle_setup_broadcast :: "replica ctx \<Rightarrow> replica ctx res" where
  "handle_setup_broadcast c = st_setup (r_clients (cx_rep c)) (r_num_clients (cx_rep c)) c"

definition handle_request_broadcast :: "bool \<Rightarrow> replica ctx \<Rightarrow> replica ctx res" where
  "handle_request_broadcast smlt c =
     (let r = cx_rep c in
      bindr (do_all [st_start_timer, st_count] c)
        (if r_id r = 0 then
           do_all [st_tag BROAD_COMMIT,
             if smlt then st_bcast else st_send_others (r_replicas r) (r_num_replicas r),
             if r_level r = NODE_LEVEL
             then do_all [st_when (r_alg_below r \<noteq> ALG_NONE) st_core,
                    update_value_broadcast, st_reply (r_clients r)]
             else do_all [update_value_broadcast, st_send (unat (r_started_from r))]]
         else st_print ''Only leader should receive requests ''))"

definition handle_commit_broadcast :: "replica ctx \<Rightarrow> replica ctx res" where
  "handle_commit_broadcast c =
     (let r = cx_rep c in
      if r_id r \<noteq> 0 then
        do_all [st_when (r_alg_below r \<noteq> ALG_NONE) st_core, update_value_broadcast] c
      else st_print ''leader should not receive commit'' c)"

definition message_handler_broadcast :: "bool \<Rightarrow> replica ctx \<Rightarrow> replica ctx res" where
  "message_handler_broadcast smlt c =
     (let t = msg_tag (cx_msg c) in
      if t = SETUP_TAG then handle_setup_broadcast c
      else if t = REQ_TAG then handle_request_broadcast smlt c
      else if t = BROAD_COMMIT then handle_commit_broadcast c
      else st_print ''unknown type in queue'' c)"

subsection \<open>The message loops\<close>

text \<open>One iteration; \<open>bcast\<close> is the next message of Smelt's broadcast tree.\<close>

definition leader_loop_broadcast ::
    "bool \<Rightarrow> (nat \<Rightarrow> msg option) \<Rightarrow> nat \<times> replica ctx \<Rightarrow> (nat \<times> replica ctx) res" where
  "leader_loop_broadcast smlt recv = (\<lambda>(j, c).
     let r = cx_rep c in
     bindr (rd (r_clients r) j) (\<lambda>core.
     bindr (recv_and_handle (message_handler_broadcast smlt) (recv (unat core)) c) (\<lambda>c.
       if r_num_clients r = 0 then Inl DivByZero
       else Inr ((j + 1) mod unat (r_num_clients r), c))))"

definition message_loop_broadcast_smlt ::
    "(nat \<Rightarrow> msg option) \<Rightarrow> msg \<Rightarrow> nat \<times> replica ctx \<Rightarrow> (nat \<times> replica ctx) res" where
  "message_loop_broadcast_smlt recv bcast = (\<lambda>(j, c).
     if r_id (cx_rep c) = 0 then leader_loop_broadcast True recv (j, c)
     else bindr (message_handler_broadcast True (c\<lparr>cx_msg := bcast\<rparr>)) (\<lambda>c. Inr (j, c)))"

definition message_loop_broadcast ::
    "(nat \<Rightarrow> msg option) \<Rightarrow> nat \<times> replica ctx \<Rightarrow> (nat \<times> replica ctx) res" where
  "message_loop_broadcast recv = (\<lambda>(j, c).
     let r = cx_rep c in
     if r_id r = 0 then leader_loop_broadcast False recv (j, c)
     else bindr (rd (r_replicas r) 0) (\<lambda>core.
       bindr (recv_and_handle (message_handler_broadcast False) (recv (unat core)) c)
         (\<lambda>c. Inr (j, c))))"

subsection \<open>Initialisation\<close>

definition set_execution_fn_broadcast :: "exec_fn option \<Rightarrow> replica \<Rightarrow> replica" where
  "set_execution_fn_broadcast f r = r\<lparr>r_exec := f\<rparr>"

definition default_exec_fn_broadcast :: "'m \<Rightarrow> 'm" where
  "default_exec_fn_broadcast addr = addr"

definition init_replica_broadcast ::
    "u8 \<Rightarrow> u8 \<Rightarrow> u8 \<Rightarrow> u8 \<Rightarrow> u8 \<Rightarrow> u8 \<Rightarrow> u8 \<Rightarrow> u8 \<Rightarrow> u8 list \<Rightarrow> u8 list \<Rightarrow> u8 list \<Rightarrow> exec_fn option \<Rightarrow>
     replica \<Rightarrow> com_thread \<Rightarrow> (replica \<times> com_thread \<times> start list \<times> bool) res" where
  "init_replica_broadcast i core num_clients num_replicas level alg_below node_size started_from
       cores clients replicas f r t =
     (let r = r\<lparr>r_id := i, r_current_core := core, r_num_clients := num_clients,
            r_num_replicas := num_replicas, r_alg_below := alg_below, r_node_size := node_size,
            r_started_from := started_from, r_cores := cores, r_clients := clients,
            r_replicas := replicas, r_level := level, r_exec := Some (choose_exec f)\<rparr> in
      bindr (if r_alg_below r \<noteq> ALG_NONE
             then com_layer_core_init (r_alg_below r) (r_id r) (r_current_core r) (r_cores r)
                    (r_node_size r) 24 (r_exec r) t
             else Inr (t, [])) (\<lambda>(t, ss). Inr (r, t, ss, i = 0)))"

subsection \<open>Throughput results\<close>

definition print_results_broad ::
    "bool \<Rightarrow> 'd fops \<Rightarrow> replica \<Rightarrow> 'd results \<Rightarrow> 'd results res" where
  "print_results_broad smlt F rep =
     results_table F
       ((if smlt then ''results/tp_adaptivetree_broad_num_''
         else ''results/tp_broad_below_'' @ dec (unat (r_alg_below rep)) @ ''_num_'') @
        dec (unat (r_num_replicas rep)) @ ''_numc_'' @ dec (unat (r_num_clients rep)))
       rep"

definition results_broad ::
    "bool \<Rightarrow> 'd fops \<Rightarrow> replica \<Rightarrow> u64 list \<Rightarrow> 'd results \<times> measure \<Rightarrow> ('d results \<times> u64 list) res" where
  "results_broad smlt F rep = results_loop F (print_results_broad smlt F rep)"

subsection \<open>What a handler does\<close>

text \<open>The commits of the leader, before Smelt has delivered its broadcast.\<close>

definition commit_sends :: "bool \<Rightarrow> replica \<Rightarrow> msg \<Rightarrow> action list" where
  "commit_sends smlt r x = (if smlt then [Bcast x]
     else map (\<lambda>d. Send (unat d) x) (take (unat (r_num_replicas r) - 1) (drop 1 (r_replicas r))))"

lemma broadcast_request_Inr:
  assumes "handle_request_broadcast smlt c = Inr c'" and "r_level (cx_rep c) = NODE_LEVEL"
    and n: "unat (r_num_replicas (cx_rep c)) \<le> length (r_replicas (cx_rep c))"
  shows "cx_rep c' = cx_rep c \<and>
    (if r_id (cx_rep c) = 0 then
       \<exists>f as m. r_exec (cx_rep c) = Some f \<and> silent as \<and>
         unat (msg_cid m) < length (r_clients (cx_rep c)) \<and>
         (wf_msg (cx_msg c) \<longrightarrow> wf_msg m) \<and> payload m = payload (cx_msg c) \<and>
         cx_acts c' = cx_acts c @ commit_sends smlt (cx_rep c) (put_tag 0 BROAD_COMMIT (cx_msg c)) @
           as @ [Exec f (payload (cx_msg c)), Send (unat (r_clients (cx_rep c) ! unat (msg_cid m))) m]
     else cx_acts c' = cx_acts c @ [Print ''Only leader should receive requests ''])"
proof (cases "r_id (cx_rep c) = 0")
  case False
  then show ?thesis using assms(1) by (auto simp: handle_request_broadcast_def Let_def stmts)
next
  case True
  then show ?thesis
    using assms
    by (cases smlt; auto simp: handle_request_broadcast_def Let_def bindr_eq_Inr st_send_others_eq [OF n]
          update_value_broadcast_def stmts rd_eq_Inr commit_sends_def split: option.splits dest!: st_below_Inr)
qed

lemma broadcast_commit_Inr:
  assumes "handle_commit_broadcast c = Inr c'"
  shows "cx_rep c' = cx_rep c \<and>
    (if r_id (cx_rep c) \<noteq> 0 then
       \<exists>f as. r_exec (cx_rep c) = Some f \<and> silent as \<and>
         cx_acts c' = cx_acts c @ as @ [Exec f (payload (cx_msg c))]
     else cx_acts c' = cx_acts c @ [Print ''leader should not receive commit''])"
  using assms
  by (auto simp: handle_commit_broadcast_def Let_def bindr_eq_Inr stmts update_value_broadcast_def
      split: option.splits if_splits dest!: st_below_Inr)

subsection \<open>Replication\<close>

definition broadcast_init :: "conf \<Rightarrow> nat \<Rightarrow> (replica \<times> com_thread \<times> start list \<times> bool) res" where
  "broadcast_init C i = init_replica_broadcast (of_nat i) (cf_cores C ! i)
     (of_nat (length (cf_clients C))) (of_nat (length (cf_cores C))) NODE_LEVEL (cf_below C)
     (cf_node_size C) 0 (cf_node_cores C i) (cf_clients C) (cf_cores C) (cf_exec C) zero_replica
     replica_thread"

definition broadcast_start :: "conf \<Rightarrow> nat \<Rightarrow> replica ctx \<Rightarrow> bool" where
  "broadcast_start C i c = (case broadcast_init C i of Inl _ \<Rightarrow> False
     | Inr (r, t, _) \<Rightarrow> cx_rep c = r \<and> cx_com c = ct_core t)"

definition broadcast_proto :: "conf \<Rightarrow> replica proto" where
  "broadcast_proto C = \<lparr>p_handler = message_handler_broadcast False,
     p_polls = (\<lambda>i q. if i = 0 then q \<in> unat ` set (cf_clients C) else q = core_of C 0),
     p_start = broadcast_start C\<rparr>"

definition broadcast_local :: "conf \<Rightarrow> nat \<Rightarrow> replica ctx \<Rightarrow> bool" where
  "broadcast_local C i c \<longleftrightarrow> (let r = cx_rep c in
     unat (r_id r) = i \<and> r_replicas r = cf_cores C \<and> r_clients r = cf_clients C \<and>
     unat (r_num_clients r) = length (cf_clients C) \<and>
     unat (r_num_replicas r) = length (cf_cores C) \<and> r_level r = NODE_LEVEL \<and>
     r_exec r = Some (choose_exec (cf_exec C)))"

lemma init_replica_broadcast_rep:
  assumes "init_replica_broadcast i core nc nr lv ab ns sf cs cl rs f r t = Inr (r', t', ss, b)"
  shows "r_id r' = i \<and> r_replicas r' = rs \<and> r_clients r' = cl \<and> r_num_clients r' = nc \<and>
    r_num_replicas r' = nr \<and> r_level r' = lv \<and> r_exec r' = Some (choose_exec f) \<and>
    r_alg_below r' = ab \<and> (b \<longleftrightarrow> i = 0)"
  using assms unfolding init_replica_broadcast_def Let_def bindr_eq_Inr
  by (elim exE conjE) clarsimp

lemma broadcast_start_local:
  assumes "conf_wf C" and i: "i < length (cf_cores C)" and "broadcast_start C i c"
  shows "broadcast_local C i c"
proof -
  obtain t' ss b where "broadcast_init C i = Inr (cx_rep c, t', ss, b)"
    using assms(3) by (auto simp: broadcast_start_def split: sum.splits)
  note init = init_replica_broadcast_rep [OF this [unfolded broadcast_init_def]]
  have "unat (of_nat i :: u8) = i" "unat (of_nat (length (cf_cores C)) :: u8) = length (cf_cores C)"
    "unat (of_nat (length (cf_clients C)) :: u8) = length (cf_clients C)"
    using assms(1) i by (auto intro!: small_word simp: conf_wf_def)
  with init show ?thesis by (simp add: broadcast_local_def Let_def)
qed

lemma broadcast_handler_rep:
  assumes "message_handler_broadcast smlt c = Inr c'" and "wf_msg (cx_msg c)"
    and "r_level (cx_rep c) = NODE_LEVEL"
    and "unat (r_num_replicas (cx_rep c)) \<le> length (r_replicas (cx_rep c))"
  shows "cx_rep c' = cx_rep c"
  using assms
  by (auto simp: message_handler_broadcast_def Let_def handle_setup_broadcast_def stmts
      split: if_splits dest!: setup_Inr broadcast_commit_Inr broadcast_request_Inr)

text \<open>What a replica does with a message in either build, once a broadcast is delivered.\<close>

definition broadcast_does :: "conf \<Rightarrow> nat \<Rightarrow> msg \<Rightarrow> action list \<Rightarrow> bool" where
  "broadcast_does C i m acts \<longleftrightarrow>
    (msg_tag m = SETUP_TAG \<and> (\<exists>d m'. wf_msg m' \<and> msg_tag m' = SETUP_TAG \<and> acts = [Send d m'])) \<or>
    (\<exists>s. acts = [Print s] \<and> (msg_tag m = BROAD_COMMIT \<longrightarrow> i = 0)) \<or>
    (i = 0 \<and> msg_tag m = REQ_TAG \<and> (\<exists>f as m' ds. silent as \<and> wf_msg m' \<and> payload m' = payload m \<and>
       unat (msg_cid m') < length (cf_clients C) \<and> each_other C ds \<and>
       acts = map (\<lambda>d. Send (unat d) (put_tag 0 BROAD_COMMIT m)) ds @
         as @ [Exec f (payload m), Send (unat (cf_clients C ! unat (msg_cid m'))) m'])) \<or>
    (0 < i \<and> msg_tag m = BROAD_COMMIT \<and> (\<exists>f as. silent as \<and> acts = as @ [Exec f (payload m)]))"

lemma spread_silent: "silent as \<Longrightarrow> spread C as = as"
  by (intro spread_none) auto

lemma broadcast_handler_does:
  assumes loc: "broadcast_local C i c" and wf: "wf_msg m"
    and run: "message_handler_broadcast smlt (c\<lparr>cx_msg := m, cx_acts := []\<rparr>) = Inr c'"
  shows "broadcast_does C i m (if smlt then spread C (cx_acts c') else cx_acts c')"
proof -
  let ?c = "c\<lparr>cx_msg := m, cx_acts := []\<rparr>" and ?x = "put_tag 0 BROAD_COMMIT m"
  have l: "unat (r_id (cx_rep c)) = i" "r_replicas (cx_rep c) = cf_cores C"
    "r_clients (cx_rep c) = cf_clients C" "r_level (cx_rep c) = NODE_LEVEL"
    "unat (r_num_replicas (cx_rep c)) = length (cf_cores C)"
    using loc by (auto simp: broadcast_local_def Let_def)
  have id0: "r_id (cx_rep c) = 0 \<longleftrightarrow> i = 0" using l(1) by (metis unat_0 unat_eq_0)
  consider (start) "msg_tag m = SETUP_TAG" "handle_setup_broadcast ?c = Inr c'"
    | (req) "msg_tag m = REQ_TAG" "handle_request_broadcast smlt ?c = Inr c'"
    | (commit) "msg_tag m = BROAD_COMMIT" "handle_commit_broadcast ?c = Inr c'"
    | (other) "msg_tag m \<noteq> BROAD_COMMIT" "\<exists>s. cx_acts c' = [Print s]"
    using run by (auto simp: message_handler_broadcast_def Let_def stmts split: if_splits)
  then show ?thesis
  proof cases
    case start
    then obtain d m' where "wf_msg m'" "msg_tag m' = SETUP_TAG" "cx_acts c' = [Send d m']"
      using setup_Inr [of _ _ ?c c'] wf unfolding handle_setup_broadcast_def by force
    with start(1) show ?thesis by (simp add: broadcast_does_def)
  next
    case req
    show ?thesis
    proof (cases "i = 0")
      case False
      with broadcast_request_Inr [OF req(2)] l id0 req(1) show ?thesis
        by (auto simp: broadcast_does_def algs BROAD_COMMIT_def)
    next
      case True
      let ?ds = "if smlt then bcast_order C ?x else drop 1 (cf_cores C)"
      obtain f as m' where a: "silent as" "unat (msg_cid m') < length (cf_clients C)" "wf_msg m'" "payload m' = payload m"
        "cx_acts c' = commit_sends smlt (cx_rep c) ?x @ as @ [Exec f (payload m), Send (unat (cf_clients C ! unat (msg_cid m'))) m']"
        using broadcast_request_Inr [OF req(2)] l id0 wf True by auto
      have "each_other C ?ds" by (simp add: each_other_cores [simplified])
      moreover have "(if smlt then spread C (cx_acts c') else cx_acts c') = map (\<lambda>d. Send (unat d) ?x) ?ds @
          as @ [Exec f (payload m), Send (unat (cf_clients C ! unat (msg_cid m'))) m']"
        using l by (simp add: a(5) commit_sends_def spread_silent [OF a(1)])
      ultimately show ?thesis using True req(1) a(1-4) unfolding broadcast_does_def by blast
    qed
  next
    case commit
    show ?thesis
    proof (cases "i = 0")
      case True
      with broadcast_commit_Inr [OF commit(2)] id0 show ?thesis by (auto simp: broadcast_does_def)
    next
      case False
      with broadcast_commit_Inr [OF commit(2)] id0 obtain f as where
        "silent as" "cx_acts c' = as @ [Exec f (payload m)]" by auto
      with False commit(1) show ?thesis by (auto simp: broadcast_does_def spread_silent)
    qed
  next
    case other
    then show ?thesis by (auto simp: broadcast_does_def)
  qed
qed

lemma broadcast_actions:
  assumes "broadcast_local C i c" and "wf_msg m" and "run_on (broadcast_proto C) c m = Inr c'"
  shows "broadcast_does C i m (cx_acts c')"
  using broadcast_handler_does [OF assms(1,2), of False c'] assms(3) by (simp add: run_on_def broadcast_proto_def)

lemma broadcast_tags [simp]:
  "SETUP_TAG \<noteq> BROAD_COMMIT" "RESP_TAG \<noteq> BROAD_COMMIT" "REQ_TAG \<noteq> BROAD_COMMIT"
  "BROAD_COMMIT \<noteq> SETUP_TAG" "BROAD_COMMIT \<noteq> RESP_TAG" "BROAD_COMMIT \<noteq> REQ_TAG"
  by (simp_all add: algs BROAD_COMMIT_def)

lemma broadcast_proto_simps [simp]:
  "p_handler (broadcast_proto C) = message_handler_broadcast False"
  "p_start (broadcast_proto C) = broadcast_start C"
  "0 < i \<Longrightarrow> p_polls (broadcast_proto C) i q \<longleftrightarrow> q = core_of C 0"
  by (simp_all add: broadcast_proto_def)

lemma broadcast_keep_local:
  "broadcast_local C i c \<Longrightarrow> wf_msg m \<Longrightarrow> run_on (broadcast_proto C) c m = Inr c' \<Longrightarrow>
   broadcast_local C i c'"
  using broadcast_handler_rep [of _ "c\<lparr>cx_msg := m, cx_acts := []\<rparr>" c']
  by (simp add: broadcast_local_def run_on_def Let_def)

lemma broadcast_does_sends:
  assumes "broadcast_does C i m acts" and "wf_msg m" and "m' \<in> set (sends_to d acts)"
  shows "wf_msg m' \<and> (msg_tag m' = SETUP_TAG \<or> (msg_tag m \<noteq> SETUP_TAG \<and> payload m' = payload m))"
  using assms unfolding broadcast_does_def
  by (elim disjE exE conjE) (auto split: if_splits dest!: sends_to_map_in)

lemma broadcast_does_child: "broadcast_does C i m acts \<Longrightarrow> 0 < i \<Longrightarrow> execs acts = commits BROAD_COMMIT [m]"
  unfolding broadcast_does_def by auto

lemma broadcast_does_parent:
  assumes "broadcast_does C 0 m acts" and "conf_wf C" and "0 < i" and "i < length (cf_cores C)" and "wf_msg m"
  shows "execs acts = commits BROAD_COMMIT (sends_to (core_of C i) acts)"
  using assms(1) send_each_one [OF assms(2-4)] not_client_core [OF assms(2,4)] assms(5) unfolding broadcast_does_def
  by (elim disjE exE conjE) (auto simp: hdr)

lemma broadcast_does_exec: "broadcast_does C i m acts \<Longrightarrow> p \<in> set (execs acts) \<Longrightarrow> msg_tag m \<noteq> SETUP_TAG \<and> p = payload m"
  unfolding broadcast_does_def by (elim disjE exE conjE) auto

lemma broadcast_sends_wf:
  assumes "broadcast_local C i c" and "wf_msg m" and "run_on (broadcast_proto C) c m = Inr c'" and "m' \<in> set (sends_to d (cx_acts c'))"
  shows "wf_msg m' \<and> (msg_tag m' = SETUP_TAG \<or> (msg_tag m \<noteq> SETUP_TAG \<and> payload m' = payload m))"
  by (rule broadcast_does_sends [OF broadcast_actions [OF assms(1-3)] assms(2,4)])

interpretation broadcast_log:
  valid_replication broadcast_proto "\<lambda>_. 0" BROAD_COMMIT broadcast_local
proof (unfold_locales, goal_cases)
  case (1 i)
  then show ?case by simp
next
  case (2 C i c)
  then show ?case by (simp add: broadcast_start_local)
next
  case (3 C i c m c')
  then show ?case by (blast intro: broadcast_keep_local)
next
  case (4 C i c m c' m' d)
  then show ?case using broadcast_sends_wf [OF 4(3-6)] by blast
next
  case (5 C i q)
  then show ?case by simp
next
  case (6 C i c m c')
  show ?case by (rule broadcast_does_child [OF broadcast_actions [OF 6(4-6)] 6(2)])
next
  case (7 C i c m c')
  show ?case by (rule broadcast_does_parent [OF broadcast_actions [OF 7(4-6)] 7(1-3,5)])
next
  case (8 C i c m c' m' d)
  then show ?case using broadcast_sends_wf [OF 8(3-6)] by blast
next
  case (9 C i c m c' p)
  then show ?case using broadcast_does_exec [OF broadcast_actions [OF 9(3-5)] 9(6)] by blast
qed

subsection \<open>Progress\<close>

lemma broadcast_leads:
  assumes "conf_wf C" and "cf_cores C \<noteq> []" and "broadcast_local C 0 c"
    and "r_alg_below (cx_rep c) = ALG_NONE" and "wf_msg m" and "msg_tag m = REQ_TAG"
    and "unat (msg_cid m) < length (cf_clients C)"
  shows "\<exists>c' m'. run_on (broadcast_proto C) c m = Inr c' \<and>
    cx_acts c' = map (\<lambda>d. Send (unat d) m') (tl (cf_cores C)) @
      [Exec (choose_exec (cf_exec C)) (payload m),
       Send (unat (cf_clients C ! unat (msg_cid m))) m'] \<and>
    msg_tag m' = BROAD_COMMIT \<and> msg_cid m' = msg_cid m \<and> msg_rid m' = msg_rid m \<and>
    payload m' = payload m"
proof -
  have l: "unat (r_id (cx_rep c)) = 0" "r_replicas (cx_rep c) = cf_cores C"
    "r_clients (cx_rep c) = cf_clients C" "r_level (cx_rep c) = NODE_LEVEL"
    "unat (r_num_replicas (cx_rep c)) = length (cf_cores C)"
    "r_exec (cx_rep c) = Some (choose_exec (cf_exec C))"
    using assms(3) by (auto simp: broadcast_local_def Let_def)
  then have n: "unat (r_num_replicas (cx_rep c)) \<le> length (cf_cores C)" by simp
  have id0: "r_id (cx_rep c) = 0" using l(1) by (simp add: unat_eq_0)
  show ?thesis
    using assms(4-7) l id0
    by (simp add: run_on_def broadcast_proto_def message_handler_broadcast_def Let_def
        handle_request_broadcast_def st_send_others_eq [OF n] stmts update_value_broadcast_def
        st_when_def hdr drop_Suc)
qed

definition broadcast_ready :: "conf \<Rightarrow> nat \<Rightarrow> replica ctx \<Rightarrow> bool" where
  "broadcast_ready C i c \<longleftrightarrow> broadcast_local C i c \<and> r_alg_below (cx_rep c) = ALG_NONE"

definition broadcast_good :: "conf \<Rightarrow> bool" where
  "broadcast_good C \<longleftrightarrow> cf_below C = ALG_NONE \<and> cf_cores C \<noteq> []"

text \<open>
  A commit makes its receipt and its execution; a request one commit per follower, its own
  execution and the answer.
\<close>

definition broadcast_weight :: "conf \<Rightarrow> nat \<Rightarrow> msg \<Rightarrow> nat" where
  "broadcast_weight C i m = (if i = 0 then 3 * length (cf_cores C) + 2 else 2)"

lemma broadcast_start_ready:
  assumes "conf_wf C" and "broadcast_good C" and "i < length (cf_cores C)" and "broadcast_start C i c"
  shows "broadcast_ready C i c"
proof -
  obtain t' ss b where "broadcast_init C i = Inr (cx_rep c, t', ss, b)"
    using assms(4) by (auto simp: broadcast_start_def split: sum.splits)
  note init = init_replica_broadcast_rep [OF this [unfolded broadcast_init_def]]
  then show ?thesis
    using assms(2) broadcast_start_local [OF assms(1,3,4)] by (simp add: broadcast_ready_def broadcast_good_def)
qed

lemma broadcast_arrival:
  assumes "conf_wf C" and i: "i < length (cf_cores C)"
  shows "arrival C (broadcast_proto C) (broadcast_weight C) (core_of C i) d m \<le> (if i = 0 then 2 else 0)"
proof (rule arrival_le [OF assms(1)])
  fix j assume j: "j < length (cf_cores C)" "p_polls (broadcast_proto C) j (core_of C i)"
  then have "0 < j" using core_not_client [OF assms] by (cases j) (auto simp: broadcast_proto_def)
  moreover have "0 < length (cf_cores C)" using i by linarith
  ultimately have "i = 0" using j core_of_inject [OF assms(1) i, of 0] by simp
  with \<open>0 < j\<close> show "broadcast_weight C j m \<le> (if i = 0 then 2 else 0)" by (simp add: broadcast_weight_def)
qed

lemma broadcast_follows:
  assumes "broadcast_ready C i c" and "msg_tag m = BROAD_COMMIT" and "0 < i"
  shows "\<exists>c' f. run_on (broadcast_proto C) c m = Inr c' \<and> cx_acts c' = [Exec f (payload m)]"
proof -
  have "r_id (cx_rep c) \<noteq> 0" "r_exec (cx_rep c) = Some (choose_exec (cf_exec C))" "r_alg_below (cx_rep c) = ALG_NONE"
    using assms(1,3) by (auto simp: broadcast_ready_def broadcast_local_def Let_def)
  then show ?thesis
    using assms(2) by (simp add: run_on_def message_handler_broadcast_def Let_def handle_commit_broadcast_def
      st_when_def update_value_broadcast_def stmts)
qed

lemma broadcast_drops:
  assumes "broadcast_local C i c" and "msg_tag m \<noteq> SETUP_TAG" and "msg_tag m \<noteq> (if i = 0 then REQ_TAG else BROAD_COMMIT)"
  shows "\<exists>c' s. run_on (broadcast_proto C) c m = Inr c' \<and> cx_acts c' = [Print s] \<and> (i = 0 \<longrightarrow> msg_tag m \<noteq> REQ_TAG)"
proof -
  have "r_id (cx_rep c) = 0 \<longleftrightarrow> i = 0" using assms(1) unfolding broadcast_local_def Let_def by (metis unat_0 unat_eq_0)
  then show ?thesis
    using assms(2,3)
    by (auto simp: run_on_def message_handler_broadcast_def Let_def handle_request_broadcast_def
      handle_commit_broadcast_def stmts split: if_splits)
qed

lemma broadcast_leader_handled:
  assumes C: "conf_wf C" "broadcast_good C" and loc: "broadcast_local C i c" and below: "r_alg_below (cx_rep c) = ALG_NONE"
    and m: "wf_msg m" and req: "i = 0" "msg_tag m = REQ_TAG" and cid: "unat (msg_cid m) < length (cf_clients C)"
  shows "\<exists>c'. run_on (broadcast_proto C) c m = Inr c' \<and>
    costs C (broadcast_proto C) (broadcast_weight C) i (cx_acts c') < broadcast_weight C i m \<and>
    (\<forall>d. \<forall>m' \<in> set (sends_to d (cx_acts c')). served C m') \<and> execs (cx_acts c') = [payload m]"
proof -
  have cores: "cf_cores C \<noteq> []" using C(2) by (simp add: broadcast_good_def)
  then have i: "i < length (cf_cores C)" using req(1) by simp
  let ?arr = "arrival C (broadcast_proto C) (broadcast_weight C) (core_of C i)"
  have arr: "?arr d x \<le> 2" for d x using broadcast_arrival [OF C(1) i] req(1) by simp
  from broadcast_leads [OF C(1) cores _ below m req(2) cid] loc req(1) obtain c' m' where
      c': "run_on (broadcast_proto C) c m = Inr c'"
      "cx_acts c' = map (\<lambda>d. Send (unat d) m') (tl (cf_cores C)) @
         [Exec (choose_exec (cf_exec C)) (payload m), Send (unat (cf_clients C ! unat (msg_cid m))) m']"
      "msg_cid m' = msg_cid m" by blast
  have "served C m''" if "m'' \<in> set (sends_to d (cx_acts c'))" for d m''
  proof -
    have "m'' = m'" using that c'(2) by (auto split: if_splits dest: sends_to_map_in)
    moreover have "wf_msg m''" using broadcast_sends_wf [OF loc m c'(1) that] by blast
    ultimately show ?thesis using c'(3) cid by (simp add: served_def)
  qed
  moreover have "costs C (broadcast_proto C) (broadcast_weight C) i (map (\<lambda>d. Send (unat d) m') (tl (cf_cores C))) \<le>
      3 * length (tl (cf_cores C))"
    using costs_sends_le [of C "broadcast_proto C" "broadcast_weight C" i m' 2 unat "tl (cf_cores C)"] arr by simp
  moreover have "?arr (unat (cf_clients C ! unat (msg_cid m))) m' \<le> 2" by (rule arr)
  moreover have "length (cf_cores C) = Suc (length (tl (cf_cores C)))" using cores by simp
  moreover have "broadcast_weight C i m = 3 * length (cf_cores C) + 2" using req(1) by (simp add: broadcast_weight_def)
  ultimately have "\<forall>d. \<forall>x \<in> set (sends_to d (cx_acts c')). served C x"
    "costs C (broadcast_proto C) (broadcast_weight C) i (cx_acts c') < broadcast_weight C i m"
    unfolding c'(2) costs_simps cost.simps by (blast, linarith)
  with c'(1,2) show ?thesis by simp
qed

lemma broadcast_handled:
  assumes C: "conf_wf C" "broadcast_good C" and i: "i < length (cf_cores C)" and rdy: "broadcast_ready C i c" and m: "served C m"
  shows "\<exists>c'. run_on (broadcast_proto C) c m = Inr c' \<and>
    costs C (broadcast_proto C) (broadcast_weight C) i (cx_acts c') < broadcast_weight C i m \<and>
    (\<forall>d. \<forall>m' \<in> set (sends_to d (cx_acts c')). served C m') \<and> (i = 0 \<longrightarrow> execs (cx_acts c') = commits REQ_TAG [m])"
proof -
  have loc: "broadcast_local C i c" and below: "r_alg_below (cx_rep c) = ALG_NONE"
    and m: "wf_msg m" "msg_tag m = SETUP_TAG \<or> unat (msg_cid m) < length (cf_clients C)" and cores: "cf_cores C \<noteq> []"
    using rdy m C(2) by (auto simp: broadcast_ready_def served_def broadcast_good_def)
  let ?arr = "arrival C (broadcast_proto C) (broadcast_weight C) (core_of C i)"
  have arr: "?arr d x \<le> (if i = 0 then 2 else 0)" for d x by (rule broadcast_arrival [OF C(1) i])
  consider (start) "msg_tag m = SETUP_TAG" | (req) "i = 0" "msg_tag m = REQ_TAG"
    | (commit) "0 < i" "msg_tag m = BROAD_COMMIT"
    | (other) "msg_tag m \<noteq> SETUP_TAG" "msg_tag m \<noteq> (if i = 0 then REQ_TAG else BROAD_COMMIT)"
    by (cases "i = 0") auto
  then show ?thesis
  proof cases
    case start
    have "unat (r_num_clients (cx_rep c)) \<le> length (r_clients (cx_rep c))" using loc by (simp add: broadcast_local_def Let_def)
    from setup_answers [of "c\<lparr>cx_msg := m, cx_acts := []\<rparr>", OF _ this] m(1) obtain c' m' where
      c': "run_on (broadcast_proto C) c m = Inr c'" "cx_acts c' = [Send (unat (msg_cid m)) m']" "wf_msg m'" "msg_tag m' = SETUP_TAG"
      using start by (auto simp: run_on_def message_handler_broadcast_def Let_def handle_setup_broadcast_def)
    have "1 + ?arr (unat (msg_cid m)) m' < broadcast_weight C i m"
      using arr [of "unat (msg_cid m)" m'] cores
      by (cases "cf_cores C"; cases "i = 0") (simp_all add: broadcast_weight_def)
    with c' start show ?thesis by (auto simp: served_def algs)
  next
    case req
    then show ?thesis using broadcast_leader_handled [OF C loc below m(1) req(1,2)] m(2) by auto
  next
    case commit
    from broadcast_follows [OF rdy commit(2,1)] obtain c' f where
      "run_on (broadcast_proto C) c m = Inr c'" "cx_acts c' = [Exec f (payload m)]" by blast
    with commit show ?thesis by (auto simp: broadcast_weight_def)
  next
    case other
    from broadcast_drops [OF loc other] obtain c' s where "run_on (broadcast_proto C) c m = Inr c'" "cx_acts c' = [Print s]"
        "i = 0 \<longrightarrow> msg_tag m \<noteq> REQ_TAG" by blast
    then show ?thesis by (auto simp: broadcast_weight_def)
  qed
qed

lemma broadcast_keep_ready:
  assumes "broadcast_ready C i c" and "served C m" and "run_on (broadcast_proto C) c m = Inr c'"
  shows "broadcast_ready C i c'"
  using broadcast_handler_rep [of _ "c\<lparr>cx_msg := m, cx_acts := []\<rparr>" c'] assms
  by (simp add: broadcast_ready_def broadcast_local_def served_def run_on_def Let_def)

interpretation broadcast_live:
  progressing broadcast_proto "\<lambda>_. 0" BROAD_COMMIT broadcast_local broadcast_ready broadcast_good broadcast_weight
proof (unfold_locales, goal_cases)
  case (1 C)
  then show ?case by (simp add: broadcast_good_def)
next
  case (2 C i c)
  then show ?case by (simp add: broadcast_start_ready)
next
  case (3 C i q)
  then show ?case by (auto simp: broadcast_proto_def core_less clients_less split: if_splits)
next
  case (4 C q)
  then show ?case by (simp add: broadcast_proto_def)
next
  case (5 i C)
  then show ?case by simp
next
  case (6 C i c m)
  then show ?case using broadcast_handled [OF 6] broadcast_keep_ready [OF 6(4,5)] by blast
qed

subsection \<open>The build with Smelt's broadcast\<close>

text \<open>
  A system of replicas that run the loop under \<^verbatim>\<open>SMLT\<close>: the leader polls the clients of its array by
  index, the others take what Smelt's broadcast delivers from its root, replica 0. The broadcast
  delivers to every other core, in any order (\<open>spread\<close>).
\<close>

definition broadcast_smlt_polls :: "conf \<Rightarrow> nat \<Rightarrow> nat \<Rightarrow> bool" where
  "broadcast_smlt_polls C i q \<longleftrightarrow>
     (if i = 0 then \<exists>j < length (cf_clients C). q = unat (cf_clients C ! j) else q = core_of C 0)"

definition broadcast_smlt_proto :: "conf \<Rightarrow> replica proto" where
  "broadcast_smlt_proto C = \<lparr>p_handler = \<lambda>c. delivered C (message_handler_broadcast True c),
     p_polls = broadcast_smlt_polls C, p_start = broadcast_start C\<rparr>"

text \<open>
  These are the messages the loop gets: an iteration of the leader depends on one channel only, from
  the client at its index, and the next index is in range again; that of another replica handles the broadcast's message.
\<close>

lemma smlt_loop_polls:
  assumes "broadcast_local C i c" and "j < length (cf_clients C)"
  shows "message_loop_broadcast_smlt recv bcast (j, c) = (if i = 0
      then bindr (case recv (unat (cf_clients C ! j)) of None \<Rightarrow> Inr c | Some m \<Rightarrow> message_handler_broadcast True (c\<lparr>cx_msg := m\<rparr>))
             (\<lambda>c. Inr ((j + 1) mod length (cf_clients C), c))
      else bindr (message_handler_broadcast True (c\<lparr>cx_msg := bcast\<rparr>)) (\<lambda>c. Inr (j, c)))"
    and "broadcast_smlt_polls C 0 (unat (cf_clients C ! j))"
    and "(j + 1) mod length (cf_clients C) < length (cf_clients C)"
proof -
  have l: "unat (r_id (cx_rep c)) = i" "r_clients (cx_rep c) = cf_clients C" "unat (r_num_clients (cx_rep c)) = length (cf_clients C)"
    using assms(1) by (auto simp: broadcast_local_def Let_def)
  then have "r_id (cx_rep c) = 0 \<longleftrightarrow> i = 0" "r_num_clients (cx_rep c) \<noteq> 0"
    using assms(2) by (auto simp: unat_eq_0 [symmetric])
  then show "message_loop_broadcast_smlt recv bcast (j, c) = (if i = 0
      then bindr (case recv (unat (cf_clients C ! j)) of None \<Rightarrow> Inr c | Some m \<Rightarrow> message_handler_broadcast True (c\<lparr>cx_msg := m\<rparr>))
             (\<lambda>c. Inr ((j + 1) mod length (cf_clients C), c))
      else bindr (message_handler_broadcast True (c\<lparr>cx_msg := bcast\<rparr>)) (\<lambda>c. Inr (j, c)))"
    using l assms(2)
    by (simp add: message_loop_broadcast_smlt_def leader_loop_broadcast_def Let_def recv_and_handle_def)
  show "broadcast_smlt_polls C 0 (unat (cf_clients C ! j))" using assms(2) by (auto simp: broadcast_smlt_polls_def)
  show "(j + 1) mod length (cf_clients C) < length (cf_clients C)" using assms(2) by (intro mod_less_divisor) linarith
qed

lemma broadcast_smlt_proto_simps [simp]:
  "p_start (broadcast_smlt_proto C) = broadcast_start C"
  "0 < i \<Longrightarrow> p_polls (broadcast_smlt_proto C) i q \<longleftrightarrow> q = core_of C 0"
  by (simp_all add: broadcast_smlt_proto_def broadcast_smlt_polls_def)

lemma broadcast_smlt_actions:
  assumes "broadcast_local C i c" and "wf_msg m" and "run_on (broadcast_smlt_proto C) c m = Inr c'"
  shows "broadcast_does C i m (cx_acts c')" and "broadcast_local C i c'"
proof -
  let ?c = "c\<lparr>cx_msg := m, cx_acts := []\<rparr>"
  obtain c0 where c0: "message_handler_broadcast True ?c = Inr c0" "c' = c0\<lparr>cx_acts := spread C (cx_acts c0)\<rparr>"
    using assms(3) by (auto simp: run_on_def broadcast_smlt_proto_def delivered_def res_simps)
  show "broadcast_does C i m (cx_acts c')" using broadcast_handler_does [OF assms(1,2) c0(1)] by (simp add: c0(2))
  show "broadcast_local C i c'"
    using broadcast_handler_rep [OF c0(1)] assms(1,2) by (simp add: broadcast_local_def c0(2) Let_def)
qed

interpretation broadcast_smlt_log:
  valid_replication broadcast_smlt_proto "\<lambda>_. 0" BROAD_COMMIT broadcast_local
proof (unfold_locales, goal_cases)
  case (1 i)
  then show ?case by simp
next
  case (2 C i c)
  then show ?case by (simp add: broadcast_start_local)
next
  case (3 C i c m c')
  show ?case by (rule broadcast_smlt_actions(2) [OF 3(3-5)])
next
  case (4 C i c m c' m' d)
  show ?case using broadcast_does_sends [OF broadcast_smlt_actions(1) [OF 4(3-5)] 4(4,6)] by blast
next
  case (5 C i q)
  then show ?case by simp
next
  case (6 C i c m c')
  show ?case by (rule broadcast_does_child [OF broadcast_smlt_actions(1) [OF 6(4-6)] 6(2)])
next
  case (7 C i c m c')
  show ?case by (rule broadcast_does_parent [OF broadcast_smlt_actions(1) [OF 7(4-6)] 7(1-3,5)])
next
  case (8 C i c m c' m' d)
  show ?case using broadcast_does_sends [OF broadcast_smlt_actions(1) [OF 8(3-5)] 8(4,6)] by blast
next
  case (9 C i c m c' p)
  show ?case using broadcast_does_exec [OF broadcast_smlt_actions(1) [OF 9(3-5)] 9(6)] by blast
qed

subsection \<open>Properties\<close>

text \<open>
  C2: the broadcast protocol agrees: of the command sequences any two replicas have executed
  one is a prefix of the other, and once nothing is pending or in transit they are equal.
\<close>

theorem broadcast_agreement:
  assumes "conf_wf C" and "net_reach C (broadcast_proto C) s"
    and "i < length (cf_cores C)" and "j < length (cf_cores C)"
  shows "(prefix (n_log s i) (n_log s j) \<or> prefix (n_log s j) (n_log s i)) \<and>
    (broadcast_log.quiet C s \<longrightarrow> n_log s i = n_log s j)"
  using broadcast_log.agreement [OF assms] broadcast_log.quiet_same [OF assms(1,2) _ assms(3)]
    broadcast_log.quiet_same [OF assms(1,2) _ assms(4)] by simp

text \<open>
  The broadcast protocol is valid: a replica only executes commands that a client has
  sent, in the order in which the leader has decided to execute them.
\<close>

theorem broadcast_validity:
  assumes "conf_wf C" and "net_reach C (broadcast_proto C) s" and "i < length (cf_cores C)"
  shows "set (n_log s i) \<subseteq> set (n_sent s) \<and> prefix (n_log s i) (n_log s 0 @ execs (n_pend s 0))"
  using broadcast_log.validity [OF assms] broadcast_log.executed_prefix [OF assms]
  by (simp add: upto_def)

text \<open>
  The leader never faults on a request of a known client: it sends the commit to every
  other replica, once each, executes the command and only then answers the client, with the
  request's header and command; the answer keeps the commit tag, where the other protocols
  answer with \<open>RESP_TAG\<close>.
\<close>

theorem broadcast_leader_actions:
  assumes "conf_wf C" and "cf_cores C \<noteq> []" and "broadcast_local C 0 c"
    and "r_alg_below (cx_rep c) = ALG_NONE" and "wf_msg m" and "msg_tag m = REQ_TAG"
    and "unat (msg_cid m) < length (cf_clients C)"
  shows "\<exists>c' m'. run_on (broadcast_proto C) c m = Inr c' \<and>
    cx_acts c' = map (\<lambda>d. Send (unat d) m') (tl (cf_cores C)) @
      [Exec (choose_exec (cf_exec C)) (payload m),
       Send (unat (cf_clients C ! unat (msg_cid m))) m'] \<and>
    msg_tag m' = BROAD_COMMIT \<and> msg_cid m' = msg_cid m \<and> msg_rid m' = msg_rid m \<and>
    payload m' = payload m"
  by (rule broadcast_leads [OF assms])

text \<open>
  C8: the broadcast protocol makes progress, without a core level below and when clients put an
  index of a client into their requests. From the time the clients stop sending, the replicas
  take at most as many steps as the work that is left says, a message to the leader weighing
  three steps for each replica and two more; and when no replica can take a step any more,
  every replica has executed every request the clients sent to the leader, each as often as it
  was sent, and in the same order.
\<close>

theorem broadcast_liveness:
  assumes "conf_wf C" and "cf_below C = ALG_NONE" and "cf_cores C \<noteq> []"
    and "net_init C (broadcast_proto C) s0" and "net_run C (broadcast_proto C) chs s0 = Some s"
    and "\<forall>ch \<in> set chs. good_choice C ch"
    and "net_run C (broadcast_proto C) chs' s = Some s'" and "\<forall>ch \<in> set chs'. \<not> sends_request ch"
  shows "length (filter internal chs') \<le> work C (broadcast_proto C) (broadcast_weight C) s \<and>
    (idle C (broadcast_proto C) s' \<longrightarrow> (\<forall>i < length (cf_cores C).
       n_log s' i = n_log s' 0 \<and> mset (n_log s' i) = mset (requests C chs)))"
proof -
  have "broadcast_good C" using assms(2,3) by (simp add: broadcast_good_def)
  note broadcast_live.all_executed [OF assms(1) this assms(4-8)]
  then show ?thesis by blast
qed

text \<open>
  C13: the broadcast protocol agrees in the build with Smelt's broadcast, whatever the order in which it
  hands a message to the cores, which may differ from message to message: of the command
  sequences any two replicas have executed one is a prefix of the other, they hold only commands that
  clients have sent, and once nothing is pending or in transit they are equal.
\<close>

theorem broadcast_smlt_agreement:
  assumes "conf_wf C" and "net_reach C (broadcast_smlt_proto C) s"
    and "i < length (cf_cores C)" and "j < length (cf_cores C)"
  shows "(prefix (n_log s i) (n_log s j) \<or> prefix (n_log s j) (n_log s i)) \<and> set (n_log s i) \<subseteq> set (n_sent s) \<and>
    (broadcast_smlt_log.quiet C s \<longrightarrow> n_log s i = n_log s j)"
  using broadcast_smlt_log.agreement [OF assms] broadcast_smlt_log.validity [OF assms(1-3)]
    broadcast_smlt_log.quiet_same [OF assms(1,2) _ assms(3)] broadcast_smlt_log.quiet_same [OF assms(1,2) _ assms(4)] by simp

subsection \<open>Witnesses\<close>

definition broadcast_example :: "nat \<Rightarrow> replica ctx" where
  "broadcast_example i = (case broadcast_init example_conf i of
      Inr (r, t, _) \<Rightarrow> start_ctx r (ct_core t) | Inl _ \<Rightarrow> start_ctx zero_replica zero_layer)"

lemma broadcast_example_start: "broadcast_start example_conf i (broadcast_example i)"
proof -
  have "\<exists>x. broadcast_init example_conf i = Inr x"
    by (simp add: broadcast_init_def init_replica_broadcast_def Let_def example_conf_def)
  then show ?thesis by (auto simp: broadcast_start_def broadcast_example_def start_ctx_def)
qed

definition broadcast_choices :: "choice list" where
  "broadcast_choices = [Client_send 5 0 example_request, Receive 0 5, Act 0, Act 0, Act 0, Act 0,
     Client_recv 5 0, Receive 2 0, Act 2]"

lemma broadcast_run:
  "case net_run example_conf (broadcast_proto example_conf) broadcast_choices
     (empty_net broadcast_example) of
     None \<Rightarrow> False
   | Some s \<Rightarrow> n_log s 0 = [[11, 12, 13]] \<and> n_log s 1 = [] \<and> n_log s 2 = [[11, 12, 13]] \<and> n_sent s = [[11, 12, 13]]"
  by code_simp

lemma broadcast_example_reach:
  "\<exists>s. net_reach example_conf (broadcast_proto example_conf) s \<and> n_log s 0 = [[11, 12, 13]] \<and>
     n_log s 1 = [] \<and> n_log s 2 = [[11, 12, 13]] \<and> n_sent s = [[11, 12, 13]]"
proof -
  obtain s where s: "net_run example_conf (broadcast_proto example_conf) broadcast_choices
      (empty_net broadcast_example) = Some s"
    and "n_log s 0 = [[11, 12, 13]] \<and> n_log s 1 = [] \<and> n_log s 2 = [[11, 12, 13]] \<and> n_sent s = [[11, 12, 13]]"
    using broadcast_run by (auto split: option.splits)
  moreover have "net_reach example_conf (broadcast_proto example_conf) s"
    by (rule example_reach [OF _ s]) (simp add: broadcast_example_start)
  ultimately show ?thesis by blast
qed

theorem broadcast_agreement_witness:
  "\<exists>s. net_reach example_conf (broadcast_proto example_conf) s \<and> n_log s 1 = [] \<and>
     n_log s 2 = [[11, 12, 13]] \<and> (prefix (n_log s 1) (n_log s 2) \<or> prefix (n_log s 2) (n_log s 1))"
proof -
  obtain s where s: "net_reach example_conf (broadcast_proto example_conf) s" "n_log s 1 = []"
      "n_log s 2 = [[11, 12, 13]]"
    using broadcast_example_reach by blast
  with broadcast_agreement [OF example_conf_wf s(1), of 1 2] show ?thesis by auto
qed

theorem broadcast_validity_witness:
  "\<exists>s. net_reach example_conf (broadcast_proto example_conf) s \<and> [11, 12, 13] \<in> set (n_sent s)"
proof -
  obtain s where s: "net_reach example_conf (broadcast_proto example_conf) s"
      "n_log s 2 = [[11, 12, 13]]"
    using broadcast_example_reach by blast
  with broadcast_validity [OF example_conf_wf s(1), of 2] show ?thesis by auto
qed

theorem broadcast_leader_actions_witness:
  "\<exists>c' m'. run_on (broadcast_proto example_conf) (broadcast_example 0) example_request = Inr c' \<and>
     cx_acts c' = [Send 1 m', Send 2 m', Exec (App_exec_fn 1) [11, 12, 13], Send 5 m'] \<and>
     msg_tag m' = BROAD_COMMIT"
proof -
  have l: "broadcast_local example_conf 0 (broadcast_example 0)"
    using broadcast_start_local [OF example_conf_wf _ broadcast_example_start] by simp
  have "r_alg_below (cx_rep (broadcast_example 0)) = ALG_NONE" by code_simp
  with broadcast_leader_actions [OF example_conf_wf _ l _ example_request_facts(1,2,3)]
  show ?thesis
    using example_request_facts(3,4)
    by (auto simp: example_conf_def choose_exec_def)
qed

definition broadcast_rest :: "choice list" where
  "broadcast_rest = [Receive 0 5, Act 0, Act 0, Act 0, Act 0, Client_recv 5 0, Receive 2 0, Act 2, Receive 1 0, Act 1]"

lemma broadcast_polls_in:
  assumes "i < length (cf_cores C)" and "p_polls (broadcast_proto C) i q"
  shows "q \<in> unat ` set (cf_cores C) \<union> unat ` set (cf_clients C)"
proof -
  have "0 < length (cf_cores C)" using assms(1) by linarith
  then show ?thesis using assms(2) core_in [of 0 C] by (cases "i = 0") (simp_all add: broadcast_proto_def)
qed

lemma broadcast_rest_run:
  "case net_run example_conf (broadcast_proto example_conf) [Client_send 5 0 example_request] (empty_net broadcast_example) of
     None \<Rightarrow> False
   | Some s \<Rightarrow> (case net_run example_conf (broadcast_proto example_conf) broadcast_rest s of None \<Rightarrow> False
       | Some s' \<Rightarrow> nothing_left example_conf (broadcast_proto example_conf) s')"
  by code_simp

lemma broadcast_rest_choices:
  "\<forall>ch \<in> set [Client_send 5 0 example_request]. good_choice example_conf ch"
  "\<forall>ch \<in> set broadcast_rest. \<not> sends_request ch"
  "requests example_conf [Client_send 5 0 example_request] = [[11, 12, 13]]"
  "length (filter internal broadcast_rest) = 9"
  by code_simp+

theorem broadcast_liveness_witness:
  "\<exists>s s'. net_run example_conf (broadcast_proto example_conf) broadcast_rest s = Some s' \<and>
     9 \<le> work example_conf (broadcast_proto example_conf) (broadcast_weight example_conf) s \<and>
     n_log s' 1 = [[11, 12, 13]]"
proof -
  let ?P = "broadcast_proto example_conf"
  obtain s s' where s: "net_run example_conf ?P [Client_send 5 0 example_request] (empty_net broadcast_example) = Some s"
      and s': "net_run example_conf ?P broadcast_rest s = Some s'" and "nothing_left example_conf ?P s'"
    using broadcast_rest_run by (auto split: option.splits)
  then have idle: "idle example_conf ?P s'" using nothing_left_idle broadcast_polls_in by blast
  have init: "net_init example_conf ?P (empty_net broadcast_example)"
    by (simp add: net_init_def empty_net_def broadcast_example_start)
  have conf: "cf_below example_conf = ALG_NONE" "cf_cores example_conf \<noteq> []" by (simp_all add: example_conf_def)
  note live = broadcast_liveness [OF example_conf_wf conf init s broadcast_rest_choices(1) s' broadcast_rest_choices(2)]
  have "9 \<le> work example_conf ?P (broadcast_weight example_conf) s" using live broadcast_rest_choices(4) by (simp only:)
  moreover have "1 < length (cf_cores example_conf)" by simp
  then have "mset (n_log s' 1) = mset [[11, 12, 13]]"
    using live [THEN conjunct2, rule_format, OF idle, of 1] unfolding broadcast_rest_choices(3) by blast
  then have "n_log s' 1 = [[11, 12, 13]]" by simp
  ultimately show ?thesis using s' by blast
qed

text \<open>A broadcast that reaches core 2 before core 1.\<close>

definition reversed_conf :: conf where
  "reversed_conf = example_conf\<lparr>cf_rank := \<lambda>_ d. if d = 2 then 0 else 1\<rparr>"

definition broadcast_smlt_choices :: "choice list" where
  "broadcast_smlt_choices = [Client_send 5 0 example_request, Receive 0 5, Act 0, Receive 2 0, Act 2]"

lemma broadcast_smlt_run:
  "case net_run reversed_conf (broadcast_smlt_proto reversed_conf) broadcast_smlt_choices (empty_net broadcast_example) of
     None \<Rightarrow> False
   | Some s \<Rightarrow> n_log s 0 = [] \<and> n_log s 1 = [] \<and> n_log s 2 = [[11, 12, 13]] \<and> n_sent s = [[11, 12, 13]]"
  by code_simp

theorem broadcast_smlt_agreement_witness:
  "\<exists>s. net_reach reversed_conf (broadcast_smlt_proto reversed_conf) s \<and> n_log s 0 = [] \<and> n_log s 2 = [[11, 12, 13]] \<and>
     set (n_log s 2) \<subseteq> set (n_sent s) \<and> (prefix (n_log s 2) (n_log s 0) \<or> prefix (n_log s 0) (n_log s 2))"
proof -
  have conf: "conf_wf reversed_conf" "cf_cores reversed_conf = cf_cores example_conf"
    using example_conf_wf by (simp_all add: reversed_conf_def conf_wf_def)
  obtain s where s: "net_run reversed_conf (broadcast_smlt_proto reversed_conf) broadcast_smlt_choices (empty_net broadcast_example) = Some s"
    and l: "n_log s 0 = []" "n_log s 2 = [[11, 12, 13]]"
    using broadcast_smlt_run by (auto split: option.splits)
  have same: "broadcast_start reversed_conf i = broadcast_start example_conf i" for i
    by (rule ext) (simp add: broadcast_start_def broadcast_init_def reversed_conf_def)
  have "net_reach reversed_conf (broadcast_smlt_proto reversed_conf) s"
    by (rule net_run_reach [OF net_reach.init s])
      (simp add: net_init_def empty_net_def same broadcast_example_start)
  with broadcast_smlt_agreement [OF conf(1) this, of 2 0] l show ?thesis by (auto simp: conf(2))
qed

end
