(* ===== verification/Tpc.thy ===== *)
theory Tpc
  imports Network
begin

text \<open>
  Two-phase commit, \<^verbatim>\<open>tpc_replica.c\<close>: replica 0 sends a prepare to all others, counts their
  ready messages per client, and when all have answered sends the commit, executes and
  answers the client. Under the build flag \<^verbatim>\<open>SMLT\<close> Smelt's broadcast and reduction take the
  place of the sends and of the counters. The checksum code under \<^verbatim>\<open>VERIFY\<close> is not compiled.
\<close>

definition TPC_PREP :: u16 where "TPC_PREP = 3"
definition TPC_RDY :: u16 where "TPC_RDY = 4"
definition TPC_COM :: u16 where "TPC_COM = 5"

lemmas tpc_tag_defs [algs] = TPC_PREP_def TPC_RDY_def TPC_COM_def

record tpc_replica = replica +
  t_index :: u64
  ready_counter :: "u8 list"
  ack_counter :: "u8 list"

subsection \<open>Handlers\<close>

definition update_value_tpc :: "tpc_replica ctx \<Rightarrow> tpc_replica ctx res" where
  "update_value_tpc c = st_exec (r_exec (cx_rep c)) c"

definition handle_setup_tpc :: "tpc_replica ctx \<Rightarrow> tpc_replica ctx res" where
  "handle_setup_tpc c = st_setup (r_clients (cx_rep c)) (r_num_clients (cx_rep c)) c"

definition reset_counters :: "tpc_replica ctx \<Rightarrow> tpc_replica ctx res" where
  "reset_counters c =
     (let r = cx_rep c; k = unat (msg_cid (cx_msg c)) in
      bindr (wr (ready_counter r) k 0) (\<lambda>rc.
      bindr (wr (ack_counter r) k 0) (\<lambda>ac.
        Inr (c\<lparr>cx_rep := r\<lparr>ready_counter := rc, ack_counter := ac\<rparr>\<rparr>))))"

definition handle_request_tpc :: "bool \<Rightarrow> tpc_replica ctx \<Rightarrow> tpc_replica ctx res" where
  "handle_request_tpc smlt c =
     (let r = cx_rep c in
      do_all [st_start_timer,
        if r_id r = 0 then
          do_all [reset_counters, st_tag TPC_PREP,
            if smlt then st_bcast else st_send_others (r_replicas r) (r_num_replicas r)]
        else st_send_at (r_replicas r) 0] c)"

definition handle_prepare_tpc :: "tpc_replica ctx \<Rightarrow> tpc_replica ctx res" where
  "handle_prepare_tpc c =
     (let r = cx_rep c in
      if r_id r \<noteq> 0 then do_all [st_tag TPC_RDY, st_send_at (r_replicas r) 0] c
      else st_print ''leader shoult not receive prepare'' c)"

definition next_index :: "tpc_replica ctx \<Rightarrow> tpc_replica ctx res" where
  "next_index c = Inr (c\<lparr>cx_rep := (cx_rep c)\<lparr>t_index := t_index (cx_rep c) + 1\<rparr>\<rparr>)"

definition put_index :: "tpc_replica ctx \<Rightarrow> tpc_replica ctx res" where
  "put_index c = st_data 3 (t_index (cx_rep c)) c"

definition handle_ready_smlt :: "tpc_replica ctx \<Rightarrow> tpc_replica ctx res" where
  "handle_ready_smlt c =
     (let r = cx_rep c in
      if r_id r = 0 then
        do_all [st_tag TPC_COM, put_index, next_index, st_bcast, update_value_tpc,
          st_tag RESP_TAG, st_reply (r_clients r), st_count] c
      else st_print ''Ready messages received'' c)"

text \<open>
  The comparison \<^verbatim>\<open>ready_counter >= num_replicas - 1\<close> is one of \<^verbatim>\<open>int\<close>s and does not wrap;
  the counter itself is a byte and does.
\<close>

definition count_ready :: "tpc_replica ctx \<Rightarrow> (tpc_replica ctx \<times> bool) res" where
  "count_ready c =
     (let r = cx_rep c; k = unat (msg_cid (cx_msg c)) in
      bindr (rd (ready_counter r) k) (\<lambda>v.
      bindr (wr (ready_counter r) k (v + 1)) (\<lambda>rc.
        Inr (c\<lparr>cx_rep := r\<lparr>ready_counter := rc\<rparr>\<rparr>,
             unat (r_num_replicas r) \<le> unat (v + 1) + 1))))"

definition commit_tpc :: "tpc_replica ctx \<Rightarrow> tpc_replica ctx res" where
  "commit_tpc c =
     (let r = cx_rep c in
      do_all [st_tag TPC_COM, next_index, put_index,
        st_send_others (r_replicas r) (r_num_replicas r),
        update_value_tpc,
        st_when (r_alg_below r \<noteq> ALG_NONE) st_core,
        st_tag RESP_TAG,
        if r_level r = NODE_LEVEL then st_reply (r_clients r) else st_send (unat (r_started_from r)),
        st_count] c)"

definition handle_ready_tpc :: "tpc_replica ctx \<Rightarrow> tpc_replica ctx res" where
  "handle_ready_tpc c =
     (if r_id (cx_rep c) = 0 then
        bindr (count_ready c) (\<lambda>(c, all). if all then commit_tpc c else Inr c)
      else st_print ''Ready messages received'' c)"

definition handle_commit_tpc :: "tpc_replica ctx \<Rightarrow> tpc_replica ctx res" where
  "handle_commit_tpc c =
     (let r = cx_rep c in
      if r_id r \<noteq> 0 then do_all [update_value_tpc, st_when (r_alg_below r \<noteq> ALG_NONE) st_core] c
      else st_print ''leader shoult not receive commit'' c)"

definition message_handler_tpc :: "bool \<Rightarrow> tpc_replica ctx \<Rightarrow> tpc_replica ctx res" where
  "message_handler_tpc smlt c =
     (let t = msg_tag (cx_msg c) in
      if t = SETUP_TAG then handle_setup_tpc c
      else if t = REQ_TAG then handle_request_tpc smlt c
      else if t = TPC_PREP then handle_prepare_tpc c
      else if t = TPC_RDY then (if smlt then handle_ready_smlt c else handle_ready_tpc c)
      else if t = TPC_COM then handle_commit_tpc c
      else st_print ''unknown type in message_handler'' c)"

subsection \<open>The message loops\<close>

definition is_client_tpc :: "tpc_replica \<Rightarrow> nat \<Rightarrow> bool" where
  "is_client_tpc r n \<longleftrightarrow> n \<in> unat ` set (take (unat (r_num_clients r)) (r_clients r))"

definition operation_tpc :: "msg \<Rightarrow> msg \<Rightarrow> nat" where
  "operation_tpc m1 m2 = 0"

text \<open>
  The cores the SMLT leader polls: \<^verbatim>\<open>malloc(sizeof(int)*num_clients+num_c)\<close> bytes hold
  \<open>(4 * num_clients + num_c) div 4\<close> integers, and the clients and the \<open>num_c\<close> children of the
  topology node are written into them.
\<close>

definition smlt_cores :: "tpc_replica \<Rightarrow> nat list \<Rightarrow> nat list res" where
  "smlt_cores r nidx =
     (let nc = unat (r_num_clients r); num_c = length nidx in
      bindr (foldr_res (\<lambda>i xs. bindr (rd (r_clients r) i) (\<lambda>x. wr xs i (unat x))) [0..<nc]
               (replicate ((4 * nc + num_c) div 4) 0)) (\<lambda>xs.
        foldr_res (\<lambda>i xs. bindr (rd nidx i) (\<lambda>x. wr xs (i + nc) x)) [0..<num_c] xs))"

text \<open>
  One iteration of the SMLT leader loop: a finished reduction is handled first, then the
  message of the polled core, unless that core is the leader's own.
\<close>

definition leader_loop_smlt ::
    "nat list \<Rightarrow> nat \<Rightarrow> (nat \<Rightarrow> msg option) \<Rightarrow> msg option \<Rightarrow> nat \<times> tpc_replica ctx \<Rightarrow>
     (nat \<times> tpc_replica ctx) res" where
  "leader_loop_smlt cores num_c recv reduce = (\<lambda>(j, c).
     let r = cx_rep c; n = unat (r_num_clients r) + num_c in
     bindr (rd cores j) (\<lambda>core.
     bindr (recv_and_handle (message_handler_tpc True) reduce c) (\<lambda>c.
     bindr (if core = unat (r_current_core r) then Inr c
            else recv_and_handle (message_handler_tpc True) (recv core) c) (\<lambda>c.
       if n = 0 then Inl DivByZero else Inr ((j + 1) mod n, c)))))"

definition follower_loop_smlt :: "msg \<Rightarrow> tpc_replica ctx \<Rightarrow> tpc_replica ctx res" where
  "follower_loop_smlt bcast c =
     (let c = c\<lparr>cx_msg := bcast\<rparr> in
      if msg_tag (cx_msg c) = TPC_PREP
      then bindr (st_tag TPC_RDY c) (\<lambda>c. st_act (Reduce (cx_msg c)) c)
      else message_handler_tpc True c)"

definition all_cores_tpc :: "tpc_replica \<Rightarrow> u8 list res" where
  "all_cores_tpc r =
     bindr (mapr (rd (r_replicas r)) [0..<unat (r_num_replicas r)]) (\<lambda>xs.
     bindr (mapr (\<lambda>i. rd (r_clients r) (i - unat (r_num_replicas r)))
              [unat (r_num_replicas r)..<unat (r_num_replicas r) + unat (r_num_clients r)]) (\<lambda>ys.
       Inr (xs @ ys)))"

definition leader_loop_tpc ::
    "u8 list \<Rightarrow> (nat \<Rightarrow> msg option) \<Rightarrow> nat \<times> tpc_replica ctx \<Rightarrow> (nat \<times> tpc_replica ctx) res" where
  "leader_loop_tpc all_cores recv = (\<lambda>(j, c).
     let r = cx_rep c; nr = unat (r_num_replicas r); nc = unat (r_num_clients r) in
     bindr (rd all_cores j) (\<lambda>core.
       if recv (unat core) \<noteq> None \<and> core = r_current_core r then
         (if nc + nc = 0 then Inl DivByZero else Inr ((j + 1) mod (nc + nc), c))
       else
         bindr (recv_and_handle (message_handler_tpc False) (recv (unat core)) c) (\<lambda>c.
           if nr + nc = 0 then Inl DivByZero else Inr ((j + 1) mod (nr + nc), c))))"

definition follower_loop_tpc ::
    "(nat \<Rightarrow> msg option) \<Rightarrow> tpc_replica ctx \<Rightarrow> tpc_replica ctx res" where
  "follower_loop_tpc recv c =
     bindr (rd (r_replicas (cx_rep c)) 0) (\<lambda>core.
       recv_and_handle (message_handler_tpc False) (recv (unat core)) c)"

subsection \<open>Initialisation\<close>

definition set_execution_fn_tpc :: "exec_fn option \<Rightarrow> tpc_replica \<Rightarrow> tpc_replica" where
  "set_execution_fn_tpc f r = r\<lparr>r_exec := f\<rparr>"

definition default_exec_fn_tpc :: "'m \<Rightarrow> 'm" where
  "default_exec_fn_tpc addr = addr"

text \<open>
  The counters of the leader come from \<^verbatim>\<open>malloc\<close>: \<open>heap\<close> is what the two blocks of 64 bytes
  happen to hold.
\<close>

definition init_replica_tpc ::
    "u8 \<Rightarrow> u8 \<Rightarrow> u8 \<Rightarrow> u8 \<Rightarrow> u8 \<Rightarrow> u8 \<Rightarrow> u8 \<Rightarrow> u8 \<Rightarrow> u8 list \<Rightarrow> u8 list \<Rightarrow> u8 list \<Rightarrow> exec_fn option \<Rightarrow>
     u8 list \<times> u8 list \<Rightarrow> tpc_replica \<Rightarrow> com_thread \<Rightarrow>
     (tpc_replica \<times> com_thread \<times> start list \<times> bool) res" where
  "init_replica_tpc i core num_clients num_replicas level alg_below node_size started_from
       cores clients replicas f heap r t =
     (let r = r\<lparr>r_id := i, t_index := 0, r_cores := cores, r_num_clients := num_clients,
            r_num_replicas := num_replicas, r_level := level, r_alg_below := alg_below,
            r_node_size := node_size, r_started_from := started_from, r_current_core := core,
            r_clients := clients, r_replicas := replicas, r_exec := Some (choose_exec f)\<rparr>;
          r = (if num_clients = 0 then r\<lparr>r_num_clients := 1\<rparr> else r);
          r = (if i = 0 then r\<lparr>ready_counter := fst heap, ack_counter := snd heap\<rparr> else r) in
      bindr (if r_alg_below r \<noteq> ALG_NONE
             then com_layer_core_init (r_alg_below r) (r_id r) (r_current_core r) (r_cores r)
                    (r_node_size r) 24 (r_exec r) t
             else Inr (t, [])) (\<lambda>(t, ss).
      Inr (r, t, ss, i = 0 \<and> r_level r = NODE_LEVEL)))"

subsection \<open>Throughput results\<close>

definition print_results_tpc ::
    "bool \<Rightarrow> 'd fops \<Rightarrow> tpc_replica \<Rightarrow> 'd results \<Rightarrow> 'd results res" where
  "print_results_tpc smlt F rep =
     results_table F
       ((if smlt then ''results/tp_adaptivetree_tpc_num_''
         else ''results/tp_tpc_below_'' @ dec (unat (r_alg_below rep)) @ ''_num_'') @
        dec (unat (r_num_replicas rep)) @ ''_numc_'' @ dec (unat (r_num_clients rep)))
       (replica.truncate rep)"

definition results_tpc ::
    "bool \<Rightarrow> 'd fops \<Rightarrow> tpc_replica \<Rightarrow> u64 list \<Rightarrow> 'd results \<times> measure \<Rightarrow>
     ('d results \<times> u64 list) res" where
  "results_tpc smlt F rep = results_loop F (print_results_tpc smlt F rep)"

subsection \<open>What a handler does\<close>

lemma tpc_tags [simp]:
  "SETUP_TAG \<noteq> TPC_COM" "RESP_TAG \<noteq> TPC_COM" "REQ_TAG \<noteq> TPC_COM" "TPC_PREP \<noteq> TPC_COM" "TPC_RDY \<noteq> TPC_COM"
  "TPC_COM \<noteq> SETUP_TAG" "TPC_COM \<noteq> RESP_TAG" "TPC_COM \<noteq> REQ_TAG" "TPC_COM \<noteq> TPC_PREP" "TPC_COM \<noteq> TPC_RDY"
  "TPC_RDY \<noteq> SETUP_TAG" "TPC_RDY \<noteq> REQ_TAG" "TPC_RDY \<noteq> TPC_PREP" "TPC_PREP \<noteq> SETUP_TAG" "TPC_PREP \<noteq> REQ_TAG"
  by (simp_all add: algs)

definition same_config :: "tpc_replica \<Rightarrow> tpc_replica \<Rightarrow> bool" where
  "same_config r r' \<longleftrightarrow> replica.truncate r' = replica.truncate r \<and>
     length (ready_counter r') = length (ready_counter r)"

lemma same_config_refl [simp]: "same_config r r"
  by (simp add: same_config_def)

lemma same_config_counters [simp]:
  "same_config r (r\<lparr>t_index := x\<rparr>)"
  "length rc = length (ready_counter r) \<Longrightarrow> same_config r (r\<lparr>ready_counter := rc\<rparr>)"
  "length rc = length (ready_counter r) \<Longrightarrow> same_config r (r\<lparr>ready_counter := rc, ack_counter := ac\<rparr>)"
  "length rc = length (ready_counter r) \<Longrightarrow> same_config r (r\<lparr>ready_counter := rc, t_index := x\<rparr>)"
  "length rc = length (ready_counter r) \<Longrightarrow> same_config r (r\<lparr>t_index := x, ready_counter := rc\<rparr>)"
  by (simp_all add: same_config_def replica.defs)

lemma same_config_fields:
  assumes "same_config r r'"
  shows "r_id r' = r_id r" "r_replicas r' = r_replicas r" "r_clients r' = r_clients r"
    "r_num_clients r' = r_num_clients r" "r_num_replicas r' = r_num_replicas r"
    "r_level r' = r_level r" "r_exec r' = r_exec r" "r_alg_below r' = r_alg_below r"
    "length (ready_counter r') = length (ready_counter r)"
  using assms by (simp_all add: same_config_def replica.defs)

definition others :: "tpc_replica \<Rightarrow> u8 list" where
  "others r = take (unat (r_num_replicas r) - 1) (drop 1 (r_replicas r))"

lemma tpc_request_Inr:
  assumes "handle_request_tpc False c = Inr c'"
    and n: "unat (r_num_replicas (cx_rep c)) \<le> length (r_replicas (cx_rep c))"
  shows "same_config (cx_rep c) (cx_rep c') \<and>
    (if r_id (cx_rep c) = 0
     then cx_acts c' = cx_acts c @ map (\<lambda>d. Send (unat d) (put_tag 0 TPC_PREP (cx_msg c))) (others (cx_rep c))
     else cx_acts c' = cx_acts c @ [Send (unat (r_replicas (cx_rep c) ! 0)) (cx_msg c)])"
  using assms(1)
  by (cases "r_id (cx_rep c) = 0")
    (auto simp: handle_request_tpc_def Let_def bindr_eq_Inr rd_eq_Inr wr_eq_Inr reset_counters_def
      st_send_others_eq [OF n] others_def stmts)

lemma tpc_prepare_Inr:
  assumes "handle_prepare_tpc c = Inr c'"
  shows "cx_rep c' = cx_rep c \<and>
    (if r_id (cx_rep c) \<noteq> 0
     then cx_acts c' = cx_acts c @ [Send (unat (r_replicas (cx_rep c) ! 0)) (put_tag 0 TPC_RDY (cx_msg c))]
     else cx_acts c' = cx_acts c @ [Print ''leader shoult not receive prepare''])"
  using assms
  by (cases "r_id (cx_rep c) = 0")
    (auto simp: handle_prepare_tpc_def Let_def bindr_eq_Inr rd_eq_Inr stmts)

lemma tpc_commit_Inr:
  assumes "handle_commit_tpc c = Inr c'"
  shows "cx_rep c' = cx_rep c \<and>
    (if r_id (cx_rep c) \<noteq> 0 then
       \<exists>f as. r_exec (cx_rep c) = Some f \<and> silent as \<and>
         cx_acts c' = cx_acts c @ [Exec f (payload (cx_msg c))] @ as
     else cx_acts c' = cx_acts c @ [Print ''leader shoult not receive commit''])"
  using assms
  by (cases "r_id (cx_rep c) = 0")
    (auto simp: handle_commit_tpc_def Let_def bindr_eq_Inr stmts update_value_tpc_def
      split: option.splits dest!: st_below_Inr)

lemma commit_tpc_Inr:
  assumes "commit_tpc c = Inr c'" and "r_level (cx_rep c) = NODE_LEVEL" and wf: "wf_msg (cx_msg c)"
    and n: "unat (r_num_replicas (cx_rep c)) \<le> length (r_replicas (cx_rep c))"
  shows "cx_rep c' = (cx_rep c)\<lparr>t_index := t_index (cx_rep c) + 1\<rparr> \<and>
    (\<exists>f as m' m''. r_exec (cx_rep c) = Some f \<and> silent as \<and>
       wf_msg m' \<and> msg_tag m' = TPC_COM \<and> payload m' = payload (cx_msg c) \<and>
       wf_msg m'' \<and> msg_tag m'' = RESP_TAG \<and> payload m'' = payload (cx_msg c) \<and>
       unat (msg_cid m'') < length (r_clients (cx_rep c)) \<and>
       cx_acts c' = cx_acts c @ map (\<lambda>d. Send (unat d) m') (others (cx_rep c)) @
         [Exec f (payload (cx_msg c))] @ as @ [Send (unat (r_clients (cx_rep c) ! unat (msg_cid m''))) m''])"
proof -
  let ?r = "(cx_rep c)\<lparr>t_index := t_index (cx_rep c) + 1\<rparr>"
  let ?m = "(put_tag 0 TPC_COM (cx_msg c))[3 := t_index (cx_rep c) + 1]"
  obtain f com m as where f: "r_exec (cx_rep c) = Some f" and si: "silent as"
    and pm: "payload m = payload ?m" and wm: "wf_msg m = wf_msg ?m"
    and k: "unat (msg_cid (put_tag 0 RESP_TAG m)) < length (r_clients (cx_rep c))"
    and c': "cx_rep c' = ?r" "cx_acts c' = cx_acts c @ map (\<lambda>d. Send (unat d) ?m) (others (cx_rep c)) @
         [Exec f (payload ?m)] @ as @
         [Send (unat (r_clients (cx_rep c) ! unat (msg_cid (put_tag 0 RESP_TAG m)))) (put_tag 0 RESP_TAG m)]"
    using assms
    by (auto simp: commit_tpc_def Let_def bindr_eq_Inr rd_eq_Inr wr_eq_Inr next_index_def put_index_def
        st_send_others_eq [OF n] others_def stmts update_value_tpc_def split: option.splits
        dest!: st_below_Inr)
  have "wf_msg ?m" "msg_tag ?m = TPC_COM" "payload ?m = payload (cx_msg c)"
    using wf by (simp_all add: hdr)
  moreover from this have "wf_msg (put_tag 0 RESP_TAG m)" "msg_tag (put_tag 0 RESP_TAG m) = RESP_TAG"
    "payload (put_tag 0 RESP_TAG m) = payload (cx_msg c)"
    using pm wm by (simp_all add: hdr)
  ultimately show ?thesis
    using f si k c' by (intro conjI exI [of _ f] exI [of _ as] exI [of _ ?m] exI [of _ "put_tag 0 RESP_TAG m"]) simp_all
qed

lemma count_ready_Inr:
  assumes "count_ready c = Inr (c', all)"
  shows "\<exists>rc. c' = c\<lparr>cx_rep := (cx_rep c)\<lparr>ready_counter := rc\<rparr>\<rparr> \<and> length rc = length (ready_counter (cx_rep c))"
  using assms by (auto simp: count_ready_def Let_def bindr_eq_Inr rd_eq_Inr wr_eq_Inr)

lemma tpc_ready_Inr:
  assumes run: "handle_ready_tpc c = Inr c'" and lv: "r_level (cx_rep c) = NODE_LEVEL"
    and wf: "wf_msg (cx_msg c)"
    and n: "unat (r_num_replicas (cx_rep c)) \<le> length (r_replicas (cx_rep c))"
  shows "same_config (cx_rep c) (cx_rep c') \<and>
    (if r_id (cx_rep c) \<noteq> 0 then \<exists>s. cx_acts c' = cx_acts c @ [Print s]
     else cx_acts c' = cx_acts c \<or>
      (\<exists>f as m' m''. r_exec (cx_rep c) = Some f \<and> silent as \<and>
       wf_msg m' \<and> msg_tag m' = TPC_COM \<and> payload m' = payload (cx_msg c) \<and>
       wf_msg m'' \<and> msg_tag m'' = RESP_TAG \<and> payload m'' = payload (cx_msg c) \<and>
       unat (msg_cid m'') < length (r_clients (cx_rep c)) \<and>
       cx_acts c' = cx_acts c @ map (\<lambda>d. Send (unat d) m') (others (cx_rep c)) @
         [Exec f (payload (cx_msg c))] @ as @ [Send (unat (r_clients (cx_rep c) ! unat (msg_cid m''))) m'']))"
proof (cases "r_id (cx_rep c) = 0")
  case False
  then show ?thesis using run by (auto simp: handle_ready_tpc_def stmts)
next
  case True
  then obtain c1 all where cr: "count_ready c = Inr (c1, all)"
    and rest: "(if all then commit_tpc c1 else Inr c1) = Inr c'"
    using run by (auto simp: handle_ready_tpc_def bindr_eq_Inr)
  obtain rc where c1: "c1 = c\<lparr>cx_rep := (cx_rep c)\<lparr>ready_counter := rc\<rparr>\<rparr>"
    and len: "length rc = length (ready_counter (cx_rep c))"
    using count_ready_Inr [OF cr] by blast
  show ?thesis
  proof (cases all)
    case False
    with rest c1 len True show ?thesis by auto
  next
    case all: True
    have o: "others (cx_rep c1) = others (cx_rep c)" by (simp add: others_def c1)
    have "commit_tpc c1 = Inr c'" using rest all by simp
    from commit_tpc_Inr [OF this] have "cx_rep c' = (cx_rep c1)\<lparr>t_index := t_index (cx_rep c1) + 1\<rparr> \<and>
      (\<exists>f as m' m''. r_exec (cx_rep c1) = Some f \<and> silent as \<and>
       wf_msg m' \<and> msg_tag m' = TPC_COM \<and> payload m' = payload (cx_msg c1) \<and>
       wf_msg m'' \<and> msg_tag m'' = RESP_TAG \<and> payload m'' = payload (cx_msg c1) \<and>
       unat (msg_cid m'') < length (r_clients (cx_rep c1)) \<and>
       cx_acts c' = cx_acts c1 @ map (\<lambda>d. Send (unat d) m') (others (cx_rep c1)) @
         [Exec f (payload (cx_msg c1))] @ as @ [Send (unat (r_clients (cx_rep c1) ! unat (msg_cid m''))) m''])"
      using lv wf n by (simp add: c1)
    with True len show ?thesis unfolding o by (simp add: c1)
  qed
qed

subsection \<open>Replication\<close>

definition zero_tpc :: tpc_replica where
  "zero_tpc = replica.extend zero_replica (tpc_replica.fields 0 [] [])"

definition tpc_init ::
    "u8 list \<times> u8 list \<Rightarrow> conf \<Rightarrow> nat \<Rightarrow> (tpc_replica \<times> com_thread \<times> start list \<times> bool) res" where
  "tpc_init heap C i = init_replica_tpc (of_nat i) (cf_cores C ! i)
     (of_nat (length (cf_clients C))) (of_nat (length (cf_cores C))) NODE_LEVEL (cf_below C)
     (cf_node_size C) 0 (cf_node_cores C i) (cf_clients C) (cf_cores C) (cf_exec C) heap zero_tpc
     replica_thread"

definition tpc_start :: "u8 list \<times> u8 list \<Rightarrow> conf \<Rightarrow> nat \<Rightarrow> tpc_replica ctx \<Rightarrow> bool" where
  "tpc_start heap C i c = (case tpc_init heap C i of Inl _ \<Rightarrow> False
     | Inr (r, t, _) \<Rightarrow> cx_rep c = r \<and> cx_com c = ct_core t)"

definition tpc_proto :: "u8 list \<times> u8 list \<Rightarrow> conf \<Rightarrow> tpc_replica proto" where
  "tpc_proto heap C = \<lparr>p_handler = message_handler_tpc False,
     p_polls = (\<lambda>i q. if i = 0 then q \<in> unat ` (set (cf_clients C) \<union> set (cf_cores C)) \<and> q \<noteq> core_of C 0
                else q = core_of C 0),
     p_start = tpc_start heap C\<rparr>"

definition tpc_local :: "conf \<Rightarrow> nat \<Rightarrow> tpc_replica ctx \<Rightarrow> bool" where
  "tpc_local C i c \<longleftrightarrow> (let r = cx_rep c in
     unat (r_id r) = i \<and> r_replicas r = cf_cores C \<and> r_clients r = cf_clients C \<and>
     unat (r_num_clients r) = max 1 (length (cf_clients C)) \<and>
     unat (r_num_replicas r) = length (cf_cores C) \<and> r_level r = NODE_LEVEL \<and>
     r_exec r = Some (choose_exec (cf_exec C)))"

lemma init_replica_tpc_rep:
  assumes "init_replica_tpc i core nc nr lv ab ns sf cs cl rs f heap r t = Inr (r', t', ss, b)"
  shows "r_id r' = i \<and> r_replicas r' = rs \<and> r_clients r' = cl \<and>
    r_num_clients r' = (if nc = 0 then 1 else nc) \<and> r_num_replicas r' = nr \<and> r_level r' = lv \<and>
    r_exec r' = Some (choose_exec f) \<and> r_alg_below r' = ab \<and> t_index r' = 0 \<and>
    (i = 0 \<longrightarrow> ready_counter r' = fst heap \<and> ack_counter r' = snd heap)"
  using assms unfolding init_replica_tpc_def Let_def bindr_eq_Inr
  by (elim exE conjE) (cases "nc = 0"; cases "i = 0"; clarsimp)

lemma tpc_start_local:
  assumes "conf_wf C" and i: "i < length (cf_cores C)" and "tpc_start heap C i c"
  shows "tpc_local C i c"
proof -
  obtain t' ss b where "tpc_init heap C i = Inr (cx_rep c, t', ss, b)"
    using assms(3) by (auto simp: tpc_start_def split: sum.splits)
  note init = init_replica_tpc_rep [OF this [unfolded tpc_init_def]]
  have w: "unat (of_nat i :: u8) = i" "unat (of_nat (length (cf_cores C)) :: u8) = length (cf_cores C)"
    "unat (of_nat (length (cf_clients C)) :: u8) = length (cf_clients C)"
    using assms(1) i by (auto intro!: small_word simp: conf_wf_def)
  have "(of_nat (length (cf_clients C)) :: u8) = 0 \<longleftrightarrow> length (cf_clients C) = 0"
    unfolding unat_eq_0 [symmetric] w(3) by simp
  with init w show ?thesis
    unfolding tpc_local_def Let_def by (cases "cf_clients C") auto
qed

definition tpc_commits :: "conf \<Rightarrow> msg \<Rightarrow> action list \<Rightarrow> bool" where
  "tpc_commits C m acts \<longleftrightarrow> (\<exists>f as m' m'' ds. silent as \<and> each_other C ds \<and>
        wf_msg m' \<and> msg_tag m' = TPC_COM \<and> payload m' = payload m \<and>
        wf_msg m'' \<and> msg_tag m'' = RESP_TAG \<and> payload m'' = payload m \<and>
        unat (msg_cid m'') < length (cf_clients C) \<and>
        acts = map (\<lambda>d. Send (unat d) m') ds @
          [Exec f (payload m)] @ as @ [Send (unat (cf_clients C ! unat (msg_cid m''))) m''])"

lemma tpc_proto_simps [simp]:
  "p_handler (tpc_proto heap C) = message_handler_tpc False"
  "p_start (tpc_proto heap C) = tpc_start heap C"
  "0 < i \<Longrightarrow> p_polls (tpc_proto heap C) i q \<longleftrightarrow> q = core_of C 0"
  by (simp_all add: tpc_proto_def)

text \<open>What a replica does with a message, in either build.\<close>

definition tpc_does :: "conf \<Rightarrow> nat \<Rightarrow> msg \<Rightarrow> tpc_replica ctx \<Rightarrow> tpc_replica ctx \<Rightarrow> bool" where
  "tpc_does C i m c c' \<longleftrightarrow> same_config (cx_rep c) (cx_rep c') \<and>
    ((msg_tag m = SETUP_TAG \<and> (\<exists>d m'. wf_msg m' \<and> msg_tag m' = SETUP_TAG \<and> cx_acts c' = [Send d m'])) \<or>
     (\<exists>s. cx_acts c' = [Print s] \<and> (msg_tag m = TPC_COM \<longrightarrow> i = 0)) \<or>
     (cx_acts c' = [] \<and> i = 0) \<or>
     (\<exists>x. cx_acts c' = [Reduce x] \<and> msg_tag m = TPC_PREP \<and> 0 < i) \<or>
     (msg_tag m = REQ_TAG \<and> i = 0 \<and>
        (\<exists>ds. each_other C ds \<and> cx_acts c' = map (\<lambda>d. Send (unat d) (put_tag 0 TPC_PREP m)) ds)) \<or>
     (0 < i \<and> (\<exists>d t. msg_tag m \<in> {REQ_TAG, TPC_PREP} \<and> t \<in> {REQ_TAG, TPC_RDY} \<and>
        cx_acts c' = [Send d (put_tag 0 t m)])) \<or>
     (i = 0 \<and> msg_tag m = TPC_RDY \<and> tpc_commits C m (cx_acts c')) \<or>
     (0 < i \<and> msg_tag m = TPC_COM \<and> (\<exists>f as. silent as \<and> cx_acts c' = [Exec f (payload m)] @ as)))"

lemma prepares_does:
  assumes "same_config (cx_rep c) (cx_rep c')" and "msg_tag m = REQ_TAG" and "each_other C ds"
    and "cx_acts c' = map (\<lambda>d. Send (unat d) (put_tag 0 TPC_PREP m)) ds"
  shows "tpc_does C 0 m c c'"
  using assms unfolding tpc_does_def by blast

lemma does_local: "tpc_does C i m c c' \<Longrightarrow> tpc_local C i c \<Longrightarrow> tpc_local C i c'"
  using same_config_fields [of "cx_rep c" "cx_rep c'"] by (simp add: tpc_does_def tpc_local_def Let_def)

lemma does_sends:
  assumes "tpc_does C i m c c'" and "wf_msg m" and "m' \<in> set (sends_to d (cx_acts c'))"
  shows "wf_msg m' \<and> (msg_tag m' = SETUP_TAG \<or> (msg_tag m \<noteq> SETUP_TAG \<and> payload m' = payload m))"
  using assms unfolding tpc_does_def
  by (elim conjE disjE exE) (auto simp: tpc_commits_def split: if_splits dest!: sends_to_map_in)

lemma does_child: "tpc_does C i m c c' \<Longrightarrow> 0 < i \<Longrightarrow> execs (cx_acts c') = commits TPC_COM [m]"
  unfolding tpc_does_def by (elim conjE disjE exE) auto

lemma does_parent:
  assumes "tpc_does C 0 m c c'" and "conf_wf C" and "0 < i" and "i < length (cf_cores C)" and "wf_msg m"
  shows "execs (cx_acts c') = commits TPC_COM (sends_to (core_of C i) (cx_acts c'))"
  using assms(1) send_each_one [OF assms(2-4)] not_client_core [OF assms(2,4)] assms(5) unfolding tpc_does_def
  by (elim conjE disjE exE) (auto simp: hdr tpc_commits_def)

lemma does_exec: "tpc_does C i m c c' \<Longrightarrow> p \<in> set (execs (cx_acts c')) \<Longrightarrow> msg_tag m \<noteq> SETUP_TAG \<and> p = payload m"
  unfolding tpc_does_def by (elim conjE disjE exE) (auto simp: tpc_commits_def)

lemma local_fields:
  assumes "tpc_local C i c"
  shows "r_id (cx_rep c) = 0 \<longleftrightarrow> i = 0" "r_replicas (cx_rep c) = cf_cores C" "r_clients (cx_rep c) = cf_clients C"
    "r_level (cx_rep c) = NODE_LEVEL" "unat (r_num_replicas (cx_rep c)) = length (cf_cores C)"
    "others (cx_rep c) = drop 1 (cf_cores C)"
  using assms by (auto simp: tpc_local_def Let_def others_def unat_eq_0)

lemma commit_spread: "handle_commit_tpc (c\<lparr>cx_acts := []\<rparr>) = Inr c' \<Longrightarrow> spread C (cx_acts c') = cx_acts c'"
  by (auto simp: handle_commit_tpc_def Let_def res_simps stmts update_value_tpc_def st_when_def st_core_def
      split: option.splits if_splits) (erule spread_core)

text \<open>Set-up, prepare and commit messages are handled alike in both builds, without a broadcast.\<close>

lemma alike_does:
  assumes loc: "tpc_local C i c" and wf: "wf_msg m" and run: "message_handler_tpc smlt (c\<lparr>cx_msg := m, cx_acts := []\<rparr>) = Inr c'"
    and tag: "msg_tag m \<noteq> REQ_TAG" "msg_tag m \<noteq> TPC_RDY"
  shows "tpc_does C i m c c' \<and> spread C (cx_acts c') = cx_acts c'"
proof -
  let ?c = "c\<lparr>cx_msg := m, cx_acts := []\<rparr>"
  note l = local_fields [OF loc]
  consider (start) "msg_tag m = SETUP_TAG" "handle_setup_tpc ?c = Inr c'"
    | (prep) "msg_tag m = TPC_PREP" "handle_prepare_tpc ?c = Inr c'"
    | (commit) "msg_tag m = TPC_COM" "handle_commit_tpc ?c = Inr c'"
    | (other) "msg_tag m \<noteq> TPC_COM" "cx_rep c' = cx_rep c" "\<exists>s. cx_acts c' = [Print s]"
    using run tag by (auto simp: message_handler_tpc_def Let_def stmts split: if_splits)
  then show ?thesis
  proof cases
    case start
    have "wf_msg (cx_msg ?c)" using wf by simp
    from setup_Inr [OF start(2) [unfolded handle_setup_tpc_def] this] start(1)
    obtain d m' where "wf_msg m'" "msg_tag m' = SETUP_TAG" "cx_rep c' = cx_rep c" "cx_acts c' = [Send d m']" by auto
    with start(1) show ?thesis by (auto simp: tpc_does_def)
  next
    case prep
    then show ?thesis using tpc_prepare_Inr [OF prep(2)] l(1) by (cases "i = 0") (auto simp: tpc_does_def)
  next
    case commit
    have "spread C (cx_acts c') = cx_acts c'" using commit_spread [of "c\<lparr>cx_msg := m\<rparr>"] commit(2) by simp
    then show ?thesis using tpc_commit_Inr [OF commit(2)] commit(1) l(1) by (cases "i = 0") (auto simp: tpc_does_def)
  next
    case other
    then show ?thesis by (auto simp: tpc_does_def)
  qed
qed

lemma request_does:
  assumes loc: "tpc_local C i c" and run: "handle_request_tpc False (c\<lparr>cx_msg := m, cx_acts := []\<rparr>) = Inr c'"
    and tag: "msg_tag m = REQ_TAG"
  shows "tpc_does C i m c c'"
proof -
  note l = local_fields [OF loc]
  note rq = tpc_request_Inr [OF run]
  show ?thesis
  proof (cases "i = 0")
    case True
    with rq l tag show ?thesis using each_other_cores [of C] by (auto simp: tpc_does_def)
  next
    case False
    with rq l have "same_config (cx_rep c) (cx_rep c')" "cx_acts c' = [Send (unat (r_replicas (cx_rep c) ! 0)) (put_tag 0 REQ_TAG m)]"
      by (simp_all add: put_tag_same [OF tag])
    with False tag show ?thesis by (auto simp: tpc_does_def)
  qed
qed

lemma ready_does:
  assumes loc: "tpc_local C i c" and wf: "wf_msg m" and run: "handle_ready_tpc (c\<lparr>cx_msg := m, cx_acts := []\<rparr>) = Inr c'"
    and tag: "msg_tag m = TPC_RDY"
  shows "tpc_does C i m c c'"
proof -
  note l = local_fields [OF loc]
  note rd = tpc_ready_Inr [OF run]
  show ?thesis
  proof (cases "i = 0")
    case True
    with rd l wf have "same_config (cx_rep c) (cx_rep c')" "cx_acts c' = [] \<or> tpc_commits C m (cx_acts c')"
      using each_other_cores [of C] unfolding tpc_commits_def by (simp, simp) blast
    with True tag show ?thesis by (auto simp: tpc_does_def)
  next
    case False
    with rd l wf tag show ?thesis by (auto simp: tpc_does_def)
  qed
qed

lemma tpc_proto_does:
  assumes "conf_wf C" and "i < length (cf_cores C)" and loc: "tpc_local C i c" and wf: "wf_msg m"
    and run: "run_on (tpc_proto heap C) c m = Inr c'"
  shows "tpc_does C i m c c'"
proof -
  have run': "message_handler_tpc False (c\<lparr>cx_msg := m, cx_acts := []\<rparr>) = Inr c'"
    using run by (simp add: run_on_def)
  consider (req) "msg_tag m = REQ_TAG" | (ready) "msg_tag m = TPC_RDY" | (other) "msg_tag m \<noteq> REQ_TAG" "msg_tag m \<noteq> TPC_RDY" by blast
  then show ?thesis
  proof cases
    case req
    with run' show ?thesis by (intro request_does [OF loc]) (simp_all add: message_handler_tpc_def)
  next
    case ready
    with run' show ?thesis by (intro ready_does [OF loc wf]) (simp_all add: message_handler_tpc_def Let_def)
  next
    case other
    then show ?thesis using alike_does [OF loc wf run'] by blast
  qed
qed

interpretation tpc_log: valid_replication "tpc_proto heap" "\<lambda>_. 0" TPC_COM tpc_local for heap
proof (unfold_locales, goal_cases)
  case (1 i)
  then show ?case by simp
next
  case (2 C i c)
  then show ?case by (simp add: tpc_start_local)
next
  case (3 C i c m c')
  show ?case by (rule does_local [OF tpc_proto_does [OF 3] 3(3)])
next
  case (4 C i c m c' m' d)
  show ?case using does_sends [OF tpc_proto_does [OF 4(1-5)] 4(4,6)] by blast
next
  case (5 C i q)
  then show ?case by simp
next
  case (6 C i c m c')
  show ?case by (rule does_child [OF tpc_proto_does [OF 6(1,3-6)] 6(2)])
next
  case (7 C i c m c')
  have "0 < length (cf_cores C)" using 7(3) by linarith
  from does_parent [OF tpc_proto_does [OF 7(1) this 7(4-6)] 7(1-3,5)] show ?case .
next
  case (8 C i c m c' m' d)
  show ?case using does_sends [OF tpc_proto_does [OF 8(1-5)] 8(4,6)] by blast
next
  case (9 C i c m c' p)
  show ?case using does_exec [OF tpc_proto_does [OF 9(1-5)] 9(6)] by blast
qed

subsection \<open>Counting the ready messages\<close>

text \<open>A leader of \<open>n\<close> replicas that has counted \<open>k\<close> ready messages of client \<open>cid\<close>.\<close>

definition waiting :: "nat \<Rightarrow> nat \<Rightarrow> nat \<Rightarrow> tpc_replica \<Rightarrow> bool" where
  "waiting n cid k r \<longleftrightarrow> r_id r = 0 \<and> unat (r_num_replicas r) = n \<and>
     cid < length (ready_counter r) \<and> unat (ready_counter r ! cid) = k"

lemma ready_counts:
  assumes "waiting n cid k (cx_rep c)" and "k + 1 < n - 1" and "n < 256"
    and "msg_tag m = TPC_RDY" and "unat (msg_cid m) = cid"
  shows "\<exists>c'. message_handler_tpc False (c\<lparr>cx_msg := m\<rparr>) = Inr c' \<and> cx_acts c' = cx_acts c \<and>
    waiting n cid (k + 1) (cx_rep c') \<and> (\<exists>rc. cx_rep c' = (cx_rep c)\<lparr>ready_counter := rc\<rparr>)"
proof -
  have w: "r_id (cx_rep c) = 0" "unat (r_num_replicas (cx_rep c)) = n"
    "cid < length (ready_counter (cx_rep c))" "unat (ready_counter (cx_rep c) ! cid) = k"
    using assms(1) by (auto simp: waiting_def)
  have "unat (ready_counter (cx_rep c) ! cid + 1) = k + 1"
    using w(4) assms(2,3) by (simp add: unat_word_ariths)
  moreover have "\<not> n \<le> Suc (Suc k)" using assms(2) by simp
  ultimately show ?thesis
    using w assms(4,5)
    by (simp add: message_handler_tpc_def Let_def handle_ready_tpc_def count_ready_def waiting_def) blast
qed

text \<open>What the configuration and the counters of a leader give the commit.\<close>

definition can_commit :: "nat \<Rightarrow> tpc_replica \<Rightarrow> bool" where
  "can_commit cid r \<longleftrightarrow> unat (r_num_replicas r) \<le> length (r_replicas r) \<and> r_level r = NODE_LEVEL \<and>
     r_exec r \<noteq> None \<and> r_alg_below r = ALG_NONE \<and> cid < length (r_clients r)"

lemma can_commit_counters [simp]:
  "can_commit cid (r\<lparr>ready_counter := rc\<rparr>) = can_commit cid r"
  "can_commit cid (r\<lparr>ready_counter := rc, ack_counter := ac\<rparr>) = can_commit cid r"
  by (simp_all add: can_commit_def)

lemma commit_tpc_total:
  assumes "can_commit (unat (msg_cid (cx_msg c))) (cx_rep c)" and "wf_msg (cx_msg c)"
  shows "\<exists>c'. commit_tpc c = Inr c' \<and> execs (cx_acts c') = execs (cx_acts c) @ [payload (cx_msg c)]"
  using assms
  by (auto simp: can_commit_def commit_tpc_def Let_def next_index_def put_index_def
      st_send_others_eq update_value_tpc_def stmts st_when_def hdr)

lemma ready_commits:
  assumes "waiting n cid k (cx_rep c)" and "k + 1 = n - 1" and "n < 256" and "can_commit cid (cx_rep c)"
    and "msg_tag m = TPC_RDY" and "unat (msg_cid m) = cid" and "wf_msg m"
  shows "\<exists>c'. message_handler_tpc False (c\<lparr>cx_msg := m\<rparr>) = Inr c' \<and>
    execs (cx_acts c') = execs (cx_acts c) @ [payload m]"
proof -
  have w: "r_id (cx_rep c) = 0" "unat (r_num_replicas (cx_rep c)) = n"
    "cid < length (ready_counter (cx_rep c))" "unat (ready_counter (cx_rep c) ! cid) = k"
    using assms(1) by (auto simp: waiting_def)
  have "unat (ready_counter (cx_rep c) ! cid + 1) = k + 1"
    using w(4) assms(2,3) by (simp add: unat_word_ariths)
  moreover have "n \<le> Suc (Suc k)" using assms(2) by simp
  ultimately show ?thesis
    using w assms(4-7) commit_tpc_total [of "c\<lparr>cx_msg := m, cx_rep := (cx_rep c)
        \<lparr>ready_counter := (ready_counter (cx_rep c))[cid := ready_counter (cx_rep c) ! cid + 1]\<rparr>\<rparr>"]
    by (simp add: message_handler_tpc_def Let_def handle_ready_tpc_def count_ready_def)
qed

lemma ready_prefix:
  assumes "waiting n cid 0 (cx_rep c)" and "n < 256" and "can_commit cid (cx_rep c)"
    and "\<forall>m \<in> set ms. msg_tag m = TPC_RDY \<and> unat (msg_cid m) = cid" and "k < n - 1" and "k \<le> length ms"
  shows "\<exists>c'. handle_all (message_handler_tpc False) (take k ms) c = Inr c' \<and> cx_acts c' = cx_acts c \<and>
    waiting n cid k (cx_rep c') \<and> can_commit cid (cx_rep c')"
  using assms(5,6)
proof (induction k)
  case 0
  then show ?case using assms by simp
next
  case (Suc k)
  then obtain c1 where c1: "handle_all (message_handler_tpc False) (take k ms) c = Inr c1"
    "cx_acts c1 = cx_acts c" "waiting n cid k (cx_rep c1)" "can_commit cid (cx_rep c1)" by auto
  have m: "msg_tag (ms ! k) = TPC_RDY" "unat (msg_cid (ms ! k)) = cid"
    using assms(4) Suc.prems by auto
  obtain c2 rc where "message_handler_tpc False (c1\<lparr>cx_msg := ms ! k\<rparr>) = Inr c2"
    "cx_acts c2 = cx_acts c1" "waiting n cid (k + 1) (cx_rep c2)"
    "cx_rep c2 = (cx_rep c1)\<lparr>ready_counter := rc\<rparr>"
    using ready_counts [OF c1(3) _ assms(2) m] Suc.prems by auto
  with c1 Suc.prems show ?case
    by (auto simp: take_Suc_conv_app_nth handle_all_snoc)
qed

lemma request_resets:
  assumes "r_id (cx_rep c) = 0" and "unat (r_num_replicas (cx_rep c)) \<le> length (r_replicas (cx_rep c))"
    and "msg_tag m = REQ_TAG" and "unat (msg_cid m) < length (ready_counter (cx_rep c))"
    and "unat (msg_cid m) < length (ack_counter (cx_rep c))"
  shows "\<exists>c'. message_handler_tpc False (c\<lparr>cx_msg := m\<rparr>) = Inr c' \<and>
    cx_acts c' = cx_acts c @ map (\<lambda>d. Send (unat d) (put_tag 0 TPC_PREP m)) (others (cx_rep c)) \<and>
    waiting (unat (r_num_replicas (cx_rep c))) (unat (msg_cid m)) 0 (cx_rep c') \<and>
    (\<exists>rc ac. cx_rep c' = (cx_rep c)\<lparr>ready_counter := rc, ack_counter := ac\<rparr>)"
proof -
  have "\<exists>rc ac. r\<lparr>ready_counter := x, ack_counter := y\<rparr> = r\<lparr>ready_counter := rc, ack_counter := ac\<rparr>"
    for r :: tpc_replica and x y by blast
  with assms show ?thesis
    by (simp add: message_handler_tpc_def Let_def handle_request_tpc_def reset_counters_def stmts
        st_send_others_eq others_def waiting_def)
qed

subsection \<open>Properties\<close>

text \<open>
  C3: two-phase commit agrees: of the command sequences any two replicas have executed one is
  a prefix of the other, and once nothing is pending or in transit they are equal; whatever
  the malloc'ed counters held at the start, and whatever clients send.
\<close>

theorem tpc_agreement:
  assumes "conf_wf C" and "net_reach C (tpc_proto heap C) s"
    and "i < length (cf_cores C)" and "j < length (cf_cores C)"
  shows "(prefix (n_log s i) (n_log s j) \<or> prefix (n_log s j) (n_log s i)) \<and>
    (tpc_log.quiet C s \<longrightarrow> n_log s i = n_log s j) \<and> set (n_log s i) \<subseteq> set (n_sent s)"
  using tpc_log.agreement [OF assms] tpc_log.quiet_same [OF assms(1,2) _ assms(3)]
    tpc_log.quiet_same [OF assms(1,2) _ assms(4)] tpc_log.validity [OF assms(1-3)] by simp

text \<open>
  C14: the leader of \<open>n\<close> replicas executes a client's command exactly when the last of the
  \<open>n - 1\<close> ready messages that answer its prepare has arrived: neither the request nor any
  earlier ready message makes it execute, and the last one makes it execute the command once.
\<close>

theorem tpc_commit_on_last_ready:
  assumes "r_id (cx_rep c) = 0" and "can_commit (unat (msg_cid m0)) (cx_rep c)"
    and "2 \<le> unat (r_num_replicas (cx_rep c))"
    and "unat (msg_cid m0) < length (ready_counter (cx_rep c))"
    and "unat (msg_cid m0) < length (ack_counter (cx_rep c))"
    and "msg_tag m0 = REQ_TAG"
    and "\<forall>m \<in> set ms. wf_msg m \<and> msg_tag m = TPC_RDY \<and> msg_cid m = msg_cid m0"
    and "length ms = unat (r_num_replicas (cx_rep c)) - 1" and "k \<le> length ms"
  shows "\<exists>c'. handle_all (message_handler_tpc False) (m0 # take k ms) c = Inr c' \<and>
    execs (cx_acts c') = execs (cx_acts c) @ (if k = length ms then [payload (last ms)] else [])"
proof -
  let ?n = "unat (r_num_replicas (cx_rep c))" and ?cid = "unat (msg_cid m0)"
  have n: "?n \<le> length (r_replicas (cx_rep c))" using assms(2) by (simp add: can_commit_def)
  obtain c1 rc ac where c1: "message_handler_tpc False (c\<lparr>cx_msg := m0\<rparr>) = Inr c1"
    "cx_acts c1 = cx_acts c @ map (\<lambda>d. Send (unat d) (put_tag 0 TPC_PREP m0)) (others (cx_rep c))"
    "waiting ?n ?cid 0 (cx_rep c1)" "cx_rep c1 = (cx_rep c)\<lparr>ready_counter := rc, ack_counter := ac\<rparr>"
    using request_resets [OF assms(1) n assms(6,4,5)] by blast
  have ex1: "execs (cx_acts c1) = execs (cx_acts c)" by (simp add: c1)
  have cc: "can_commit ?cid (cx_rep c1)" using assms(2) by (simp add: c1)
  have all: "\<forall>m \<in> set ms. msg_tag m = TPC_RDY \<and> unat (msg_cid m) = ?cid" using assms(7) by simp
  note pre = ready_prefix [OF c1(3) unat_8_less cc all]
  show ?thesis
  proof (cases "k = length ms")
    case False
    then obtain c2 where "handle_all (message_handler_tpc False) (take k ms) c1 = Inr c2"
      "cx_acts c2 = cx_acts c1"
      using pre [of k] assms(8,9) by auto
    with c1 ex1 False show ?thesis by simp
  next
    case True
    define j where "j = length ms - 1"
    have len: "length ms = Suc j" using assms(3,8) by (simp add: j_def)
    obtain c2 where c2: "handle_all (message_handler_tpc False) (take j ms) c1 = Inr c2"
      "cx_acts c2 = cx_acts c1" "waiting ?n ?cid j (cx_rep c2)" "can_commit ?cid (cx_rep c2)"
      using pre [of j] assms(8) len by auto
    have m: "msg_tag (ms ! j) = TPC_RDY" "unat (msg_cid (ms ! j)) = ?cid" "wf_msg (ms ! j)"
      using assms(7) len by auto
    have "j + 1 = ?n - 1" using assms(8) len by simp
    then obtain c3 where c3: "message_handler_tpc False (c2\<lparr>cx_msg := ms ! j\<rparr>) = Inr c3"
      "execs (cx_acts c3) = execs (cx_acts c2) @ [payload (ms ! j)]"
      using ready_commits [OF c2(3) _ unat_8_less c2(4) m] by blast
    have ms: "ms = take j ms @ [ms ! j]" using len by (metis take_Suc_conv_app_nth lessI take_all_iff le_refl)
    have "handle_all (message_handler_tpc False) ms c1 = Inr c3"
      by (subst ms) (simp add: handle_all_snoc c2 c3)
    moreover have "last ms = ms ! j" by (subst ms) simp
    ultimately show ?thesis using c1(1) c2(2) c3(2) ex1 True by simp
  qed
qed

text \<open>
  The leader does not notice a ready message it has already counted: once it has
  committed a client's request, every further ready message of that client makes it execute
  and send out the command again.
\<close>

theorem tpc_extra_ready_recommits:
  assumes "waiting n cid (n - 1) (cx_rep c)" and "0 < n" and "n < 255" and "can_commit cid (cx_rep c)"
    and "msg_tag m = TPC_RDY" and "unat (msg_cid m) = cid" and "wf_msg m"
  shows "\<exists>c'. message_handler_tpc False (c\<lparr>cx_msg := m\<rparr>) = Inr c' \<and>
    execs (cx_acts c') = execs (cx_acts c) @ [payload m]"
proof -
  have w: "r_id (cx_rep c) = 0" "unat (r_num_replicas (cx_rep c)) = n"
    "cid < length (ready_counter (cx_rep c))" "unat (ready_counter (cx_rep c) ! cid) = n - 1"
    using assms(1) by (auto simp: waiting_def)
  have "unat (ready_counter (cx_rep c) ! cid + 1) = n"
    using w(4) assms(2,3) by (simp add: unat_word_ariths)
  then show ?thesis
    using w assms(4-7) commit_tpc_total [of "c\<lparr>cx_msg := m, cx_rep := (cx_rep c)
        \<lparr>ready_counter := (ready_counter (cx_rep c))[cid := ready_counter (cx_rep c) ! cid + 1]\<rparr>\<rparr>"]
    by (simp add: message_handler_tpc_def Let_def handle_ready_tpc_def count_ready_def)
qed

text \<open>The two copy loops of \<open>smlt_cores\<close>.\<close>

lemma copy_loop:
  assumes "n \<le> length src"
  shows "foldr_res (\<lambda>i xs. bindr (rd src i) (\<lambda>x. wr xs (i + b) (f x))) [0..<n] xs =
    (if n = 0 \<or> n + b \<le> length xs then Inr (map (\<lambda>k. if b \<le> k \<and> k < b + n then f (src ! (k - b)) else xs ! k) [0..<length xs])
     else Inl OutOfBounds)"
  using assms
proof (induction n)
  case 0
  then show ?case by (auto intro!: nth_equalityI)
next
  case (Suc n)
  let ?ys = "map (\<lambda>k. if b \<le> k \<and> k < b + n then f (src ! (k - b)) else xs ! k) [0..<length xs]"
  show ?case
  proof (cases "n + b < length xs")
    case True
    then have "foldr_res (\<lambda>i xs. bindr (rd src i) (\<lambda>x. wr xs (i + b) (f x))) [0..<n] xs = Inr ?ys"
      using Suc by simp
    moreover have "?ys[n + b := f (src ! n)] = map (\<lambda>k. if b \<le> k \<and> k < b + Suc n then f (src ! (k - b)) else xs ! k) [0..<length xs]"
      using True by (intro nth_equalityI) (auto simp: nth_list_update)
    ultimately show ?thesis using Suc.prems True by (simp add: foldr_res_snoc)
  next
    case False
    then show ?thesis
      using Suc by (cases "n = 0 \<or> n + b \<le> length xs") (auto simp: foldr_res_snoc)
  qed
qed

text \<open>
  The array of polled cores that the leader allocates under \<open>SMLT\<close> is too small as soon as
  it has a child in the topology: \<^verbatim>\<open>sizeof(int)*num_clients+num_c\<close> is the size in bytes of
  \<open>num_clients\<close> integers and a quarter of \<open>num_c\<close> more, so filling it writes past its end.
\<close>

theorem smlt_cores_overflow:
  assumes "unat (r_num_clients r) \<le> length (r_clients r)" and "nidx \<noteq> []"
  shows "smlt_cores r nidx = Inl OutOfBounds"
proof -
  let ?nc = "unat (r_num_clients r)"
  have "0 < length nidx" using assms(2) by simp
  then have small: "\<not> length nidx + ?nc \<le> (4 * ?nc + length nidx) div 4" by presburger
  have fits: "?nc \<le> (4 * ?nc + length nidx) div 4" by simp
  show ?thesis
    using copy_loop [of ?nc "r_clients r" 0 unat] copy_loop [of "length nidx" nidx ?nc "\<lambda>x. x"]
      assms small fits
    by (simp add: smlt_cores_def Let_def)
qed

subsection \<open>Witnesses\<close>

definition example_heap :: "u8 list \<times> u8 list" where
  "example_heap = (replicate 64 170, replicate 64 85)"

definition tpc_example :: "nat \<Rightarrow> tpc_replica ctx" where
  "tpc_example i = (case tpc_init example_heap example_conf i of
      Inr (r, t, _) \<Rightarrow> start_ctx r (ct_core t) | Inl _ \<Rightarrow> start_ctx zero_tpc zero_layer)"

lemma tpc_example_start: "tpc_start example_heap example_conf i (tpc_example i)"
proof -
  have "\<exists>x. tpc_init example_heap example_conf i = Inr x"
    by (simp add: tpc_init_def init_replica_tpc_def Let_def example_conf_def)
  then show ?thesis by (auto simp: tpc_start_def tpc_example_def start_ctx_def)
qed

definition tpc_choices :: "choice list" where
  "tpc_choices = [Client_send 5 0 example_request, Receive 0 5, Act 0, Act 0, Receive 1 0, Act 1,
     Receive 2 0, Act 2, Receive 0 1, Receive 0 2, Act 0, Act 0, Act 0, Act 0, Receive 2 0, Act 2]"

lemma tpc_run:
  "case net_run example_conf (tpc_proto example_heap example_conf) tpc_choices (empty_net tpc_example) of
     None \<Rightarrow> False
   | Some s \<Rightarrow> n_log s 0 = [[11, 12, 13]] \<and> n_log s 1 = [] \<and> n_log s 2 = [[11, 12, 13]]"
  by code_simp

lemma tpc_example_reach:
  "\<exists>s. net_reach example_conf (tpc_proto example_heap example_conf) s \<and>
     n_log s 1 = [] \<and> n_log s 2 = [[11, 12, 13]]"
proof -
  obtain s where s: "net_run example_conf (tpc_proto example_heap example_conf) tpc_choices
      (empty_net tpc_example) = Some s"
    and "n_log s 1 = [] \<and> n_log s 2 = [[11, 12, 13]]"
    using tpc_run by (auto split: option.splits)
  moreover have "net_reach example_conf (tpc_proto example_heap example_conf) s"
    by (rule example_reach [OF _ s]) (simp add: tpc_example_start)
  ultimately show ?thesis by blast
qed

theorem tpc_agreement_witness:
  "\<exists>s. net_reach example_conf (tpc_proto example_heap example_conf) s \<and> n_log s 1 = [] \<and>
     n_log s 2 = [[11, 12, 13]] \<and> (prefix (n_log s 1) (n_log s 2) \<or> prefix (n_log s 2) (n_log s 1))"
proof -
  obtain s where s: "net_reach example_conf (tpc_proto example_heap example_conf) s"
      "n_log s 1 = []" "n_log s 2 = [[11, 12, 13]]"
    using tpc_example_reach by blast
  with tpc_agreement [OF example_conf_wf s(1), of 1 2] show ?thesis by auto
qed

definition example_ready :: msg where
  "example_ready = put_tag 0 TPC_RDY example_request"

lemma example_leader:
  "r_id (cx_rep (tpc_example 0)) = 0" "unat (r_num_replicas (cx_rep (tpc_example 0))) = 3"
  "can_commit (unat (msg_cid example_request)) (cx_rep (tpc_example 0))"
  "unat (msg_cid example_request) < length (ready_counter (cx_rep (tpc_example 0)))"
  "unat (msg_cid example_request) < length (ack_counter (cx_rep (tpc_example 0)))"
  "execs (cx_acts (tpc_example 0)) = []"
  by code_simp+

lemma example_ready_facts:
  "wf_msg example_ready" "msg_tag example_ready = TPC_RDY" "msg_cid example_ready = msg_cid example_request"
  "payload example_ready = [11, 12, 13]"
  by code_simp+

theorem tpc_commit_on_last_ready_witness:
  "(\<exists>c'. handle_all (message_handler_tpc False) [example_request, example_ready] (tpc_example 0) = Inr c' \<and>
     execs (cx_acts c') = []) \<and>
   (\<exists>c'. handle_all (message_handler_tpc False) [example_request, example_ready, example_ready]
       (tpc_example 0) = Inr c' \<and> execs (cx_acts c') = [[11, 12, 13]])"
  using tpc_commit_on_last_ready [OF example_leader(1,3) _ example_leader(4,5) example_request_facts(2),
      of "[example_ready, example_ready]" 1]
    tpc_commit_on_last_ready [OF example_leader(1,3) _ example_leader(4,5) example_request_facts(2),
      of "[example_ready, example_ready]" 2]
  by (simp add: example_leader example_ready_facts)

definition committed_leader :: "tpc_replica ctx" where
  "committed_leader = (let c = tpc_example 0 in
     c\<lparr>cx_rep := (cx_rep c)\<lparr>ready_counter := replicate 64 2\<rparr>\<rparr>)"

theorem tpc_extra_ready_recommits_witness:
  "\<exists>c'. message_handler_tpc False (committed_leader\<lparr>cx_msg := example_ready\<rparr>) = Inr c' \<and>
    execs (cx_acts c') = [[11, 12, 13]]"
proof -
  have "waiting 3 0 (3 - 1) (cx_rep committed_leader)" "can_commit 0 (cx_rep committed_leader)"
    "execs (cx_acts committed_leader) = []" "unat (msg_cid example_ready) = 0"
    by code_simp+
  with tpc_extra_ready_recommits [of 3 0 committed_leader example_ready] example_ready_facts
  show ?thesis by simp
qed

theorem smlt_cores_overflow_witness: "smlt_cores (cx_rep (tpc_example 0)) [1, 2] = Inl OutOfBounds"
proof -
  have "unat (r_num_clients (cx_rep (tpc_example 0))) \<le> length (r_clients (cx_rep (tpc_example 0)))"
    by code_simp
  with smlt_cores_overflow [of "cx_rep (tpc_example 0)" "[1, 2]"] show ?thesis by simp
qed

end
