(* ===== verification/Entry_Queue.thy ===== *)
theory Entry_Queue
  imports Message
begin

text \<open>
  The queue of outstanding entries of \<^verbatim>\<open>one_replica.c\<close>: a singly linked list of malloc'ed
  \<^verbatim>\<open>struct entry\<close> with head and tail pointers. Pointers are addresses of a heap (\<open>None\<close> is
  NULL); a freed or never allocated address has no cell, and following it is a fault. The
  locale \<open>fifo\<close> is what the replica relies on; the linked list is its instance.
\<close>

text \<open>
  The entry's \<^verbatim>\<open>msg\<close> field: the replica only ever stores the pointer to the one buffer of
  its message loop, or NULL.
\<close>

datatype msg_ptr = Null_msg | Loop_msg

record entry =
  e_msg :: msg_ptr
  e_next :: "nat option"

record entry_queue =
  eq_size :: u64
  eq_head :: "nat option"
  eq_tail :: "nat option"

record entry_heap =
  eh_cells :: "nat \<Rightarrow> entry option"
  eh_fresh :: nat

definition deref :: "entry_heap \<Rightarrow> nat option \<Rightarrow> entry res" where
  "deref h p = (case p of None \<Rightarrow> Inl NullDeref
     | Some a \<Rightarrow> (case eh_cells h a of None \<Rightarrow> Inl UseAfterFree | Some e \<Rightarrow> Inr e))"

definition store :: "nat option \<Rightarrow> entry \<Rightarrow> entry_heap \<Rightarrow> entry_heap res" where
  "store p e h = bindr (deref h p) (\<lambda>_. case p of None \<Rightarrow> Inl NullDeref
     | Some a \<Rightarrow> Inr (h\<lparr>eh_cells := (eh_cells h)(a := Some e)\<rparr>))"

text \<open>\<^verbatim>\<open>malloc\<close> of an entry followed by the assignment of its message.\<close>

definition new_entry :: "msg_ptr \<Rightarrow> entry_heap \<Rightarrow> nat \<times> entry_heap" where
  "new_entry m h = (eh_fresh h,
     h\<lparr>eh_cells := (eh_cells h)(eh_fresh h := Some \<lparr>e_msg = m, e_next = None\<rparr>),
       eh_fresh := eh_fresh h + 1\<rparr>)"

definition free_entry :: "nat option \<Rightarrow> entry_heap \<Rightarrow> entry_heap res" where
  "free_entry p h = (case p of None \<Rightarrow> Inr h
     | Some a \<Rightarrow> (if eh_cells h a = None then Inl UseAfterFree
                  else Inr (h\<lparr>eh_cells := (eh_cells h)(a := None)\<rparr>)))"

subsection \<open>The operations\<close>

definition entry_queue_init :: "entry_queue \<Rightarrow> entry_queue" where
  "entry_queue_init q = \<lparr>eq_size = 0, eq_head = None, eq_tail = None\<rparr>"

definition entry_q_empty :: "entry_queue \<Rightarrow> bool" where
  "entry_q_empty q \<longleftrightarrow> eq_head q = None"

definition set_next :: "nat option \<Rightarrow> nat option \<Rightarrow> entry_heap \<Rightarrow> entry_heap res" where
  "set_next p n h = bindr (deref h p) (\<lambda>e. store p (e\<lparr>e_next := n\<rparr>) h)"

definition entry_q_enqueue ::
    "nat \<Rightarrow> entry_queue \<times> entry_heap \<Rightarrow> (entry_queue \<times> entry_heap) res" where
  "entry_q_enqueue ele = (\<lambda>(q, h).
     bindr (set_next (Some ele) None h) (\<lambda>h.
       if eq_head q = None then
         Inr (q\<lparr>eq_head := Some ele, eq_tail := Some ele, eq_size := eq_size q + 1\<rparr>, h)
       else
         bindr (set_next (eq_tail q) (Some ele) h) (\<lambda>h.
           Inr (q\<lparr>eq_tail := Some ele, eq_size := eq_size q + 1\<rparr>, h))))"

definition entry_q_dequeue ::
    "entry_queue \<times> entry_heap \<Rightarrow> ((entry_queue \<times> entry_heap) \<times> nat option) res" where
  "entry_q_dequeue = (\<lambda>(q, h).
     if eq_head q = None then Inr ((q, h), None)
     else
       bindr (deref h (eq_head q)) (\<lambda>e.
         let ele = eq_head q; q = q\<lparr>eq_head := e_next e\<rparr>;
             q = (if eq_head q = None then q\<lparr>eq_tail := None\<rparr> else q) in
         Inr ((q\<lparr>eq_size := eq_size q - 1\<rparr>, h), ele)))"

subsection \<open>The contract of a FIFO queue\<close>

text \<open>
  An arbitrary interleaving of operations, on an implementation and on a sequence: what is left
  and what the dequeues have returned.
\<close>

datatype 'a queue_op = Enq 'a | Deq

fun queue_run :: "('a \<Rightarrow> 's \<Rightarrow> 's res) \<Rightarrow> ('s \<Rightarrow> ('s \<times> 'a option) res) \<Rightarrow> 'a queue_op list \<Rightarrow> 's \<Rightarrow> ('s \<times> 'a option list) res" where
  "queue_run enq deq [] s = Inr (s, [])"
| "queue_run enq deq (Enq a # ops) s = bindr (enq a s) (queue_run enq deq ops)"
| "queue_run enq deq (Deq # ops) s = bindr (deq s) (\<lambda>(s, r). bindr (queue_run enq deq ops s) (\<lambda>(s, rs). Inr (s, r # rs)))"

fun seq_run :: "'a queue_op list \<Rightarrow> 'a list \<Rightarrow> 'a list \<times> 'a option list" where
  "seq_run [] xs = (xs, [])"
| "seq_run (Enq a # ops) xs = seq_run ops (xs @ [a])"
| "seq_run (Deq # ops) [] = map_prod id ((#) None) (seq_run ops [])"
| "seq_run (Deq # ops) (x # xs) = map_prod id ((#) (Some x)) (seq_run ops xs)"

text \<open>No element is enqueued while it is in the queue (its link is in use); a dequeued one may come back.\<close>

fun no_requeue :: "'a queue_op list \<Rightarrow> 'a list \<Rightarrow> bool" where
  "no_requeue [] xs \<longleftrightarrow> True"
| "no_requeue (Enq a # ops) xs \<longleftrightarrow> a \<notin> set xs \<and> no_requeue ops (xs @ [a])"
| "no_requeue (Deq # ops) xs \<longleftrightarrow> no_requeue ops (tl xs)"

locale fifo =
  fixes holds :: "'s \<Rightarrow> 'a list \<Rightarrow> bool"
    and ready :: "'a \<Rightarrow> 's \<Rightarrow> bool"
    and enq :: "'a \<Rightarrow> 's \<Rightarrow> 's res"
    and deq :: "'s \<Rightarrow> ('s \<times> 'a option) res"
  assumes enq_law: "holds s xs \<Longrightarrow> ready a s \<Longrightarrow> a \<notin> set xs \<Longrightarrow>
      \<exists>s'. enq a s = Inr s' \<and> holds s' (xs @ [a])"
    and ready_enq: "enq a s = Inr s' \<Longrightarrow> ready b s \<Longrightarrow> ready b s'"
    and ready_deq: "deq s = Inr (s', r) \<Longrightarrow> ready b s \<Longrightarrow> ready b s'"
    and deq_empty: "holds s [] \<Longrightarrow> deq s = Inr (s, None)"
    and deq_law: "holds s (x # xs) \<Longrightarrow> \<exists>s'. deq s = Inr (s', Some x) \<and> holds s' xs"
begin

lemma run_law:
  "holds s xs \<Longrightarrow> \<forall>a. Enq a \<in> set ops \<longrightarrow> ready a s \<Longrightarrow> no_requeue ops xs \<Longrightarrow> seq_run ops xs = (ys, rs) \<Longrightarrow>
   \<exists>s'. queue_run enq deq ops s = Inr (s', rs) \<and> holds s' ys"
proof (induction ops xs arbitrary: s ys rs rule: seq_run.induct)
  case (1 xs)
  then show ?case by simp
next
  case (2 a ops xs)
  then obtain s1 where s1: "enq a s = Inr s1" "holds s1 (xs @ [a])"
    using enq_law [of s xs a] by auto
  moreover have "\<forall>b. Enq b \<in> set ops \<longrightarrow> ready b s1" using "2.prems"(2) ready_enq [OF s1(1)] by simp
  ultimately show ?case using "2.IH" [of s1 ys rs] "2.prems"(3,4) by simp
next
  case (3 ops)
  obtain rs' where rs: "seq_run ops [] = (ys, rs')" "rs = None # rs'"
    using "3.prems"(4) by (cases "seq_run ops []") auto
  obtain s' where "queue_run enq deq ops s = Inr (s', rs')" "holds s' ys"
    using "3.IH" [of s ys rs'] "3.prems" rs(1) by auto
  then show ?case using deq_empty [OF "3.prems"(1)] rs(2) by simp
next
  case (4 ops x xs)
  obtain rs' where rs: "seq_run ops xs = (ys, rs')" "rs = Some x # rs'"
    using "4.prems"(4) by (cases "seq_run ops xs") auto
  obtain s1 where s1: "deq s = Inr (s1, Some x)" "holds s1 xs" using deq_law [OF "4.prems"(1)] by blast
  moreover have "\<forall>b. Enq b \<in> set ops \<longrightarrow> ready b s1" using "4.prems"(2) ready_deq [OF s1(1)] by simp
  ultimately obtain s' where "queue_run enq deq ops s1 = Inr (s', rs')" "holds s' ys"
    using "4.IH" [of s1 ys rs'] "4.prems"(3) rs(1) by auto
  then show ?case using s1(1) rs(2) by simp
qed

end

subsection \<open>The linked list\<close>

fun path :: "entry_heap \<Rightarrow> nat option \<Rightarrow> nat list \<Rightarrow> bool" where
  "path h p [] \<longleftrightarrow> p = None"
| "path h p (a # as) \<longleftrightarrow> p = Some a \<and> (\<exists>e. eh_cells h a = Some e \<and> path h (e_next e) as)"

definition queue_holds :: "entry_queue \<times> entry_heap \<Rightarrow> nat list \<Rightarrow> bool" where
  "queue_holds = (\<lambda>(q, h) as. path h (eq_head q) as \<and> distinct as \<and> eq_size q = of_nat (length as) \<and>
     eq_tail q = (if as = [] then None else Some (last as)))"

definition cell_ready :: "nat \<Rightarrow> entry_queue \<times> entry_heap \<Rightarrow> bool" where
  "cell_ready a = (\<lambda>(q, h). eh_cells h a \<noteq> None)"

lemma path_cells: "path h p as \<Longrightarrow> a \<in> set as \<Longrightarrow> eh_cells h a \<noteq> None"
  by (induction as arbitrary: p) auto

lemma path_other:
  "a \<notin> set as \<Longrightarrow> path (h\<lparr>eh_cells := (eh_cells h)(a := e)\<rparr>) p as = path h p as"
  by (induction as arbitrary: p) auto

lemma path_snoc:
  "path h p as \<Longrightarrow> as \<noteq> [] \<Longrightarrow> distinct (as @ [b]) \<Longrightarrow> eh_cells h b = Some eb \<Longrightarrow> e_next eb = None \<Longrightarrow>
   eh_cells h (last as) = Some el \<Longrightarrow>
   path (h\<lparr>eh_cells := (eh_cells h)(last as := Some (el\<lparr>e_next := Some b\<rparr>))\<rparr>) p (as @ [b])"
proof (induction as arbitrary: p)
  case Nil
  then show ?case by simp
next
  case (Cons a as)
  show ?case
  proof (cases "as = []")
    case True
    with Cons.prems show ?thesis by auto
  next
    case False
    then have "last as \<noteq> a" using Cons.prems(3) by auto
    with False Cons show ?thesis by auto
  qed
qed

lemma set_next_eq:
  "eh_cells h a = Some e \<Longrightarrow>
   set_next (Some a) n h = Inr (h\<lparr>eh_cells := (eh_cells h)(a := Some (e\<lparr>e_next := n\<rparr>))\<rparr>)"
  by (simp add: set_next_def deref_def store_def)

lemma enqueue_law:
  assumes "queue_holds s as" and "cell_ready b s" and "b \<notin> set as"
  shows "\<exists>s'. entry_q_enqueue b s = Inr s' \<and> queue_holds s' (as @ [b])"
proof -
  obtain q h where s: "s = (q, h)" by (cases s)
  obtain eb where eb: "eh_cells h b = Some eb" using assms(2) by (auto simp: s cell_ready_def)
  let ?h = "h\<lparr>eh_cells := (eh_cells h)(b := Some (eb\<lparr>e_next := None\<rparr>))\<rparr>"
  have p: "path ?h (eq_head q) as" and d: "distinct as" and sz: "eq_size q = of_nat (length as)"
    and tl: "as \<noteq> [] \<Longrightarrow> eq_tail q = Some (last as)"
    using assms(1,3) by (auto simp: s queue_holds_def path_other)
  show ?thesis
  proof (cases "as = []")
    case True
    then show ?thesis using p sz eb
      by (auto simp: s entry_q_enqueue_def set_next_eq queue_holds_def)
  next
    case False
    then obtain el where el: "eh_cells ?h (last as) = Some el"
      using path_cells [OF p] by (metis last_in_set not_None_eq)
    have "eq_head q \<noteq> None" using p False by (cases as) auto
    moreover have "path (?h\<lparr>eh_cells := (eh_cells ?h)(last as := Some (el\<lparr>e_next := Some b\<rparr>))\<rparr>)
        (eq_head q) (as @ [b])"
      using p False d assms(3) el by (intro path_snoc [where eb = "eb\<lparr>e_next := None\<rparr>"]) auto
    ultimately show ?thesis
      using False d sz tl assms(3) eb set_next_eq [OF el]
      by (auto simp: s entry_q_enqueue_def set_next_eq queue_holds_def)
  qed
qed

lemma dequeue_law:
  assumes "queue_holds s (a # as)"
  shows "\<exists>s'. entry_q_dequeue s = Inr (s', Some a) \<and> queue_holds s' as"
proof -
  obtain q h where s: "s = (q, h)" by (cases s)
  with assms obtain e where "eq_head q = Some a" "eh_cells h a = Some e" "path h (e_next e) as"
    "distinct as" "eq_size q = 1 + of_nat (length as)" "eq_tail q = Some (last (a # as))"
    by (auto simp: queue_holds_def)
  then show ?thesis
    by (cases as) (auto simp: s entry_q_dequeue_def deref_def Let_def queue_holds_def)
qed

lemma dequeue_keeps_cells: "entry_q_dequeue s = Inr (s', r) \<Longrightarrow> cell_ready b s \<Longrightarrow> cell_ready b s'"
  by (cases s) (auto simp: entry_q_dequeue_def cell_ready_def bindr_eq_Inr Let_def split: if_splits)

lemma enqueue_keeps_cells:
  "entry_q_enqueue a s = Inr s' \<Longrightarrow> cell_ready b s \<Longrightarrow> cell_ready b s'"
  by (cases s)
    (auto simp: entry_q_enqueue_def bindr_eq_Inr set_next_def store_def deref_def cell_ready_def
      split: option.splits if_splits)

interpretation entries: fifo queue_holds cell_ready entry_q_enqueue entry_q_dequeue
proof (unfold_locales, goal_cases)
  case (1 s xs a)
  then show ?case by (rule enqueue_law)
next
  case (2 a s s' b)
  then show ?case by (rule enqueue_keeps_cells)
next
  case (3 s s' r b)
  then show ?case by (rule dequeue_keeps_cells)
next
  case (4 s)
  then show ?case by (cases s) (simp add: queue_holds_def entry_q_dequeue_def)
next
  case (5 s x xs)
  then show ?case by (rule dequeue_law)
qed

text \<open>A new entry can always be queued: its address is not in use.\<close>

definition allocated :: "entry_heap \<Rightarrow> bool" where
  "allocated h \<longleftrightarrow> (\<forall>a. eh_cells h a \<noteq> None \<longrightarrow> a < eh_fresh h)"

lemma set_next_allocated: "set_next p n h = Inr h' \<Longrightarrow> allocated h \<Longrightarrow> allocated h'"
  by (auto simp: set_next_def store_def deref_def allocated_def bindr_eq_Inr split: option.splits if_splits)

lemma enqueue_allocated: "entry_q_enqueue a (q, h) = Inr (q', h') \<Longrightarrow> allocated h \<Longrightarrow> allocated h'"
  by (auto simp: entry_q_enqueue_def bindr_eq_Inr split: if_splits dest: set_next_allocated)

lemma enqueue_new:
  assumes "queue_holds (q, h) as" and "allocated h" and "new_entry m h = (ele, h1)"
  shows "\<exists>q' h'. entry_q_enqueue ele (q, h1) = Inr (q', h') \<and> queue_holds (q', h') (as @ [ele]) \<and> allocated h'"
proof -
  have h1: "h1 = h\<lparr>eh_cells := (eh_cells h)(eh_fresh h := Some \<lparr>e_msg = m, e_next = None\<rparr>), eh_fresh := eh_fresh h + 1\<rparr>"
    "ele = eh_fresh h" using assms(3) by (auto simp: new_entry_def)
  have p: "path h (eq_head q) as" using assms(1) by (simp add: queue_holds_def)
  have new: "eh_fresh h \<notin> set as"
    using path_cells [OF p] assms(2) by (auto simp: allocated_def)
  have "path (h\<lparr>eh_cells := (eh_cells h)(eh_fresh h := Some e), eh_fresh := n\<rparr>) r as = path h r as" if "eh_fresh h \<notin> set as" for r e n as
    using that by (induction as arbitrary: r) auto
  from this [OF new] have "queue_holds (q, h1) as" using assms(1) by (simp add: queue_holds_def h1)
  moreover have "cell_ready ele (q, h1)" by (simp add: cell_ready_def h1)
  ultimately obtain s' where s': "entry_q_enqueue ele (q, h1) = Inr s'" "queue_holds s' (as @ [ele])"
    using enqueue_law [of "(q, h1)" as ele] new h1(2) by auto
  obtain q' h' where "s' = (q', h')" by (cases s')
  moreover have "allocated h1" using assms(2) by (auto simp: allocated_def h1 less_SucI)
  ultimately show ?thesis using s' enqueue_allocated [of ele q h1 q' h'] by auto
qed

subsection \<open>Properties\<close>

text \<open>
  C23: the linked list implements a sequence under any interleaving of its operations: from an
  initialised queue, enqueueing allocated entries that are not in the queue and dequeueing, in
  any order and also from the empty queue, never faults; the dequeues return what they return on
  a sequence (its first element, or nothing when it is empty); and afterwards the list holds exactly
  the sequence that is left, linked from head to tail, the tail points to its last
  entry, both pointers are NULL when it is empty, and the size is its length.
\<close>

theorem entry_queue_fifo:
  assumes "\<forall>a. Enq a \<in> set ops \<longrightarrow> eh_cells h a \<noteq> None" and "no_requeue ops []" and "seq_run ops [] = (ys, rs)"
  shows "\<exists>q' h'. queue_run entry_q_enqueue entry_q_dequeue ops (entry_queue_init q, h) = Inr ((q', h'), rs) \<and>
    path h' (eq_head q') ys \<and> eq_head q' = (if ys = [] then None else Some (hd ys)) \<and>
    eq_tail q' = (if ys = [] then None else Some (last ys)) \<and> eq_size q' = of_nat (length ys)"
proof -
  have "queue_holds (entry_queue_init q, h) []" by (simp add: queue_holds_def entry_queue_init_def)
  moreover have "\<forall>a. Enq a \<in> set ops \<longrightarrow> cell_ready a (entry_queue_init q, h)"
    using assms(1) by (simp add: cell_ready_def)
  ultimately obtain q' h' where run: "queue_run entry_q_enqueue entry_q_dequeue ops (entry_queue_init q, h) = Inr ((q', h'), rs)"
    and holds: "queue_holds (q', h') ys"
    using entries.run_law [OF _ _ assms(2,3)] by fastforce
  have "eq_head q' = (if ys = [] then None else Some (hd ys))"
    using holds by (cases ys) (simp_all add: queue_holds_def)
  with run holds show ?thesis by (simp add: queue_holds_def)
qed

definition example_entries :: entry_heap where
  "example_entries = snd (new_entry Loop_msg (snd (new_entry Loop_msg
     \<lparr>eh_cells = (\<lambda>_. None), eh_fresh = 0\<rparr>)))"

definition example_entry_queue :: entry_queue where
  "example_entry_queue = \<lparr>eq_size = 0, eq_head = None, eq_tail = None\<rparr>"

theorem entry_queue_fifo_witness:
  "\<exists>q' h'. queue_run entry_q_enqueue entry_q_dequeue [Enq 1, Enq 0, Deq, Enq 1, Deq, Deq, Deq, Enq 0]
      (entry_queue_init example_entry_queue, example_entries) = Inr ((q', h'), [Some 1, Some 0, Some 1, None]) \<and>
    path h' (eq_head q') [0] \<and> eq_head q' = Some 0 \<and> eq_tail q' = Some 0 \<and> eq_size q' = 1"
  using entry_queue_fifo [of "[Enq 1, Enq 0, Deq, Enq 1, Deq, Deq, Deq, Enq 0]" example_entries "[0]"
      "[Some 1, Some 0, Some 1, None]" example_entry_queue]
  by (simp add: example_entries_def new_entry_def)

end
