(* ===== verification/Onepaxos.thy ===== *)
theory Onepaxos
  imports Network Entry_Queue
begin

text \<open>
  The 1Paxos protocol, \<^verbatim>\<open>one_replica.c\<close>: the leader sends a request to the one active
  acceptor, which executes it and broadcasts a learn message; the learners execute it and the
  leader answers the client. Requests are executed at most once per client and request id.
  A part of the file handles the change of leader and acceptor; its messages are answered in
  place and most of their sends are still missing from the code. \<open>smlt\<close> and \<open>kvs\<close> are the
  build flags; the failure injections of \<^verbatim>\<open>flags.h\<close> and \<^verbatim>\<open>VERIFY\<close> are off.
\<close>

definition ONE_PREP :: u16 where "ONE_PREP = 3"
definition ONE_PREP_RESP :: u16 where "ONE_PREP_RESP = 4"
definition ONE_ACC :: u16 where "ONE_ACC = 5"
definition ONE_LEARN :: u16 where "ONE_LEARN = 6"
definition ONE_IS_ALIVE :: u16 where "ONE_IS_ALIVE = 7"
definition ONE_CHANGE_LEADER :: u16 where "ONE_CHANGE_LEADER = 8"
definition ONE_IS_LEADER :: u16 where "ONE_IS_LEADER = 9"
definition ONE_GET_ACCEPTOR :: u16 where "ONE_GET_ACCEPTOR = 10"
definition ONE_ABAN :: u16 where "ONE_ABAN = 11"
definition ONE_CHANGE_ACCEPTOR :: u16 where "ONE_CHANGE_ACCEPTOR = 12"

lemmas one_tag_defs [algs] = ONE_PREP_def ONE_PREP_RESP_def ONE_ACC_def ONE_LEARN_def
  ONE_IS_ALIVE_def ONE_CHANGE_LEADER_def ONE_IS_LEADER_def ONE_GET_ACCEPTOR_def ONE_ABAN_def
  ONE_CHANGE_ACCEPTOR_def

text \<open>
  The replica. The structure's \<^verbatim>\<open>last_entry\<close> is only used for its message pointer; its fields
  \<^verbatim>\<open>proposals\<close>, \<^verbatim>\<open>chosen\<close>, \<^verbatim>\<open>last_index\<close>, \<^verbatim>\<open>prog_string\<close> and \<^verbatim>\<open>num_requests\<close> are never used.
  The entries of the queue live on the heap \<open>o_heap\<close>.
\<close>

record one_replica = replica +
  o_leader :: u8
  o_acceptor :: u8
  o_leader_timeout :: bool
  o_acceptor_timeout :: bool
  o_change :: bool
  o_voted :: bool
  o_is_dead :: "bool list"
  o_backoff :: u16
  o_proposal_index :: u64
  o_index :: u64
  o_current_n :: u64
  o_highest :: u64
  o_last_rid :: "u64 list"
  o_num_success :: u16
  o_votes :: "u16 list"
  o_queue :: entry_queue
  o_queue_ready :: bool
  o_last_entry :: msg_ptr
  o_heap :: entry_heap

type_synonym one_ctx = "one_replica ctx"

definition st_rep :: "('r \<Rightarrow> 'r) \<Rightarrow> 'r ctx \<Rightarrow> 'r ctx res" where
  "st_rep f c = Inr (c\<lparr>cx_rep := f (cx_rep c)\<rparr>)"

definition st_cid :: "u16 \<Rightarrow> 'r ctx \<Rightarrow> 'r ctx res" where
  "st_cid i c = Inr (c\<lparr>cx_msg := put_client_id 0 i (cx_msg c)\<rparr>)"

definition data :: "'r ctx \<Rightarrow> nat \<Rightarrow> u64 res" where
  "data c i = rd (cx_msg c) i"

subsection \<open>Execution\<close>

text \<open>
  \<^verbatim>\<open>execute\<close>: a request id not greater than the client's last executed one is a repetition,
  unless the last one is still the initial \<open>-1\<close>. The flag says whether it was executed.
\<close>

definition repetitive :: "u64 \<Rightarrow> u32 \<Rightarrow> bool" where
  "repetitive l r \<longleftrightarrow> l = ucast r \<or> (l > ucast r \<and> l \<noteq> -1)"

definition execute_onepaxos :: "one_ctx \<Rightarrow> (one_ctx \<times> bool) res" where
  "execute_onepaxos c =
     (let r = cx_rep c; k = unat (msg_cid (cx_msg c)) in
      bindr (rd (o_last_rid r) k) (\<lambda>l.
        if repetitive l (msg_rid (cx_msg c)) then Inr (c, False)
        else
          bindr (st_exec (r_exec r) c) (\<lambda>c.
          bindr (wr (o_last_rid r) k (ucast (msg_rid (cx_msg c)))) (\<lambda>lr.
            Inr (c\<lparr>cx_rep := r\<lparr>o_last_rid := lr\<rparr>\<rparr>, True)))))"

definition next_acceptor_id :: "one_replica \<Rightarrow> u16" where
  "next_acceptor_id r =
     (case find (\<lambda>i. unat (o_leader r) \<noteq> i) [unat (o_acceptor r) + 1..<unat (r_num_replicas r)] of
        None \<Rightarrow> -1 | Some i \<Rightarrow> of_nat i)"

text \<open>The number of other replicas whose agreement makes a majority.\<close>

definition majority_of :: "u8 \<Rightarrow> nat" where
  "majority_of n = (if even (unat n) then (unat n - 1) div 2 + 1 else (unat n - 1) div 2)"

subsection \<open>Handlers of the normal case\<close>

definition handle_setup_onepaxos :: "one_ctx \<Rightarrow> one_ctx res" where
  "handle_setup_onepaxos c = st_setup (r_clients (cx_rep c)) (r_num_clients (cx_rep c)) c"

definition enqueue_msg :: "msg_ptr \<Rightarrow> one_ctx \<Rightarrow> one_ctx res" where
  "enqueue_msg m c =
     (let r = cx_rep c; (ele, h) = new_entry m (o_heap r) in
      bindr (entry_q_enqueue ele (o_queue r, h)) (\<lambda>(q, h).
        Inr (c\<lparr>cx_rep := r\<lparr>o_queue := q, o_heap := h\<rparr>\<rparr>)))"

definition handle_request_onepaxos :: "one_ctx \<Rightarrow> one_ctx res" where
  "handle_request_onepaxos c =
     (let r = cx_rep c in
      do_all [st_start_timer,
        if r_id r = o_leader r then
          do_all [enqueue_msg Loop_msg, st_tag ONE_ACC, st_send_at (r_replicas r) (unat (o_acceptor r)),
            st_rep (\<lambda>r. r\<lparr>o_proposal_index := o_proposal_index r + 1\<rparr>)]
        else
          do_all [st_print ''Forward'', st_send_at (r_replicas r) (unat (o_leader r))]] c)"

text \<open>
  The learn broadcast of the acceptor leaves out replica 1, which is the acceptor of the
  builds without Smelt's broadcast.
\<close>

definition send_learn :: "u8 list \<Rightarrow> u8 \<Rightarrow> one_ctx \<Rightarrow> one_ctx res" where
  "send_learn replicas n =
     foldr_res (\<lambda>i. if i = 1 then Inr else st_send_at replicas i) [0..<unat n]"

definition st_execute :: "one_ctx \<Rightarrow> one_ctx res" where
  "st_execute c = bindr (execute_onepaxos c) (\<lambda>(c, ok). Inr c)"

definition advance_index :: "one_ctx \<Rightarrow> one_ctx res" where
  "advance_index c =
     bindr (data c 1) (\<lambda>d.
     let r = cx_rep c; r = (if o_index r \<noteq> d then r\<lparr>o_index := d\<rparr> else r) in
     Inr (c\<lparr>cx_rep := r\<lparr>o_index := o_index r + 1\<rparr>\<rparr>))"

definition handle_accept_onepaxos :: "bool \<Rightarrow> one_ctx \<Rightarrow> one_ctx res" where
  "handle_accept_onepaxos smlt c =
     (let r = cx_rep c in
      bindr (data c 2) (\<lambda>n.
        if o_highest r \<le> n then
          do_all [st_rep (\<lambda>r. r\<lparr>o_last_entry := Loop_msg\<rparr>),
            st_tag ONE_LEARN,
            st_data 1 (o_index r),
            if smlt then st_bcast else send_learn (r_replicas r) (r_num_replicas r),
            st_execute,
            st_when (r_alg_below r \<noteq> ALG_NONE) st_core,
            advance_index] c
        else st_print ''in accept sending abandon'' c))"

definition drop_entry :: "one_ctx \<Rightarrow> one_ctx res" where
  "drop_entry c =
     (let r = cx_rep c in
      bindr (entry_q_dequeue (o_queue r, o_heap r)) (\<lambda>((q, h), ele).
      bindr (free_entry ele h) (\<lambda>h.
        Inr (c\<lparr>cx_rep := r\<lparr>o_queue := q, o_heap := h\<rparr>\<rparr>))))"

definition trim_queue :: "one_ctx \<Rightarrow> one_ctx res" where
  "trim_queue c =
     (let r = cx_rep c in
      st_when (eq_size (o_queue r) > (o_proposal_index r - o_index r) + 1) drop_entry c)"

definition reply_onepaxos :: "bool \<Rightarrow> one_ctx \<Rightarrow> one_ctx res" where
  "reply_onepaxos kvs c =
     (let r = cx_rep c in
      do_all [if r_level r = NODE_LEVEL
              then st_when (\<not> kvs) (do_all [st_tag RESP_TAG, st_reply (r_clients r)])
              else do_all [st_tag RESP_TAG, st_send (unat (r_started_from r))],
        st_count] c)"

definition handle_learn_onepaxos :: "bool \<Rightarrow> one_ctx \<Rightarrow> one_ctx res" where
  "handle_learn_onepaxos kvs c =
     bindr (do_all [st_start_timer, st_rep (\<lambda>r. r\<lparr>o_voted := False, o_change := False\<rparr>)] c) (\<lambda>c.
     bindr (execute_onepaxos c) (\<lambda>(c, success).
     bindr (do_all [st_when (r_alg_below (cx_rep c) \<noteq> ALG_NONE) st_core, advance_index] c) (\<lambda>c.
       if r_id (cx_rep c) = o_leader (cx_rep c)
       then do_all [trim_queue, st_when success (reply_onepaxos kvs)] c
       else Inr c)))"

subsection \<open>Handlers of the change of leader and acceptor\<close>

definition handle_prepare_onepaxos :: "one_ctx \<Rightarrow> one_ctx res" where
  "handle_prepare_onepaxos c =
     (let r = cx_rep c in
      bindr (data c 2) (\<lambda>n.
        if o_highest r < n then
          do_all [st_rep (\<lambda>r. r\<lparr>o_highest := n\<rparr>),
            st_tag ONE_PREP_RESP, st_send (unat (o_leader r)),
            st_tag ONE_IS_ALIVE, st_send (unat (o_leader r))] c
        else Inr c))"

text \<open>
  The loop that empties the queue: the tag is set in the entry's message, but it is the
  received message that is sent. The entry's message can only be the same buffer or NULL.
\<close>

fun resend_entries :: "nat \<Rightarrow> one_ctx \<Rightarrow> one_ctx res" where
  "resend_entries 0 c = Inl Blocked"
| "resend_entries (Suc n) c =
     (let r = cx_rep c in
      if entry_q_empty (o_queue r) then Inr c
      else
        bindr (entry_q_dequeue (o_queue r, o_heap r)) (\<lambda>((q, h), ele).
        bindr (deref h ele) (\<lambda>e.
          case e_msg e of Null_msg \<Rightarrow> Inl NullDeref
          | Loop_msg \<Rightarrow>
            bindr (do_all [st_tag ONE_ACC, st_send (unat (o_leader r))] c) (\<lambda>c.
            bindr (free_entry ele h) (\<lambda>h.
              resend_entries n (c\<lparr>cx_rep := (cx_rep c)\<lparr>o_queue := q, o_heap := h\<rparr>\<rparr>))))))"

definition handle_prepare_response_onepaxos :: "one_ctx \<Rightarrow> one_ctx res" where
  "handle_prepare_response_onepaxos c =
     (let r = cx_rep c in
      if \<not> o_queue_ready r then
        do_all [st_rep (\<lambda>r. r\<lparr>o_queue := entry_queue_init (o_queue r), o_queue_ready := True,
                   o_proposal_index := o_index r\<rparr>),
          enqueue_msg (o_last_entry r),
          st_rep (\<lambda>r. r\<lparr>o_change := False\<rparr>)] c
      else
        bindr (st_rep (\<lambda>r. r\<lparr>o_change := False\<rparr>) c)
          (resend_entries (unat (eq_size (o_queue r)) + 1)))"

definition handle_abandon_onepaxos :: "one_ctx \<Rightarrow> one_ctx res" where
  "handle_abandon_onepaxos c = Inr c"

definition handle_is_current_leader :: "one_ctx \<Rightarrow> one_ctx res" where
  "handle_is_current_leader c =
     do_all [st_data 1 1,
       st_data 2 (if unat (msg_cid (cx_msg c)) = unat (o_leader (cx_rep c)) then 1 else 0)] c"

definition handle_get_current_acceptor :: "one_ctx \<Rightarrow> one_ctx res" where
  "handle_get_current_acceptor c =
     (let r = cx_rep c in
      if \<not> o_voted r then
        do_all [st_data 1 1, st_data 2 (ucast (o_acceptor r)), st_cid (ucast (r_id r)),
          st_rep (\<lambda>r. r\<lparr>o_voted := True, o_change := True\<rparr>)] c
      else Inr c)"

text \<open>
  After a majority the leader moves to the next acceptor. The result of
  \<^verbatim>\<open>next_acceptor_id\<close> is cut to the \<^verbatim>\<open>uint8_t\<close> it is stored in before it is compared
  with 65535.
\<close>

definition move_acceptor :: "one_ctx \<Rightarrow> one_ctx res" where
  "move_acceptor c =
     (let r = cx_rep c in
      bindr (wr (o_is_dead r) (unat (o_acceptor r)) True) (\<lambda>dead.
      let r = r\<lparr>o_is_dead := dead\<rparr>; a = (ucast (next_acceptor_id r) :: u8);
          c = c\<lparr>cx_rep := r\<lparr>o_acceptor := a\<rparr>\<rparr> in
      if unat a = 65535 then st_print ''not enough nodes left to get new acceptor'' c
      else
        do_all [st_rep (\<lambda>r. r\<lparr>o_current_n := o_current_n r + 1\<rparr>),
          st_tag ONE_CHANGE_ACCEPTOR, st_data 2 (ucast a),
          st_rep (\<lambda>r. r\<lparr>o_num_success := 0\<rparr>), st_print ''sending prepare'', st_tag ONE_ACC] c))"

definition handle_is_current_leader_response :: "one_ctx \<Rightarrow> one_ctx res" where
  "handle_is_current_leader_response c =
     bindr (data c 2) (\<lambda>yes.
       if yes = 1 then
         bindr (st_rep (\<lambda>r. r\<lparr>o_num_success := o_num_success r + 1\<rparr>) c) (\<lambda>c.
           if unat (o_num_success (cx_rep c)) = majority_of (r_num_replicas (cx_rep c))
           then move_acceptor c else Inr c)
       else Inr c)"

definition become_leader :: "u64 \<Rightarrow> one_ctx \<Rightarrow> one_ctx res" where
  "become_leader acceptor c =
     (let r = cx_rep c\<lparr>o_acceptor := ucast acceptor\<rparr> in
      bindr (wr (o_is_dead r) (unat (o_leader r)) True) (\<lambda>dead.
      let r = r\<lparr>o_is_dead := dead, o_current_n := o_current_n r + 1, o_leader := r_id r\<rparr> in
      bindr (foldr_res (\<lambda>i v. wr v i 0) [0..<unat (r_num_replicas r)] (o_votes r)) (\<lambda>votes.
      do_all [st_tag ONE_CHANGE_LEADER, st_data 2 (ucast (r_id r)), st_print ''I'm the new leader'',
        st_print ''sending prepare to'', st_tag ONE_PREP] (c\<lparr>cx_rep := r\<lparr>o_votes := votes\<rparr>\<rparr>))))"

definition handle_get_current_acceptor_response :: "one_ctx \<Rightarrow> one_ctx res" where
  "handle_get_current_acceptor_response c =
     bindr (data c 2) (\<lambda>a.
     bindr (rd (o_votes (cx_rep c)) (unat a)) (\<lambda>v.
     bindr (wr (o_votes (cx_rep c)) (unat a) (v + 1)) (\<lambda>votes.
     let c = c\<lparr>cx_rep := (cx_rep c)\<lparr>o_votes := votes\<rparr>\<rparr> in
     if unat (v + 1) = majority_of (r_num_replicas (cx_rep c)) then become_leader a c else Inr c)))"

definition handle_change_leader :: "one_ctx \<Rightarrow> one_ctx res" where
  "handle_change_leader c =
     (let r = cx_rep c; i = msg_cid (cx_msg c) in
      if unat i \<noteq> unat (o_leader r) then
        bindr (wr (o_is_dead r) (unat (o_leader r)) True) (\<lambda>dead.
          Inr (c\<lparr>cx_rep := r\<lparr>o_is_dead := dead, o_leader := ucast i, o_leader_timeout := False\<rparr>\<rparr>))
      else Inr c)"

definition handle_change_acceptor :: "one_ctx \<Rightarrow> one_ctx res" where
  "handle_change_acceptor c =
     (let r = cx_rep c in
      if unat (msg_cid (cx_msg c)) = unat (o_leader r) then
        bindr (wr (o_is_dead r) (unat (o_acceptor r)) True) (\<lambda>dead.
        bindr (data c 2) (\<lambda>a.
          Inr (c\<lparr>cx_rep := r\<lparr>o_is_dead := dead, o_acceptor := ucast a, o_acceptor_timeout := False\<rparr>\<rparr>)))
      else Inr c)"

definition handle_is_alive :: "one_ctx \<Rightarrow> one_ctx res" where
  "handle_is_alive c = do_all [st_data 1 1, st_data 2 (ucast (r_id (cx_rep c)))] c"

definition handle_is_alive_response :: "one_ctx \<Rightarrow> one_ctx res" where
  "handle_is_alive_response c =
     bindr (data c 2) (\<lambda>d.
       if d = ucast (o_leader (cx_rep c)) then st_rep (\<lambda>r. r\<lparr>o_leader_timeout := False\<rparr>) c
       else if d = ucast (o_acceptor (cx_rep c)) then st_rep (\<lambda>r. r\<lparr>o_acceptor_timeout := False\<rparr>) c
       else Inr c)"

definition by_index :: "(one_ctx \<Rightarrow> one_ctx res) \<Rightarrow> (one_ctx \<Rightarrow> one_ctx res) \<Rightarrow> one_ctx \<Rightarrow> one_ctx res" where
  "by_index f g c = bindr (data c 1) (\<lambda>d. if d = 0 then f c else g c)"

definition message_handler_onepaxos :: "bool \<Rightarrow> bool \<Rightarrow> one_ctx \<Rightarrow> one_ctx res" where
  "message_handler_onepaxos smlt kvs c =
     (let t = msg_tag (cx_msg c) in
      if t = SETUP_TAG then handle_setup_onepaxos c
      else if t = REQ_TAG then handle_request_onepaxos c
      else if t = ONE_PREP then handle_prepare_onepaxos c
      else if t = ONE_PREP_RESP then handle_prepare_response_onepaxos c
      else if t = ONE_ACC then handle_accept_onepaxos smlt c
      else if t = ONE_LEARN then handle_learn_onepaxos kvs c
      else if t = ONE_ABAN then handle_abandon_onepaxos c
      else if t = ONE_CHANGE_LEADER then handle_change_leader c
      else if t = ONE_CHANGE_ACCEPTOR then handle_change_acceptor c
      else if t = ONE_IS_LEADER
        then by_index handle_is_current_leader handle_is_current_leader_response c
      else if t = ONE_GET_ACCEPTOR
        then by_index handle_get_current_acceptor handle_get_current_acceptor_response c
      else if t = ONE_IS_ALIVE then by_index handle_is_alive handle_is_alive_response c
      else st_print ''unknown message type'' c)"

subsection \<open>The message loops\<close>

text \<open>
  The cores the SMLT leader polls: \<open>2 * num_clients\<close> words from \<^verbatim>\<open>malloc\<close>, holding \<open>mem\<close>, of
  which the first half is set to the clients; the second loop stores the topology parent
  again and again in element \<open>num_clients\<close>.
\<close>

definition smlt_cores_onepaxos :: "one_replica \<Rightarrow> u64 \<Rightarrow> u64 list \<Rightarrow> u64 list res" where
  "smlt_cores_onepaxos r parent mem =
     (let nc = unat (r_num_clients r) in
      bindr (foldr_res (\<lambda>i xs. bindr (rd (r_clients r) i) (\<lambda>x. wr xs i (ucast x))) [0..<nc] mem)
        (foldr_res (\<lambda>i xs. wr xs nc parent) [nc..<nc * 2]))"

definition leader_loop_onepaxos_smlt ::
    "bool \<Rightarrow> u64 list \<Rightarrow> (u64 \<Rightarrow> msg option) \<Rightarrow> msg option \<Rightarrow> nat \<Rightarrow> one_ctx \<Rightarrow> one_ctx res" where
  "leader_loop_onepaxos_smlt kvs cores recv bcast i c =
     bindr (rd cores i) (\<lambda>core.
       if ucast (r_current_core (cx_rep c)) = core then Inr c
       else bindr (recv_and_handle (message_handler_onepaxos True kvs) bcast c)
              (recv_and_handle (message_handler_onepaxos True kvs) (recv core)))"

definition acceptor_loop_onepaxos ::
    "bool \<Rightarrow> bool \<Rightarrow> (nat \<Rightarrow> msg option) \<Rightarrow> one_ctx \<Rightarrow> one_ctx res" where
  "acceptor_loop_onepaxos smlt kvs recv c =
     bindr (rd (r_replicas (cx_rep c)) (unat (o_leader (cx_rep c)))) (\<lambda>core.
       recv_and_handle (message_handler_onepaxos smlt kvs) (recv (unat core)) c)"

text \<open>A learner answers the client itself when the message asks for an answer from its core.\<close>

definition answer_own :: "one_ctx \<Rightarrow> one_ctx res" where
  "answer_own c =
     bindr (data c 3) (\<lambda>d.
       if d = ucast (r_current_core (cx_rep c))
       then do_all [st_tag RESP_TAG, st_reply (r_clients (cx_rep c))] c else Inr c)"

definition learner_loop_onepaxos_smlt :: "bool \<Rightarrow> msg \<Rightarrow> one_ctx \<Rightarrow> one_ctx res" where
  "learner_loop_onepaxos_smlt kvs bcast c =
     bindr (message_handler_onepaxos True kvs (c\<lparr>cx_msg := bcast\<rparr>)) answer_own"

definition all_cores_onepaxos :: "one_replica \<Rightarrow> u8 list res" where
  "all_cores_onepaxos r =
     bindr (mapr (rd (r_replicas r)) [0..<unat (r_num_replicas r)]) (\<lambda>xs.
     bindr (mapr (\<lambda>i. rd (r_clients r) (i - unat (r_num_replicas r)))
              [unat (r_num_replicas r)..<unat (r_num_replicas r) + unat (r_num_clients r)]) (\<lambda>ys.
       Inr (xs @ ys)))"

definition leader_loop_onepaxos ::
    "bool \<Rightarrow> u8 list \<Rightarrow> (nat \<Rightarrow> msg option) \<Rightarrow> nat \<times> one_ctx \<Rightarrow> (nat \<times> one_ctx) res" where
  "leader_loop_onepaxos kvs all_cores recv = (\<lambda>(j, c).
     let n = unat (r_num_replicas (cx_rep c)) + unat (r_num_clients (cx_rep c)) in
     bindr (rd all_cores j) (\<lambda>core.
     bindr (if core = r_current_core (cx_rep c) then Inr c
            else recv_and_handle (message_handler_onepaxos False kvs) (recv (unat core)) c) (\<lambda>c.
       if n = 0 then Inl DivByZero else Inr ((j + 1) mod n, c))))"

definition learner_loop_onepaxos ::
    "bool \<Rightarrow> (nat \<Rightarrow> msg option) \<Rightarrow> one_ctx \<Rightarrow> one_ctx res" where
  "learner_loop_onepaxos kvs recv c =
     bindr (rd (r_replicas (cx_rep c)) (unat (o_acceptor (cx_rep c)))) (\<lambda>core.
       case recv (unat core) of None \<Rightarrow> Inr c
       | Some m \<Rightarrow> bindr (message_handler_onepaxos False kvs (c\<lparr>cx_msg := m\<rparr>)) (st_when kvs answer_own))"

subsection \<open>Initialisation\<close>

definition set_execution_fn_onepaxos :: "exec_fn option \<Rightarrow> one_replica \<Rightarrow> one_replica" where
  "set_execution_fn_onepaxos f r = r\<lparr>r_exec := f\<rparr>"

definition default_exec_fn_onepaxos :: "'m \<Rightarrow> 'm" where
  "default_exec_fn_onepaxos addr = addr"

text \<open>\<^verbatim>\<open>sizeof(3*sizeof(uint64_t))\<close> is the size of a \<^verbatim>\<open>size_t\<close>.\<close>

definition get_cmd_size :: u16 where "get_cmd_size = 8"

definition MAX_BACKOFF :: u64 where "MAX_BACKOFF = 150"

text \<open>\<open>dead\<close> is what the malloc'ed array \<^verbatim>\<open>is_dead\<close> holds and \<open>tsc\<close> the time stamp counter.\<close>

definition init_replica_onepaxos ::
    "bool \<Rightarrow> u8 \<Rightarrow> u8 \<Rightarrow> u8 \<Rightarrow> u8 \<Rightarrow> u8 \<Rightarrow> u8 \<Rightarrow> u8 \<Rightarrow> u8 \<Rightarrow> u8 list \<Rightarrow> u8 list \<Rightarrow> u8 list \<Rightarrow>
     exec_fn option \<Rightarrow> bool list \<Rightarrow> u64 \<Rightarrow> one_replica \<Rightarrow> com_thread \<Rightarrow>
     (one_replica \<times> com_thread \<times> start list \<times> bool) res" where
  "init_replica_onepaxos smlt i core num_clients num_replicas level alg_below node_size started_from
       cores clients replicas f dead tsc r t =
     (let r = r\<lparr>r_id := i, r_cores := cores, r_current_core := core,
            o_leader := (if smlt then 1 else 0), o_acceptor := (if smlt then 0 else 1),
            r_num_clients := num_clients, r_num_replicas := num_replicas, r_clients := clients,
            r_replicas := replicas, r_exec := Some (choose_exec f), r_node_size := node_size,
            r_level := level, r_alg_below := alg_below, o_current_n := 1, o_highest := 0,
            o_index := 0, o_proposal_index := 0, o_num_success := 0, r_started_from := started_from,
            o_is_dead := dead, o_last_rid := replicate MAX_NUM_CLIENTS (-1),
            o_leader_timeout := False, o_acceptor_timeout := False, o_change := False,
            o_voted := False, o_backoff := ucast (tsc mod MAX_BACKOFF)\<rparr>;
          r = (if i = 0 then r\<lparr>o_queue := entry_queue_init (o_queue r), o_queue_ready := True\<rparr>
               else r\<lparr>o_queue_ready := False\<rparr>) in
      bindr (if r_alg_below r \<noteq> ALG_NONE
             then com_layer_core_init (r_alg_below r) (r_id r) (r_current_core r) (r_cores r)
                    (r_node_size r) get_cmd_size (r_exec r) t
             else Inr (t, [])) (\<lambda>(t, ss).
      Inr (r, t, ss, i = 0 \<and> level = NODE_LEVEL)))"

definition zero_onepaxos :: one_replica where
  "zero_onepaxos = replica.extend zero_replica (one_replica.fields 0 0 False False False False [] 0
     0 0 0 0 (replicate 64 0) 0 (replicate 64 0) \<lparr>eq_size = 0, eq_head = None, eq_tail = None\<rparr> False Null_msg
     \<lparr>eh_cells = (\<lambda>_. None), eh_fresh = 0\<rparr>)"

subsection \<open>Throughput results\<close>

definition print_results_one ::
    "bool \<Rightarrow> 'd fops \<Rightarrow> one_replica \<Rightarrow> 'd results \<Rightarrow> 'd results res" where
  "print_results_one smlt F rep =
     results_table F
       ((if smlt then ''results/tp_adaptivetree_one_num_''
         else ''results/tp_one_below_'' @ dec (unat (r_alg_below rep)) @ ''_num_'') @
        dec (unat (r_num_replicas rep)) @ ''_numc_'' @ dec (unat (r_num_clients rep)))
       (replica.truncate rep)"

definition results_one ::
    "bool \<Rightarrow> 'd fops \<Rightarrow> one_replica \<Rightarrow> u64 list \<Rightarrow> 'd results \<times> measure \<Rightarrow>
     ('d results \<times> u64 list) res" where
  "results_one smlt F rep = results_loop F (print_results_one smlt F rep)"

subsection \<open>At most once\<close>

fun execute_all :: "msg list \<Rightarrow> one_ctx \<Rightarrow> (one_ctx \<times> bool list) res" where
  "execute_all [] c = Inr (c, [])"
| "execute_all (m # ms) c =
     bindr (execute_onepaxos (c\<lparr>cx_msg := m\<rparr>)) (\<lambda>(c, b).
     bindr (execute_all ms c) (\<lambda>(c, bs). Inr (c, b # bs)))"

text \<open>
  The reference: a request is executed unless a request of the same client with the same or a
  greater id has been executed before; \<open>seen\<close> are the requests executed so far.
\<close>

definition stale :: "(u16 \<times> u32) set \<Rightarrow> msg \<Rightarrow> bool" where
  "stale seen m \<longleftrightarrow> (\<exists>r \<ge> msg_rid m. (msg_cid m, r) \<in> seen)"

fun dedupe :: "(u16 \<times> u32) set \<Rightarrow> msg list \<Rightarrow> bool list" where
  "dedupe seen [] = []"
| "dedupe seen (m # ms) =
     (if stale seen m then False # dedupe seen ms
      else True # dedupe (insert (msg_cid m, msg_rid m) seen) ms)"

definition selected :: "bool list \<Rightarrow> msg list \<Rightarrow> msg list" where
  "selected bs ms = map fst (filter snd (zip ms bs))"

lemma selected_simps [simp]:
  "selected bs [] = []" "selected (True # bs) (m # ms) = m # selected bs ms"
  "selected (False # bs) (m # ms) = selected bs ms"
  by (simp_all add: selected_def)

text \<open>The array holds, per client, the greatest executed id, or \<open>-1\<close>.\<close>

definition tracks :: "u64 list \<Rightarrow> (u16 \<times> u32) set \<Rightarrow> bool" where
  "tracks lr seen \<longleftrightarrow> length lr = 64 \<and> (\<forall>cid. unat cid < 64 \<longrightarrow>
     (if lr ! unat cid = -1 then \<forall>r. (cid, r) \<notin> seen
      else \<exists>r. lr ! unat cid = ucast r \<and> (cid, r) \<in> seen \<and> (\<forall>r'. (cid, r') \<in> seen \<longrightarrow> r' \<le> r)))"

lemma ucast_not_minus1: "(ucast (r :: u32) :: u64) \<noteq> -1"
proof
  assume a: "(ucast r :: u64) = -1"
  have "unat (-1 :: u64) = 18446744073709551615" by (simp add: unsigned_minus_1_eq_mask mask_eq_exp_minus_1)
  moreover have "unat (ucast r :: u64) < 4294967296" using unsigned_less [of r, where 'a = nat] by simp
  ultimately show False unfolding a by simp
qed

lemma ucast_u32_le: "(ucast (r :: u32) :: u64) \<le> ucast r' \<longleftrightarrow> r \<le> r'"
  by (simp add: word_le_nat_alt)

lemma repetitive_stale:
  assumes "tracks lr seen" and "unat (msg_cid m) < 64"
  shows "repetitive (lr ! unat (msg_cid m)) (msg_rid m) \<longleftrightarrow> stale seen m"
proof (cases "lr ! unat (msg_cid m) = -1")
  case True
  with assms have "\<forall>r. (msg_cid m, r) \<notin> seen" by (auto simp: tracks_def split: if_splits)
  then show ?thesis using True ucast_not_minus1 [of "msg_rid m"]
    by (auto simp: repetitive_def stale_def)
next
  case False
  moreover have "if lr ! unat (msg_cid m) = -1 then \<forall>r. (msg_cid m, r) \<notin> seen
      else \<exists>r. lr ! unat (msg_cid m) = ucast r \<and> (msg_cid m, r) \<in> seen \<and>
        (\<forall>r'. (msg_cid m, r') \<in> seen \<longrightarrow> r' \<le> r)"
    using assms by (simp add: tracks_def)
  ultimately obtain r where r: "lr ! unat (msg_cid m) = ucast r" "(msg_cid m, r) \<in> seen"
    "\<forall>r'. (msg_cid m, r') \<in> seen \<longrightarrow> r' \<le> r"
    by auto
  have "repetitive (ucast r) (msg_rid m) \<longleftrightarrow> msg_rid m \<le> r"
    using ucast_not_minus1 [of r] ucast_u32_le [of "msg_rid m" r]
    by (auto simp: repetitive_def le_less)
  also have "\<dots> \<longleftrightarrow> stale seen m" using r by (auto simp: stale_def)
  finally show ?thesis by (simp add: r(1))
qed

lemma tracks_insert:
  assumes "tracks lr seen" and "unat (msg_cid m) < 64" and "\<not> stale seen m"
  shows "tracks (lr[unat (msg_cid m) := ucast (msg_rid m)]) (insert (msg_cid m, msg_rid m) seen)"
proof -
  have len: "length lr = 64" using assms(1) by (simp add: tracks_def)
  have below: "\<forall>r'. (msg_cid m, r') \<in> seen \<longrightarrow> r' \<le> msg_rid m"
    using assms(3) by (auto simp: stale_def) (meson linorder_linear)
  show ?thesis
    unfolding tracks_def
  proof (intro conjI allI impI)
    fix cid :: u16
    assume k: "unat cid < 64"
    show "if lr[unat (msg_cid m) := ucast (msg_rid m)] ! unat cid = -1
      then \<forall>r. (cid, r) \<notin> insert (msg_cid m, msg_rid m) seen
      else \<exists>r. lr[unat (msg_cid m) := ucast (msg_rid m)] ! unat cid = ucast r \<and>
        (cid, r) \<in> insert (msg_cid m, msg_rid m) seen \<and>
        (\<forall>r'. (cid, r') \<in> insert (msg_cid m, msg_rid m) seen \<longrightarrow> r' \<le> r)"
    proof (cases "cid = msg_cid m")
      case True
      with k len below show ?thesis by (auto simp: ucast_not_minus1)
    next
      case False
      then have "unat (msg_cid m) \<noteq> unat cid" by (metis word_unat_eq_iff)
      moreover have "if lr ! unat cid = -1 then \<forall>r. (cid, r) \<notin> seen
          else \<exists>r. lr ! unat cid = ucast r \<and> (cid, r) \<in> seen \<and> (\<forall>r'. (cid, r') \<in> seen \<longrightarrow> r' \<le> r)"
        using assms(1) k by (simp add: tracks_def)
      ultimately show ?thesis using False len by (auto split: if_splits)
    qed
  qed (simp add: len)
qed

lemma execute_one:
  assumes "tracks (o_last_rid (cx_rep c)) seen" and "unat (msg_cid (cx_msg c)) < 64"
    and "r_exec (cx_rep c) = Some f"
  shows "if stale seen (cx_msg c) then execute_onepaxos c = Inr (c, False)
    else \<exists>c'. execute_onepaxos c = Inr (c', True) \<and>
      cx_rep c' = (cx_rep c)\<lparr>o_last_rid := (o_last_rid (cx_rep c))
        [unat (msg_cid (cx_msg c)) := ucast (msg_rid (cx_msg c))]\<rparr> \<and>
      tracks (o_last_rid (cx_rep c')) (insert (msg_cid (cx_msg c), msg_rid (cx_msg c)) seen) \<and>
      cx_acts c' = cx_acts c @ [Exec f (payload (cx_msg c))] \<and> cx_msg c' = cx_msg c"
proof -
  have len: "length (o_last_rid (cx_rep c)) = 64" using assms(1) by (simp add: tracks_def)
  show ?thesis
    using repetitive_stale [OF assms(1,2)] tracks_insert [OF assms(1,2)] assms(2,3) len
    by (simp add: execute_onepaxos_def Let_def stmts)
qed

lemma execute_all_dedupe:
  assumes "tracks (o_last_rid (cx_rep c)) seen" and "\<forall>m \<in> set ms. unat (msg_cid m) < 64"
    and "r_exec (cx_rep c) = Some f"
  shows "\<exists>c'. execute_all ms c = Inr (c', dedupe seen ms) \<and>
    execs (cx_acts c') = execs (cx_acts c) @ map payload (selected (dedupe seen ms) ms)"
  using assms
proof (induction ms arbitrary: c seen)
  case Nil
  then show ?case by simp
next
  case (Cons m ms)
  let ?c = "c\<lparr>cx_msg := m\<rparr>"
  have one: "if stale seen m then execute_onepaxos ?c = Inr (?c, False)
    else \<exists>c'. execute_onepaxos ?c = Inr (c', True) \<and>
      cx_rep c' = (cx_rep ?c)\<lparr>o_last_rid := (o_last_rid (cx_rep ?c))[unat (msg_cid m) := ucast (msg_rid m)]\<rparr> \<and>
      tracks (o_last_rid (cx_rep c')) (insert (msg_cid m, msg_rid m) seen) \<and>
      cx_acts c' = cx_acts ?c @ [Exec f (payload m)]"
    using execute_one [of ?c seen f] Cons.prems by (auto split: if_splits)
  show ?case
  proof (cases "stale seen m")
    case True
    with one Cons.IH [of ?c seen] Cons.prems show ?thesis by auto
  next
    case False
    with one obtain c1 where c1: "execute_onepaxos ?c = Inr (c1, True)"
      "tracks (o_last_rid (cx_rep c1)) (insert (msg_cid m, msg_rid m) seen)"
      "r_exec (cx_rep c1) = Some f" "cx_acts c1 = cx_acts c @ [Exec f (payload m)]"
      using Cons.prems(3) by auto
    with False Cons.IH [OF c1(2) _ c1(3)] Cons.prems(2) show ?thesis by auto
  qed
qed

lemma selected_newer:
  "x \<in> set (selected (dedupe seen ms) ms) \<Longrightarrow> (msg_cid x, r) \<in> seen \<Longrightarrow> r < msg_rid x"
proof (induction ms arbitrary: seen)
  case Nil
  then show ?case by simp
next
  case (Cons m ms)
  show ?case
  proof (cases "stale seen m")
    case True
    with Cons show ?thesis by simp
  next
    case False
    show ?thesis
    proof (cases "x = m")
      case True
      with False Cons.prems(2) show ?thesis by (auto simp: stale_def) (meson not_less)
    next
      case xm: False
      with False Cons.prems have "x \<in> set (selected (dedupe (insert (msg_cid m, msg_rid m) seen) ms) ms)"
        by simp
      with Cons.IH Cons.prems(2) show ?thesis by blast
    qed
  qed
qed

lemma dedupe_increasing:
  "sorted_wrt (\<lambda>x y. msg_cid x = msg_cid y \<longrightarrow> msg_rid x < msg_rid y) (selected (dedupe seen ms) ms)"
proof (induction ms arbitrary: seen)
  case Nil
  then show ?case by simp
next
  case (Cons m ms)
  show ?case
  proof (cases "stale seen m")
    case True
    with Cons show ?thesis by simp
  next
    case False
    have "\<forall>x \<in> set (selected (dedupe (insert (msg_cid m, msg_rid m) seen) ms) ms).
        msg_cid m = msg_cid x \<longrightarrow> msg_rid m < msg_rid x"
      using selected_newer by (metis insertI1)
    with False Cons show ?thesis by simp
  qed
qed

lemma length_dedupe: "length (dedupe seen ms) = length ms"
  by (induction ms arbitrary: seen) auto

text \<open>A message is left out only for a selected one, or one seen before, that is as new.\<close>

lemma dedupe_covers:
  "m \<in> set ms \<Longrightarrow> (\<exists>x \<in> set (selected (dedupe seen ms) ms). msg_cid x = msg_cid m \<and> msg_rid m \<le> msg_rid x) \<or>
     stale seen m"
proof (induction ms arbitrary: seen)
  case Nil
  then show ?case by simp
next
  case (Cons x ms)
  show ?case
  proof (cases "m = x")
    case True
    then show ?thesis by auto
  next
    case False
    with Cons.prems have m: "m \<in> set ms" by simp
    have "stale (insert (msg_cid x, msg_rid x) seen) m \<Longrightarrow>
        stale seen m \<or> msg_cid x = msg_cid m \<and> msg_rid m \<le> msg_rid x"
      by (auto simp: stale_def)
    with Cons.IH [OF m, of seen] Cons.IH [OF m, of "insert (msg_cid x, msg_rid x) seen"]
    show ?thesis by auto
  qed
qed

lemma tracks_fresh: "tracks (replicate 64 (-1)) {}"
  by (simp add: tracks_def)

subsection \<open>The acceptor and its learners\<close>

lemma one_tags [simp]:
  "ONE_ACC \<noteq> SETUP_TAG" "ONE_ACC \<noteq> REQ_TAG" "ONE_ACC \<noteq> ONE_PREP" "ONE_ACC \<noteq> ONE_PREP_RESP"
  "ONE_LEARN \<noteq> SETUP_TAG" "ONE_LEARN \<noteq> REQ_TAG" "ONE_LEARN \<noteq> ONE_PREP" "ONE_LEARN \<noteq> ONE_PREP_RESP"
  "ONE_LEARN \<noteq> ONE_ACC"
  by (simp_all add: algs)

lemma send_learn_eq:
  assumes "unat n \<le> length replicas"
  shows "send_learn replicas n c = Inr (c\<lparr>cx_acts := cx_acts c @
    map (\<lambda>i. Send (unat (replicas ! i)) (cx_msg c)) (filter (\<lambda>i. i \<noteq> 1) [0..<unat n])\<rparr>)"
proof -
  have "k \<le> length replicas \<Longrightarrow>
    foldr_res (\<lambda>i. if i = 1 then Inr else st_send_at replicas i) [0..<k] c =
    Inr (c\<lparr>cx_acts := cx_acts c @
      map (\<lambda>i. Send (unat (replicas ! i)) (cx_msg c)) (filter (\<lambda>i. i \<noteq> 1) [0..<k])\<rparr>)" for k
  proof (induction k)
    case 0
    then show ?case by simp
  next
    case (Suc k)
    then show ?case by (simp add: foldr_res_snoc stmts)
  qed
  with assms show ?thesis by (simp add: send_learn_def)
qed

text \<open>What stays the same in a replica while it handles accept and learn messages.\<close>

definition one_ready :: "exec_fn \<Rightarrow> one_replica \<Rightarrow> bool" where
  "one_ready f r \<longleftrightarrow> r_exec r = Some f \<and> r_alg_below r = ALG_NONE"

definition learn_of :: "u64 \<Rightarrow> msg \<Rightarrow> msg" where
  "learn_of i m = (put_tag 0 ONE_LEARN m)[1 := i]"

lemma learn_of_facts:
  assumes "wf_msg m"
  shows "wf_msg (learn_of i m)" "msg_tag (learn_of i m) = ONE_LEARN" "msg_cid (learn_of i m) = msg_cid m"
    "msg_rid (learn_of i m) = msg_rid m" "payload (learn_of i m) = payload m" "learn_of i m ! 1 = i"
    "stale seen (learn_of i m) = stale seen m"
proof -
  show "learn_of i m ! 1 = i" using assms by (simp add: learn_of_def put_tag_def wf_msg_def)
qed (use assms in \<open>simp_all add: learn_of_def hdr stale_def\<close>)

definition seen_after :: "(u16 \<times> u32) set \<Rightarrow> msg \<Rightarrow> (u16 \<times> u32) set" where
  "seen_after seen m = (if stale seen m then seen else insert (msg_cid m, msg_rid m) seen)"

lemma st_execute_result:
  assumes "tracks (o_last_rid (cx_rep c)) seen" and "unat (msg_cid (cx_msg c)) < 64"
    and "r_exec (cx_rep c) = Some f"
  shows "\<exists>c'. execute_onepaxos c = Inr (c', \<not> stale seen (cx_msg c)) \<and> cx_msg c' = cx_msg c \<and>
    (\<exists>lr. cx_rep c' = (cx_rep c)\<lparr>o_last_rid := lr\<rparr>) \<and>
    tracks (o_last_rid (cx_rep c')) (seen_after seen (cx_msg c)) \<and>
    cx_acts c' = cx_acts c @ (if stale seen (cx_msg c) then [] else [Exec f (payload (cx_msg c))])"
proof (cases "stale seen (cx_msg c)")
  case True
  have "\<exists>lr. cx_rep c = (cx_rep c)\<lparr>o_last_rid := lr\<rparr>" by (intro exI [of _ "o_last_rid (cx_rep c)"]) simp
  with True execute_one [OF assms] assms(1) show ?thesis by (auto simp: seen_after_def)
next
  case False
  with execute_one [OF assms] show ?thesis by (auto simp: seen_after_def)
qed

text \<open>The learn messages, as sends or as a broadcast.\<close>

definition learn_acts :: "bool \<Rightarrow> one_replica \<Rightarrow> msg \<Rightarrow> action list" where
  "learn_acts smlt r x = (if smlt then [Bcast x] else map (\<lambda>i. Send (unat (r_replicas r ! i)) x)
     (filter (\<lambda>i. i \<noteq> 1) [0..<unat (r_num_replicas r)]))"

lemma acceptor_acts:
  assumes tr: "tracks (o_last_rid (cx_rep c)) seen" and cid: "unat (msg_cid m) < 64"
    and rdy: "one_ready f (cx_rep c)" and n: "unat (r_num_replicas (cx_rep c)) \<le> length (r_replicas (cx_rep c))"
    and wf: "wf_msg m" and tag: "msg_tag m = ONE_ACC" and num: "o_highest (cx_rep c) \<le> m ! 2"
  shows "\<exists>c'. message_handler_onepaxos smlt kvs (c\<lparr>cx_msg := m\<rparr>) = Inr c' \<and>
    cx_acts c' = cx_acts c @
      learn_acts smlt (cx_rep c) (learn_of (o_index (cx_rep c)) m) @
      (if stale seen m then [] else [Exec f (payload m)]) \<and>
    tracks (o_last_rid (cx_rep c')) (seen_after seen m) \<and>
    (\<exists>lr. cx_rep c' = (cx_rep c)\<lparr>o_last_entry := Loop_msg, o_last_rid := lr, o_index := o_index (cx_rep c) + 1\<rparr>)"
proof -
  let ?r = "(cx_rep c)\<lparr>o_last_entry := Loop_msg\<rparr>" and ?l = "learn_of (o_index (cx_rep c)) m"
  let ?c = "c\<lparr>cx_rep := ?r, cx_msg := ?l, cx_acts := cx_acts c @
learn_acts smlt (cx_rep c) ?l\<rparr>"
  have two: "rd m 2 = Inr (m ! 2)" "1 < length (put_tag 0 ONE_LEARN m)"
    using wf by (simp_all add: wf_msg_def put_tag_def)
  note lf = learn_of_facts [OF wf]
  obtain c1 lr where c1: "execute_onepaxos ?c = Inr (c1, \<not> stale seen ?l)" "cx_msg c1 = ?l"
    "cx_rep c1 = ?r\<lparr>o_last_rid := lr\<rparr>" "tracks (o_last_rid (cx_rep c1)) (seen_after seen ?l)"
    "cx_acts c1 = cx_acts ?c @ (if stale seen ?l then [] else [Exec f (payload ?l)])"
    using st_execute_result [of ?c seen f] tr cid rdy lf by (auto simp: one_ready_def)
  have run: "message_handler_onepaxos smlt kvs (c\<lparr>cx_msg := m\<rparr>) =
    bindr (do_all [st_execute, st_when False st_core, advance_index] ?c) Inr"
    using tag num two rdy
    by (cases smlt) (simp_all add: message_handler_onepaxos_def Let_def handle_accept_onepaxos_def data_def st_rep_def
        stmts send_learn_eq [OF n] learn_of_def learn_acts_def one_ready_def bindr_Inr_right st_when_def)
  have "rd (cx_msg c1) 1 = Inr (o_index (cx_rep c))"
    using lf(1,6) by (simp add: c1(2) wf_msg_def)
  then have adv: "advance_index c1 = Inr (c1\<lparr>cx_rep := (cx_rep c1)\<lparr>o_index := o_index (cx_rep c) + 1\<rparr>\<rparr>)"
    by (simp add: advance_index_def data_def Let_def c1(3))
  let ?c' = "c1\<lparr>cx_rep := (cx_rep c1)\<lparr>o_index := o_index (cx_rep c) + 1\<rparr>\<rparr>"
  have res: "message_handler_onepaxos smlt kvs (c\<lparr>cx_msg := m\<rparr>) = Inr ?c'"
    unfolding run using c1(1) adv by (simp add: st_execute_def st_when_def)
  have "seen_after seen ?l = seen_after seen m" using lf(3,4,7) by (simp add: seen_after_def)
  then have "tracks (o_last_rid (cx_rep ?c')) (seen_after seen m)" using c1(4) by simp
  moreover have "cx_acts ?c' = cx_acts c @ learn_acts smlt (cx_rep c) ?l @
      (if stale seen m then [] else [Exec f (payload m)])"
    using c1(5) lf(5,7) by simp
  moreover have "\<exists>lr. cx_rep ?c' =
      (cx_rep c)\<lparr>o_last_entry := Loop_msg, o_last_rid := lr, o_index := o_index (cx_rep c) + 1\<rparr>"
    by (intro exI [of _ lr]) (simp add: c1(3))
  ultimately show ?thesis using res by blast
qed

lemma acceptor_step:
  assumes tr: "tracks (o_last_rid (cx_rep c)) seen" and cid: "unat (msg_cid m) < 64"
    and rdy: "one_ready f (cx_rep c)" and n: "unat (r_num_replicas (cx_rep c)) \<le> length (r_replicas (cx_rep c))"
    and wf: "wf_msg m" and tag: "msg_tag m = ONE_ACC" and num: "o_highest (cx_rep c) \<le> m ! 2"
  shows "\<exists>c'. message_handler_onepaxos False kvs (c\<lparr>cx_msg := m\<rparr>) = Inr c' \<and>
    cx_acts c' = cx_acts c @
      map (\<lambda>i. Send (unat (r_replicas (cx_rep c) ! i)) (learn_of (o_index (cx_rep c)) m))
        (filter (\<lambda>i. i \<noteq> 1) [0..<unat (r_num_replicas (cx_rep c))]) @
      (if stale seen m then [] else [Exec f (payload m)]) \<and>
    tracks (o_last_rid (cx_rep c')) (seen_after seen m) \<and>
    (\<exists>lr. cx_rep c' = (cx_rep c)\<lparr>o_last_entry := Loop_msg, o_last_rid := lr, o_index := o_index (cx_rep c) + 1\<rparr>)"
  using acceptor_acts [OF assms, of False kvs] by (simp add: learn_acts_def)

lemma dequeue_free:
  assumes "queue_holds (q, h) as" and "allocated h"
  shows "\<exists>q' h' ele. entry_q_dequeue (q, h) = Inr ((q', h'), ele) \<and>
    (\<exists>h''. free_entry ele h' = Inr h'' \<and> queue_holds (q', h'') (tl as) \<and> allocated h'')"
proof (cases as)
  case Nil
  with assms entries.deq_empty [of "(q, h)"] show ?thesis by (auto simp: free_entry_def)
next
  case (Cons a rest)
  then obtain e where "eq_head q = Some a" "eh_cells h a = Some e" "path h (e_next e) rest" "distinct (a # rest)"
    "eq_size q = 1 + of_nat (length rest)" "eq_tail q = Some (last (a # rest))"
    using assms by (auto simp: queue_holds_def)
  moreover have "\<forall>b. eh_cells h b \<noteq> None \<longrightarrow> b < eh_fresh h" using assms(2) by (simp add: allocated_def)
  ultimately show ?thesis using Cons
    by (cases rest) (auto simp: entry_q_dequeue_def deref_def Let_def queue_holds_def free_entry_def path_other allocated_def)
qed

text \<open>A learner, and if it is the leader what its bookkeeping needs.\<close>

definition learner_ok :: "exec_fn \<Rightarrow> nat \<Rightarrow> one_replica \<Rightarrow> bool" where
  "learner_ok f nc r \<longleftrightarrow> one_ready f r \<and> (r_id r = o_leader r \<longrightarrow>
     r_level r = NODE_LEVEL \<and> nc \<le> length (r_clients r) \<and> allocated (o_heap r) \<and>
     (\<exists>as. queue_holds (o_queue r, o_heap r) as))"

lemma trim_queue_ok:
  assumes "learner_ok f nc (cx_rep c)" and "r_id (cx_rep c) = o_leader (cx_rep c)"
  shows "\<exists>c'. trim_queue c = Inr c' \<and> cx_acts c' = cx_acts c \<and> cx_msg c' = cx_msg c \<and>
    (\<exists>q h. cx_rep c' = (cx_rep c)\<lparr>o_queue := q, o_heap := h\<rparr>) \<and> learner_ok f nc (cx_rep c')"
proof -
  obtain as where as: "queue_holds (o_queue (cx_rep c), o_heap (cx_rep c)) as" "allocated (o_heap (cx_rep c))"
    using assms by (auto simp: learner_ok_def)
  obtain q' h' ele h'' where d: "entry_q_dequeue (o_queue (cx_rep c), o_heap (cx_rep c)) = Inr ((q', h'), ele)"
    "free_entry ele h' = Inr h''" "queue_holds (q', h'') (tl as)" "allocated h''"
    using dequeue_free [OF as] by blast
  show ?thesis
  proof (cases "eq_size (o_queue (cx_rep c)) > (o_proposal_index (cx_rep c) - o_index (cx_rep c)) + 1")
    case True
    let ?c = "c\<lparr>cx_rep := (cx_rep c)\<lparr>o_queue := q', o_heap := h''\<rparr>\<rparr>"
    have "trim_queue c = Inr ?c"
      using True d(1,2) by (simp add: trim_queue_def Let_def st_when_def drop_entry_def)
    moreover have "learner_ok f nc (cx_rep ?c)"
      using assms d(3,4) by (auto simp: learner_ok_def one_ready_def)
    moreover have "\<exists>q h. cx_rep ?c = (cx_rep c)\<lparr>o_queue := q, o_heap := h\<rparr>" by auto
    ultimately show ?thesis by (intro exI [of _ ?c]) simp
  next
    case False
    have "\<exists>q h. cx_rep c = (cx_rep c)\<lparr>o_queue := q, o_heap := h\<rparr>"
      by (intro exI [of _ "o_queue (cx_rep c)"] exI [of _ "o_heap (cx_rep c)"]) simp
    moreover have "trim_queue c = Inr c" using False by (simp add: trim_queue_def Let_def st_when_def)
    ultimately show ?thesis using assms(1) by (intro exI [of _ c]) simp
  qed
qed

lemma reply_ok:
  assumes "r_level (cx_rep c) = NODE_LEVEL" and "unat (msg_cid (cx_msg c)) < length (r_clients (cx_rep c))"
  shows "\<exists>c'. reply_onepaxos kvs c = Inr c' \<and> cx_rep c' = cx_rep c \<and> msg_cid (cx_msg c') = msg_cid (cx_msg c) \<and>
    (\<exists>rs. cx_acts c' = cx_acts c @ rs \<and> (rs = [] \<or> (\<exists>d \<in> unat ` set (r_clients (cx_rep c)). \<exists>x. rs = [Send d x])))"
  using assms by (cases kvs) (auto simp: reply_onepaxos_def Let_def stmts st_when_def hdr)

lemma learner_ok_fields [simp]:
  "learner_ok f nc (r\<lparr>o_voted := a, o_change := b\<rparr>) = learner_ok f nc r"
  "learner_ok f nc (r\<lparr>o_last_rid := x\<rparr>) = learner_ok f nc r"
  "learner_ok f nc (r\<lparr>o_index := i\<rparr>) = learner_ok f nc r"
  by (simp_all add: learner_ok_def one_ready_def)

text \<open>A learner only ever sends to clients, one answer at most.\<close>

lemma learner_acts:
  assumes tr: "tracks (o_last_rid (cx_rep c)) seen" and cid: "unat (msg_cid m) < 64" "unat (msg_cid m) < nc"
    and ok: "learner_ok f nc (cx_rep c)" and wf: "wf_msg m" and tag: "msg_tag m = ONE_LEARN"
  shows "\<exists>c'. message_handler_onepaxos smlt kvs (c\<lparr>cx_msg := m\<rparr>) = Inr c' \<and>
    (\<exists>rs. cx_acts c' = cx_acts c @ (if stale seen m then [] else [Exec f (payload m)]) @ rs \<and>
      (rs = [] \<or> (\<exists>d \<in> unat ` set (r_clients (cx_rep c)). \<exists>x. rs = [Send d x]))) \<and>
    tracks (o_last_rid (cx_rep c')) (seen_after seen m) \<and> learner_ok f nc (cx_rep c') \<and>
    msg_cid (cx_msg c') = msg_cid m"
proof -
  obtain c0 where c0: "do_all [st_start_timer, st_rep (\<lambda>r. r\<lparr>o_voted := False, o_change := False\<rparr>)] (c\<lparr>cx_msg := m\<rparr>) = Inr c0"
    "cx_rep c0 = (cx_rep c)\<lparr>o_voted := False, o_change := False\<rparr>" "cx_msg c0 = m" "cx_acts c0 = cx_acts c"
    by (simp add: stmts st_rep_def)
  have ok0: "learner_ok f nc (cx_rep c0)" using ok by (simp add: c0)
  have ex0: "r_exec (cx_rep c0) = Some f" "r_alg_below (cx_rep c0) = ALG_NONE"
    using ok0 by (simp_all add: learner_ok_def one_ready_def)
  obtain c1 lr where c1: "execute_onepaxos c0 = Inr (c1, \<not> stale seen m)" "cx_msg c1 = m"
    "cx_rep c1 = (cx_rep c0)\<lparr>o_last_rid := lr\<rparr>" "tracks (o_last_rid (cx_rep c1)) (seen_after seen m)"
    "cx_acts c1 = cx_acts c0 @ (if stale seen m then [] else [Exec f (payload m)])"
    using st_execute_result [of c0 seen f] tr cid(1) ex0(1) c0(2,3) by auto
  have ok1: "learner_ok f nc (cx_rep c1)" using ok0 by (simp add: c1)
  have below1: "r_alg_below (cx_rep c1) = ALG_NONE" using ex0(2) by (simp add: c1)
  have "rd (cx_msg c1) 1 = Inr (m ! 1)" using wf by (simp add: c1 wf_msg_def)
  then have adv: "advance_index c1 = Inr (c1\<lparr>cx_rep := (cx_rep c1)\<lparr>o_index := m ! 1 + 1\<rparr>\<rparr>)"
    by (cases "o_index (cx_rep c1) = m ! 1") (simp_all add: advance_index_def data_def Let_def)
  let ?c2 = "c1\<lparr>cx_rep := (cx_rep c1)\<lparr>o_index := m ! 1 + 1\<rparr>\<rparr>"
  have run: "message_handler_onepaxos smlt kvs (c\<lparr>cx_msg := m\<rparr>) =
      (if r_id (cx_rep ?c2) = o_leader (cx_rep ?c2)
       then do_all [trim_queue, st_when (\<not> stale seen m) (reply_onepaxos kvs)] ?c2 else Inr ?c2)"
    using tag c0(1) c1(1) adv below1
    by (simp add: message_handler_onepaxos_def Let_def handle_learn_onepaxos_def st_when_def)
  have ok2: "learner_ok f nc (cx_rep ?c2)" using ok1 by simp
  have ex2: "cx_acts ?c2 = cx_acts c @ (if stale seen m then [] else [Exec f (payload m)])" "msg_cid (cx_msg ?c2) = msg_cid m"
    "r_clients (cx_rep ?c2) = r_clients (cx_rep c)"
    using c1(2,5) c0(4) by (simp_all add: c1(3) c0(2))
  have tr2: "tracks (o_last_rid (cx_rep ?c2)) (seen_after seen m)" using c1(4) by simp
  show ?thesis
  proof (cases "r_id (cx_rep ?c2) = o_leader (cx_rep ?c2)")
    case False
    with run ok2 ex2 tr2 show ?thesis by (intro exI [of _ ?c2]) simp
  next
    case True
    obtain c3 q h where c3: "trim_queue ?c2 = Inr c3" "cx_acts c3 = cx_acts ?c2" "cx_msg c3 = m"
      "cx_rep c3 = (cx_rep ?c2)\<lparr>o_queue := q, o_heap := h\<rparr>" "learner_ok f nc (cx_rep c3)"
      using trim_queue_ok [OF ok2 True] c1(2) by auto
    have lead3: "r_id (cx_rep c3) = o_leader (cx_rep c3)" using True by (simp add: c3(4))
    have lv: "r_level (cx_rep c3) = NODE_LEVEL" "unat (msg_cid (cx_msg c3)) < length (r_clients (cx_rep c3))"
      using c3(5) lead3 cid(2) c3(3) by (auto simp: learner_ok_def)
    obtain c4 rs where c4: "reply_onepaxos kvs c3 = Inr c4" "cx_acts c4 = cx_acts c3 @ rs" "cx_rep c4 = cx_rep c3"
      "msg_cid (cx_msg c4) = msg_cid (cx_msg c3)"
      "rs = [] \<or> (\<exists>d \<in> unat ` set (r_clients (cx_rep c3)). \<exists>x. rs = [Send d x])"
      using reply_ok [OF lv, of kvs] by blast
    have tr3: "tracks (o_last_rid (cx_rep c3)) (seen_after seen m)" using tr2 by (simp add: c3(4))
    show ?thesis
    proof (cases "stale seen m")
      case True
      then have "message_handler_onepaxos smlt kvs (c\<lparr>cx_msg := m\<rparr>) = Inr c3"
        using run c3(1) \<open>r_id (cx_rep ?c2) = o_leader (cx_rep ?c2)\<close> by (simp add: st_when_def)
      with c3(2,3,5) tr3 ex2 show ?thesis by (intro exI [of _ c3]) simp
    next
      case False
      then have "message_handler_onepaxos smlt kvs (c\<lparr>cx_msg := m\<rparr>) = Inr c4"
        using run c3(1) c4(1) \<open>r_id (cx_rep ?c2) = o_leader (cx_rep ?c2)\<close> by (simp add: st_when_def)
      with c3 c4(2-5) tr3 ex2 show ?thesis by (intro exI [of _ c4]) auto
    qed
  qed
qed

lemma learner_step:
  assumes "tracks (o_last_rid (cx_rep c)) seen" and "unat (msg_cid m) < 64" "unat (msg_cid m) < nc"
    and "learner_ok f nc (cx_rep c)" and "wf_msg m" and "msg_tag m = ONE_LEARN"
  shows "\<exists>c'. message_handler_onepaxos smlt kvs (c\<lparr>cx_msg := m\<rparr>) = Inr c' \<and>
    execs (cx_acts c') = execs (cx_acts c) @ (if stale seen m then [] else [payload m]) \<and>
    tracks (o_last_rid (cx_rep c')) (seen_after seen m) \<and> learner_ok f nc (cx_rep c')"
  using learner_acts [OF assms, of smlt kvs] by (auto split: if_splits)

subsection \<open>Properties\<close>

lemma dedupe_Cons:
  "map payload (selected (dedupe seen (m # ms)) (m # ms)) =
   (if stale seen m then [] else [payload m]) @
   map payload (selected (dedupe (seen_after seen m) ms) ms)"
  by (simp add: seen_after_def)

lemma one_send_each:
  assumes "distinct replicas" and "n \<le> length replicas" and "i < n" and "i \<noteq> 1"
  shows "sends_to (unat (replicas ! i)) (map (\<lambda>i. Send (unat (replicas ! i)) m)
    (filter (\<lambda>i. i \<noteq> 1) [0..<n])) = [m]"
proof (rule sends_to_map_Send_one [where f = "\<lambda>i. unat (replicas ! i)" and x = i])
  have "inj_on (\<lambda>i. unat (replicas ! i)) {0..<n}"
    using assms(1,2) by (intro inj_onI) (simp add: word_unat_eq_iff [symmetric] nth_eq_iff_index_eq)
  then show "distinct (map (\<lambda>i. unat (replicas ! i)) (filter (\<lambda>i. i \<noteq> 1) [0..<n]))"
    unfolding distinct_map by (auto intro: inj_on_subset)
qed (use assms in auto)

lemma acceptor_learner_run:
  assumes "\<forall>m \<in> set ms. wf_msg m \<and> msg_tag m = ONE_ACC \<and> h \<le> m ! 2 \<and> unat (msg_cid m) < 64 \<and> unat (msg_cid m) < nc"
    and "tracks (o_last_rid (cx_rep a)) seen" and "one_ready f (cx_rep a)" and "o_highest (cx_rep a) = h"
    and "r_replicas (cx_rep a) = replicas" and "unat (r_num_replicas (cx_rep a)) = n"
    and "distinct replicas" and "n \<le> length replicas" and "i < n" and "i \<noteq> 1"
    and "tracks (o_last_rid (cx_rep l)) seen" and "learner_ok f nc (cx_rep l)"
  shows "\<exists>a' new l'. handle_all (message_handler_onepaxos False kvs) ms a = Inr a' \<and>
    cx_acts a' = cx_acts a @ new \<and> execs new = map payload (selected (dedupe seen ms) ms) \<and>
    handle_all (message_handler_onepaxos False kvs) (sends_to (unat (replicas ! i)) new) l = Inr l' \<and>
    execs (cx_acts l') = execs (cx_acts l) @ map payload (selected (dedupe seen ms) ms)"
  using assms
proof (induction ms arbitrary: a l seen)
  case Nil
  then show ?case by simp
next
  case (Cons m ms)
  have m: "wf_msg m" "msg_tag m = ONE_ACC" "o_highest (cx_rep a) \<le> m ! 2"
    "unat (msg_cid m) < 64" "unat (msg_cid m) < nc"
    using Cons.prems(1,4) by auto
  have n: "unat (r_num_replicas (cx_rep a)) \<le> length (r_replicas (cx_rep a))" using Cons.prems by simp
  obtain a1 lr where a1: "message_handler_onepaxos False kvs (a\<lparr>cx_msg := m\<rparr>) = Inr a1"
    "cx_acts a1 = cx_acts a @
      map (\<lambda>i. Send (unat (replicas ! i)) (learn_of (o_index (cx_rep a)) m)) (filter (\<lambda>i. i \<noteq> 1) [0..<n]) @
      (if stale seen m then [] else [Exec f (payload m)])"
    "tracks (o_last_rid (cx_rep a1)) (seen_after seen m)"
    "cx_rep a1 = (cx_rep a)\<lparr>o_last_entry := Loop_msg, o_last_rid := lr, o_index := o_index (cx_rep a) + 1\<rparr>"
    using acceptor_step [OF Cons.prems(2) m(4) Cons.prems(3) n m(1-3), of kvs] Cons.prems(5,6) by auto
  let ?lm = "learn_of (o_index (cx_rep a)) m"
  note lf = learn_of_facts [where i = "o_index (cx_rep a)", OF m(1)]
  have cid: "unat (msg_cid ?lm) < 64" "unat (msg_cid ?lm) < nc" using m(4,5) lf(3) by simp_all
  obtain l1 where l1: "message_handler_onepaxos False kvs (l\<lparr>cx_msg := ?lm\<rparr>) = Inr l1"
    "execs (cx_acts l1) = execs (cx_acts l) @ (if stale seen m then [] else [payload m])"
    "tracks (o_last_rid (cx_rep l1)) (seen_after seen m)" "learner_ok f nc (cx_rep l1)"
    using learner_step [OF Cons.prems(11) cid Cons.prems(12) lf(1,2), of False kvs]
    unfolding seen_after_def lf(3) lf(4) lf(5) lf(7) by blast
  have "one_ready f (cx_rep a1)" "o_highest (cx_rep a1) = h" "r_replicas (cx_rep a1) = replicas"
    "unat (r_num_replicas (cx_rep a1)) = n"
    using Cons.prems(3-6) by (simp_all add: a1(4) one_ready_def)
  moreover have "\<forall>m \<in> set ms. wf_msg m \<and> msg_tag m = ONE_ACC \<and> h \<le> m ! 2 \<and> unat (msg_cid m) < 64 \<and> unat (msg_cid m) < nc"
    using Cons.prems(1) by simp
  ultimately obtain a2 new l2 where r: "handle_all (message_handler_onepaxos False kvs) ms a1 = Inr a2"
    "cx_acts a2 = cx_acts a1 @ new"
    "execs new = map payload (selected (dedupe (seen_after seen m) ms) ms)"
    "handle_all (message_handler_onepaxos False kvs) (sends_to (unat (replicas ! i)) new) l1 = Inr l2"
    "execs (cx_acts l2) = execs (cx_acts l1) @ map payload (selected (dedupe (seen_after seen m) ms) ms)"
    using Cons.IH [OF _ a1(3) _ _ _ _ Cons.prems(7-10) l1(3,4)] by blast
  let ?new = "map (\<lambda>i. Send (unat (replicas ! i)) ?lm) (filter (\<lambda>i. i \<noteq> 1) [0..<n]) @
      (if stale seen m then [] else [Exec f (payload m)]) @ new"
  have "sends_to (unat (replicas ! i)) ?new = ?lm # sends_to (unat (replicas ! i)) new"
    using one_send_each [OF Cons.prems(7-10)] by simp
  then have "handle_all (message_handler_onepaxos False kvs) (sends_to (unat (replicas ! i)) ?new) l = Inr l2"
    using l1(1) r(4) by (simp only: handle_all.simps bindr_Inr)
  moreover have "handle_all (message_handler_onepaxos False kvs) (m # ms) a = Inr a2" using a1(1) r(1) by simp
  moreover have "cx_acts a2 = cx_acts a @ ?new" using a1(2) r(2) by simp
  moreover have "execs ?new = map payload (selected (dedupe seen (m # ms)) (m # ms))"
    unfolding dedupe_Cons using r(3) by simp
  moreover have "execs (cx_acts l2) = execs (cx_acts l) @ map payload (selected (dedupe seen (m # ms)) (m # ms))"
    unfolding dedupe_Cons using r(5) l1(2) by simp
  ultimately show ?case by blast
qed

text \<open>
  C15: in the normal case the acceptor and any learner that handles the learn messages the
  acceptor sends it execute exactly the same commands in the same order: the accepted
  requests with repetitions left out; none of their steps faults.
\<close>

theorem one_learner_follows_acceptor:
  assumes "\<forall>m \<in> set ms. wf_msg m \<and> msg_tag m = ONE_ACC \<and> o_highest (cx_rep a) \<le> m ! 2 \<and>
      unat (msg_cid m) < 64 \<and> unat (msg_cid m) < nc"
    and "tracks (o_last_rid (cx_rep a)) seen" and "one_ready f (cx_rep a)" and "cx_acts a = []"
    and "distinct (r_replicas (cx_rep a))"
    and "unat (r_num_replicas (cx_rep a)) = length (r_replicas (cx_rep a))"
    and "i < length (r_replicas (cx_rep a))" and "i \<noteq> 1"
    and "tracks (o_last_rid (cx_rep l)) seen" and "learner_ok f nc (cx_rep l)"
  shows "\<exists>a' l'. handle_all (message_handler_onepaxos False kvs) ms a = Inr a' \<and>
    handle_all (message_handler_onepaxos False kvs)
      (sends_to (unat (r_replicas (cx_rep a) ! i)) (cx_acts a')) l = Inr l' \<and>
    execs (cx_acts a') = map payload (selected (dedupe seen ms) ms) \<and>
    execs (cx_acts l') = execs (cx_acts l) @ execs (cx_acts a')"
  using acceptor_learner_run [OF assms(1,2,3) refl refl refl assms(5) _ _ assms(8,9,10)] assms(4,6,7)
  by fastforce

text \<open>A three-replica acceptor (replica 1) and a learner (replica 2) after initialisation.\<close>

definition example_one :: "u8 \<Rightarrow> one_ctx" where
  "example_one i = start_ctx (zero_onepaxos\<lparr>r_id := i, r_num_replicas := 3, r_replicas := [0, 1, 2],
     o_acceptor := 1, r_level := NODE_LEVEL, r_alg_below := ALG_NONE, r_exec := Some Default_exec_fn,
     o_last_rid := replicate 64 (-1), o_current_n := 1\<rparr>) zero_layer"

definition example_accept :: "u32 \<Rightarrow> msg" where
  "example_accept k = put_tag 0 ONE_ACC (put_request_id 0 k [0, 0, 0, 0, 10, 20, 30])"

theorem one_learner_follows_acceptor_witness:
  "\<exists>a' l'. handle_all (message_handler_onepaxos False False) [example_accept 1, example_accept 1]
      (example_one 1) = Inr a' \<and>
    handle_all (message_handler_onepaxos False False) (sends_to 2 (cx_acts a')) (example_one 2) = Inr l' \<and>
    execs (cx_acts a') = map payload (selected (dedupe {} [example_accept 1, example_accept 1])
      [example_accept 1, example_accept 1]) \<and>
    execs (cx_acts l') = execs (cx_acts (example_one 2)) @ execs (cx_acts a')"
proof -
  have m: "wf_msg (example_accept 1)" "msg_tag (example_accept 1) = ONE_ACC"
    "unat (msg_cid (example_accept 1)) = 0" "example_accept 1 ! 2 = 0"
    by code_simp+
  have len: "length (r_replicas (cx_rep (example_one 1))) = 3" "r_replicas (cx_rep (example_one 1)) ! 2 = 2"
    by code_simp+
  have "learner_ok Default_exec_fn 1 (cx_rep (example_one 2))"
    by (simp add: example_one_def start_ctx_def learner_ok_def one_ready_def zero_onepaxos_def
        one_replica.defs zero_replica_def replica.defs)
  moreover have "one_ready Default_exec_fn (cx_rep (example_one 1))"
    "o_highest (cx_rep (example_one 1)) = 0"
    "tracks (o_last_rid (cx_rep (example_one 1))) {}" "tracks (o_last_rid (cx_rep (example_one 2))) {}"
    "cx_acts (example_one 1) = []" "distinct (r_replicas (cx_rep (example_one 1)))"
    "unat (r_num_replicas (cx_rep (example_one 1))) = 3"
    by (simp_all add: example_one_def start_ctx_def one_ready_def tracks_fresh zero_onepaxos_def
        one_replica.defs zero_replica_def replica.defs)
  ultimately show ?thesis
    using one_learner_follows_acceptor [of "[example_accept 1, example_accept 1]" "example_one 1" 1 "{}"
        Default_exec_fn 2 "example_one 2" False] m len by simp
qed

text \<open>
  C18: over any sequence of messages a 1Paxos replica executes the commands at most once:
  starting from the initial table of request ids, \<^verbatim>\<open>execute\<close> runs exactly the messages the
  reference selects, the executed request ids of a client strictly increase, and a message is
  left out only when its client has an executed request with the same or a greater id.
\<close>

theorem one_executes_at_most_once:
  assumes "o_last_rid (cx_rep c) = replicate 64 (-1)" and "\<forall>m \<in> set ms. unat (msg_cid m) < 64"
    and "r_exec (cx_rep c) = Some f"
  shows "\<exists>c' bs. execute_all ms c = Inr (c', bs) \<and> length bs = length ms \<and>
    execs (cx_acts c') = execs (cx_acts c) @ map payload (selected bs ms) \<and>
    sorted_wrt (\<lambda>x y. msg_cid x = msg_cid y \<longrightarrow> msg_rid x < msg_rid y) (selected bs ms) \<and>
    (\<forall>m \<in> set ms. \<exists>x \<in> set (selected bs ms). msg_cid x = msg_cid m \<and> msg_rid m \<le> msg_rid x)"
proof -
  have tr: "tracks (o_last_rid (cx_rep c)) {}" using assms(1) tracks_fresh by simp
  have "\<forall>m \<in> set ms. \<exists>x \<in> set (selected (dedupe {} ms) ms). msg_cid x = msg_cid m \<and> msg_rid m \<le> msg_rid x"
    using dedupe_covers [of _ ms "{}"] by (auto simp: stale_def)
  with execute_all_dedupe [OF tr assms(2,3)] dedupe_increasing [of "{}" ms] length_dedupe [of "{}" ms]
  show ?thesis by blast
qed

theorem one_executes_at_most_once_witness:
  "\<exists>c' bs. execute_all [example_accept 2, example_accept 1, example_accept 2] (example_one 1) = Inr (c', bs) \<and>
    length bs = 3 \<and>
    execs (cx_acts c') = execs (cx_acts (example_one 1)) @
      map payload (selected bs [example_accept 2, example_accept 1, example_accept 2]) \<and>
    sorted_wrt (\<lambda>x y. msg_cid x = msg_cid y \<longrightarrow> msg_rid x < msg_rid y)
      (selected bs [example_accept 2, example_accept 1, example_accept 2])"
proof -
  have "unat (msg_cid (example_accept 1)) < 64" "unat (msg_cid (example_accept 2)) < 64" by code_simp+
  moreover have "o_last_rid (cx_rep (example_one 1)) = replicate 64 (-1)"
    "r_exec (cx_rep (example_one 1)) = Some Default_exec_fn"
    by (simp_all add: example_one_def start_ctx_def)
  ultimately show ?thesis
    using one_executes_at_most_once [of "example_one 1" "[example_accept 2, example_accept 1, example_accept 2]"
        Default_exec_fn] by auto
qed

subsection \<open>Change of leader and acceptor\<close>

lemma majority_bounds:
  assumes "0 < unat n"
  shows "unat n < 2 * (majority_of n + 1)" "2 * majority_of n \<le> unat n" "majority_of n < unat n"
  using assms by (auto simp: majority_of_def elim!: evenE oddE)

lemma majority_small: "majority_of n < 256"
proof -
  have "unat n < 256" by simp
  then show ?thesis unfolding majority_of_def by (split if_split) linarith
qed

lemma vote_tags [simp]:
  "ONE_GET_ACCEPTOR \<noteq> SETUP_TAG" "ONE_GET_ACCEPTOR \<noteq> REQ_TAG" "ONE_GET_ACCEPTOR \<noteq> ONE_PREP"
  "ONE_GET_ACCEPTOR \<noteq> ONE_PREP_RESP" "ONE_GET_ACCEPTOR \<noteq> ONE_ACC" "ONE_GET_ACCEPTOR \<noteq> ONE_LEARN"
  "ONE_GET_ACCEPTOR \<noteq> ONE_ABAN" "ONE_GET_ACCEPTOR \<noteq> ONE_CHANGE_LEADER"
  "ONE_GET_ACCEPTOR \<noteq> ONE_CHANGE_ACCEPTOR" "ONE_GET_ACCEPTOR \<noteq> ONE_IS_LEADER"
  by (simp_all add: algs)

lemma narrow_widen: "ucast (ucast (a :: u8) :: u64) = a"
  by (rule bit_word_eqI) (simp add: bit_ucast_iff)

text \<open>The votes for one acceptor, counted up to the majority.\<close>

definition vote_msg :: "u8 \<Rightarrow> msg \<Rightarrow> bool" where
  "vote_msg a m \<longleftrightarrow> wf_msg m \<and> msg_tag m = ONE_GET_ACCEPTOR \<and> m ! 1 \<noteq> 0 \<and> m ! 2 = ucast a"

lemma vote_step:
  assumes "vote_msg a m" and "unat a < length (o_votes (cx_rep c))"
  shows "message_handler_onepaxos smlt kvs (c\<lparr>cx_msg := m\<rparr>) =
    (let v = o_votes (cx_rep c) ! unat a + 1;
         c = c\<lparr>cx_msg := m, cx_rep := (cx_rep c)\<lparr>o_votes := (o_votes (cx_rep c))[unat a := v]\<rparr>\<rparr> in
     if unat v = majority_of (r_num_replicas (cx_rep c)) then become_leader (ucast a) c else Inr c)"
proof -
  have "rd m 1 = Inr (m ! 1)" "rd m 2 = Inr (ucast a)" using assms(1) by (simp_all add: vote_msg_def)
  with assms show ?thesis
    by (simp add: message_handler_onepaxos_def vote_msg_def by_index_def data_def
        handle_get_current_acceptor_response_def Let_def)
qed

lemma votes_below_majority:
  assumes "\<forall>m \<in> set ms. vote_msg a m" and "o_votes (cx_rep c) ! unat a = 0"
    and "unat a < length (o_votes (cx_rep c))" and "length ms < majority_of (r_num_replicas (cx_rep c))"
  shows "\<exists>m. handle_all (message_handler_onepaxos smlt kvs) ms c = Inr (c\<lparr>cx_msg := m,
    cx_rep := (cx_rep c)\<lparr>o_votes := (o_votes (cx_rep c))[unat a := of_nat (length ms)]\<rparr>\<rparr>)"
  using assms(1,4)
proof (induction ms rule: rev_induct)
  case Nil
  show ?case using assms(2,3) by (intro exI [of _ "cx_msg c"]) (simp add: list_update_id [of "o_votes (cx_rep c)" "unat a", simplified assms(2)])
next
  case (snoc m ms)
  then obtain m0 where m0: "handle_all (message_handler_onepaxos smlt kvs) ms c = Inr (c\<lparr>cx_msg := m0,
    cx_rep := (cx_rep c)\<lparr>o_votes := (o_votes (cx_rep c))[unat a := of_nat (length ms)]\<rparr>\<rparr>)"
    by auto
  have "majority_of (r_num_replicas (cx_rep c)) < 256" by (rule majority_small)
  with snoc.prems(2) have "unat (of_nat (length ms) + 1 :: u16) = length ms + 1"
    by (simp add: unat_word_ariths unat_of_nat take_bit_nat_eq_self)
  with m0 snoc.prems assms(3) show ?case
    by (intro exI [of _ m]) (simp add: handle_all_snoc vote_step [of a m] Let_def add.commute)
qed

text \<open>
  C20: a replica that asks for the current acceptor becomes the leader exactly when as many
  replicas have named the same acceptor as, with itself, make a majority: with fewer answers
  only the count has changed; with the last of them it takes the acceptor over, marks the old
  leader dead, is the leader itself and starts the next proposal number with all votes reset.
\<close>

theorem one_leader_by_majority:
  assumes "\<forall>m \<in> set ms. vote_msg a m" and "o_votes (cx_rep c) ! unat a = 0"
    and "length (o_votes (cx_rep c)) = 64" and "unat a < 64"
    and "0 < unat (r_num_replicas (cx_rep c))" and "unat (r_num_replicas (cx_rep c)) \<le> 64"
    and "unat (o_leader (cx_rep c)) < length (o_is_dead (cx_rep c))"
    and "0 < length ms" and "length ms \<le> majority_of (r_num_replicas (cx_rep c))"
  shows "\<exists>c'. handle_all (message_handler_onepaxos smlt kvs) ms c = Inr c' \<and>
    (if length ms < majority_of (r_num_replicas (cx_rep c))
     then cx_rep c' = (cx_rep c)\<lparr>o_votes := (o_votes (cx_rep c))[unat a := of_nat (length ms)]\<rparr>
     else unat (r_num_replicas (cx_rep c)) < 2 * (length ms + 1) \<and>
       o_leader (cx_rep c') = r_id (cx_rep c) \<and> o_acceptor (cx_rep c') = a \<and>
       o_is_dead (cx_rep c') = (o_is_dead (cx_rep c))[unat (o_leader (cx_rep c)) := True] \<and>
       o_current_n (cx_rep c') = o_current_n (cx_rep c) + 1 \<and>
       take (unat (r_num_replicas (cx_rep c))) (o_votes (cx_rep c')) =
         replicate (unat (r_num_replicas (cx_rep c))) 0)"
proof (cases "length ms < majority_of (r_num_replicas (cx_rep c))")
  case True
  with votes_below_majority [of ms a c smlt kvs] assms(1-4) show ?thesis by auto
next
  case False
  let ?n = "r_num_replicas (cx_rep c)"
  obtain ns m where ms: "ms = ns @ [m]" using assms(8) by (cases ms rule: rev_cases) auto
  have len: "Suc (length ns) = majority_of ?n" using ms False assms(9) by simp
  have vm: "\<forall>m \<in> set ns. vote_msg a m" "vote_msg a m" using assms(1) ms by auto
  obtain m0 where m0: "handle_all (message_handler_onepaxos smlt kvs) ns c = Inr (c\<lparr>cx_msg := m0,
    cx_rep := (cx_rep c)\<lparr>o_votes := (o_votes (cx_rep c))[unat a := of_nat (length ns)]\<rparr>\<rparr>)"
    using votes_below_majority [OF vm(1) assms(2)] assms(3,4) len by force
  have "majority_of ?n < 256" by (rule majority_small)
  with len have v: "unat (of_nat (length ns) + 1 :: u16) = majority_of ?n"
    by (simp add: unat_word_ariths unat_of_nat take_bit_nat_eq_self)
  have wf: "2 < length m" "wf_msg m" using vm(2) by (simp_all add: vote_msg_def)
  have "take (unat ?n) (replicate (unat ?n) 0 @ drop (unat ?n) vs) = replicate (unat ?n) 0" for vs :: "u16 list"
    by simp
  with m0 ms v vm(2) assms(3-7) wf len majority_bounds(1) [OF assms(5)] show ?thesis
    by (simp add: handle_all_snoc vote_step [of a m] Let_def become_leader_def wr_range stmts narrow_widen)
qed

definition example_vote :: msg where
  "example_vote = put_tag 0 ONE_GET_ACCEPTOR [0, 1, 1, 0, 0, 0, 0]"

theorem one_leader_by_majority_witness:
  "\<exists>c'. handle_all (message_handler_onepaxos False False) [example_vote]
      ((example_one 2)\<lparr>cx_rep := (cx_rep (example_one 2))\<lparr>o_is_dead := [False, False, False]\<rparr>\<rparr>) = Inr c' \<and>
    o_leader (cx_rep c') = 2 \<and> o_acceptor (cx_rep c') = 1"
proof -
  let ?c = "(example_one 2)\<lparr>cx_rep := (cx_rep (example_one 2))\<lparr>o_is_dead := [False, False, False]\<rparr>\<rparr>"
  have "vote_msg 1 example_vote" by code_simp
  moreover have "o_votes (cx_rep ?c) = replicate 64 0" "unat (o_leader (cx_rep ?c)) = 0"
    "r_num_replicas (cx_rep ?c) = 3" "majority_of 3 = 1" "length (o_is_dead (cx_rep ?c)) = 3"
    "r_id (cx_rep ?c) = 2"
    by code_simp+
  ultimately show ?thesis
    using one_leader_by_majority [of "[example_vote]" 1 ?c False False] by auto
qed

lemma find_first:
  "find P [a..<b] = (if \<exists>i. a \<le> i \<and> i < b \<and> P i then Some (LEAST i. a \<le> i \<and> i < b \<and> P i) else None)"
proof -
  consider "\<forall>i. a \<le> i \<longrightarrow> i < b \<longrightarrow> \<not> P i" | i where "a \<le> i" "i < b" "P i" by blast
  then show ?thesis
  proof cases
    case 1
    then show ?thesis by (auto simp: find_None_iff)
  next
    case 2
    let ?l = "LEAST i. a \<le> i \<and> i < b \<and> P i"
    have l: "a \<le> ?l" "?l < b" "P ?l" using LeastI [of "\<lambda>i. a \<le> i \<and> i < b \<and> P i" i] 2 by auto
    have "find P [a..<b] = Some ?l"
      unfolding find_Some_iff
    proof (intro exI [of _ "?l - a"] conjI allI impI)
      fix j
      assume "j < ?l - a"
      then have "a + j < ?l" by simp
      from not_less_Least [OF this] l show "\<not> P ([a..<b] ! j)" using \<open>a + j < ?l\<close> by auto
    qed (use l in auto)
    with 2 show ?thesis by auto
  qed
qed

text \<open>
  After a majority has confirmed the leader, the acceptor is replaced by the first replica
  after it that is not the leader; when there is none, the guard for that case (a comparison
  of a byte with 65535) does not hold and the leader goes on with acceptor 255.
\<close>

theorem one_moves_acceptor:
  assumes "unat (o_acceptor (cx_rep c)) < length (o_is_dead (cx_rep c))" and "wf_msg (cx_msg c)"
  shows "\<exists>c'. move_acceptor c = Inr c' \<and> o_num_success (cx_rep c') = 0 \<and>
    o_current_n (cx_rep c') = o_current_n (cx_rep c) + 1 \<and>
    o_is_dead (cx_rep c') = (o_is_dead (cx_rep c))[unat (o_acceptor (cx_rep c)) := True] \<and>
    (let later = (\<lambda>i. unat (o_acceptor (cx_rep c)) < i \<and> i < unat (r_num_replicas (cx_rep c)) \<and>
        i \<noteq> unat (o_leader (cx_rep c))) in
     if \<exists>i. later i then unat (o_acceptor (cx_rep c')) = (LEAST i. later i)
     else o_acceptor (cx_rep c') = 255)"
proof -
  let ?P = "\<lambda>i. unat (o_acceptor (cx_rep c)) + 1 \<le> i \<and> i < unat (r_num_replicas (cx_rep c)) \<and>
      unat (o_leader (cx_rep c)) \<noteq> i"
  have small: "unat (ucast (of_nat i :: u16) :: u8) = i" if "i < unat (r_num_replicas (cx_rep c))" for i
  proof -
    have "i < 256" using that unat_8_less [of "r_num_replicas (cx_rep c)"] by linarith
    then show ?thesis by (simp add: unsigned_ucast_eq unat_of_nat take_bit_nat_eq_self)
  qed
  have "(\<exists>i. ?P i) \<Longrightarrow> (LEAST i. ?P i) < unat (r_num_replicas (cx_rep c))"
    using LeastI_ex [of ?P] by blast
  note least = small [OF this]
  have later: "(\<lambda>i. unat (o_acceptor (cx_rep c)) < i \<and> i < unat (r_num_replicas (cx_rep c)) \<and>
      i \<noteq> unat (o_leader (cx_rep c))) = ?P" by auto
  have nacc: "unat (ucast (next_acceptor_id ((cx_rep c)\<lparr>o_is_dead := d\<rparr>)) :: u8) \<noteq> 65535" for d
    using unat_8_less [of "ucast (next_acceptor_id ((cx_rep c)\<lparr>o_is_dead := d\<rparr>))"] by linarith
  have acc: "if \<exists>i. ?P i then unat (ucast (next_acceptor_id ((cx_rep c)\<lparr>o_is_dead := d\<rparr>)) :: u8) = (LEAST i. ?P i)
     else (ucast (next_acceptor_id ((cx_rep c)\<lparr>o_is_dead := d\<rparr>)) :: u8) = 255" for d
  proof (cases "\<exists>i. ?P i")
    case True
    with least [OF True] show ?thesis by (simp add: next_acceptor_id_def find_first)
  next
    case False
    then have "(ucast (next_acceptor_id ((cx_rep c)\<lparr>o_is_dead := d\<rparr>)) :: u8) = ucast (-1 :: u16)"
      by (auto simp: next_acceptor_id_def find_first)
    moreover have "(ucast (-1 :: u16) :: u8) = 255" by code_simp
    ultimately show ?thesis unfolding if_not_P [OF False] by simp
  qed
  let ?r = "(cx_rep c)\<lparr>o_is_dead := (o_is_dead (cx_rep c))[unat (o_acceptor (cx_rep c)) := True]\<rparr>"
  obtain c' where "move_acceptor c = Inr c'" "cx_rep c' = ?r\<lparr>o_acceptor := ucast (next_acceptor_id ?r),
      o_current_n := o_current_n (cx_rep c) + 1, o_num_success := 0\<rparr>"
    using assms nacc [of "(o_is_dead (cx_rep c))[unat (o_acceptor (cx_rep c)) := True]"]
    by (simp add: move_acceptor_def Let_def stmts st_rep_def)
  with acc [of "(o_is_dead (cx_rep c))[unat (o_acceptor (cx_rep c)) := True]"] show ?thesis
    unfolding Let_def later by (intro exI [of _ c']) simp
qed

theorem one_moves_acceptor_witness:
  "\<exists>c'. move_acceptor ((example_one 0)\<lparr>cx_rep := (cx_rep (example_one 0))\<lparr>o_acceptor := 2,
      o_is_dead := [False, False, False]\<rparr>\<rparr>) = Inr c' \<and> o_acceptor (cx_rep c') = 255"
proof -
  let ?c = "(example_one 0)\<lparr>cx_rep := (cx_rep (example_one 0))\<lparr>o_acceptor := 2, o_is_dead := [False, False, False]\<rparr>\<rparr>"
  have h: "unat (o_acceptor (cx_rep ?c)) = 2" "length (o_is_dead (cx_rep ?c)) = 3" "wf_msg (cx_msg ?c)"
    "unat (r_num_replicas (cx_rep ?c)) = 3"
    by code_simp+
  then have n: "\<not> (\<exists>i. unat (o_acceptor (cx_rep ?c)) < i \<and> i < unat (r_num_replicas (cx_rep ?c)) \<and>
      i \<noteq> unat (o_leader (cx_rep ?c)))" by auto
  show ?thesis using one_moves_acceptor [of ?c] h unfolding Let_def if_not_P [OF n] by auto
qed

text \<open>
  The first prepare response of a replica that has not set up its queue builds the queue
  with one entry for the last accepted message; if it has accepted none yet, that entry holds
  NULL and the next prepare response dereferences it.
\<close>

theorem one_second_prepare_response_faults:
  assumes "\<not> o_queue_ready (cx_rep c)" and "o_last_entry (cx_rep c) = Null_msg"
    and "msg_tag m = ONE_PREP_RESP" and "msg_tag m' = ONE_PREP_RESP"
  shows "\<exists>c'. message_handler_onepaxos smlt kvs (c\<lparr>cx_msg := m\<rparr>) = Inr c' \<and>
      o_queue_ready (cx_rep c') \<and> eq_size (o_queue (cx_rep c')) = 1 \<and>
      message_handler_onepaxos smlt kvs (c'\<lparr>cx_msg := m'\<rparr>) = Inl NullDeref"
proof -
  have tags: "ONE_PREP_RESP \<noteq> SETUP_TAG" "ONE_PREP_RESP \<noteq> REQ_TAG" "ONE_PREP_RESP \<noteq> ONE_PREP"
    by (simp_all add: algs)
  have two: "resend_entries (Suc (Suc 0)) x = resend_entries (Suc 1) x" for x by simp
  show ?thesis using assms tags
    by (simp add: message_handler_onepaxos_def handle_prepare_response_onepaxos_def Let_def st_rep_def
        enqueue_msg_def new_entry_def entry_q_enqueue_def set_next_def deref_def store_def
        entry_queue_init_def entry_q_empty_def entry_q_dequeue_def numeral_2_eq_2)
qed

theorem one_second_prepare_response_faults_witness:
  "\<exists>c'. message_handler_onepaxos False False ((example_one 0)\<lparr>cx_msg := put_tag 0 ONE_PREP_RESP (replicate 7 0)\<rparr>) = Inr c' \<and>
      o_queue_ready (cx_rep c') \<and> eq_size (o_queue (cx_rep c')) = 1 \<and>
      message_handler_onepaxos False False (c'\<lparr>cx_msg := put_tag 0 ONE_PREP_RESP (replicate 7 0)\<rparr>) = Inl NullDeref"
proof -
  have "\<not> o_queue_ready (cx_rep (example_one 0))" "o_last_entry (cx_rep (example_one 0)) = Null_msg"
    "msg_tag (put_tag 0 ONE_PREP_RESP (replicate 7 0)) = ONE_PREP_RESP"
    by code_simp+
  then show ?thesis
    using one_second_prepare_response_faults [of "example_one 0" "put_tag 0 ONE_PREP_RESP (replicate 7 0)"] by blast
qed

end
