(* ===== verification/Raft_Log.thy ===== *)
theory Raft_Log
  imports Message
begin

text \<open>
  The log of \<^verbatim>\<open>raft_replica.c\<close>: a doubly linked list of malloc'ed \<^verbatim>\<open>struct log_entry\<close>.
  Pointers are addresses of a heap (\<open>None\<close> is NULL). What \<^verbatim>\<open>malloc\<close> leaves in a new entry is
  \<open>lh_junk\<close>: the code never sets \<^verbatim>\<open>prev\<close> of the first entry and leaves some counts unset.
  The locale \<open>log_store\<close> is what the handlers of a follower rely on; the list is its instance.
\<close>

record log_entry =
  le_exec_count :: u8
  le_index :: u64
  le_term :: u64
  le_header :: u64
  le_payload :: "u64 list"
  le_next :: "nat option"
  le_prev :: "nat option"

record log_queue =
  lq_size :: "32 word"
  lq_head :: "nat option"
  lq_tail :: "nat option"

text \<open>The entries ever allocated, by address; \<open>None\<close> is a freed one.\<close>

record log_heap =
  lh_cells :: "log_entry option list"
  lh_junk :: "nat \<Rightarrow> log_entry"

definition lh_fresh :: "log_heap \<Rightarrow> nat" where
  "lh_fresh h = length (lh_cells h)"

definition cell :: "log_heap \<Rightarrow> nat \<Rightarrow> log_entry option" where
  "cell h a = (if a < length (lh_cells h) then lh_cells h ! a else None)"

definition set_cell :: "nat \<Rightarrow> log_entry option \<Rightarrow> log_heap \<Rightarrow> log_heap" where
  "set_cell a e h = h\<lparr>lh_cells := (lh_cells h)[a := e]\<rparr>"

definition ld :: "log_heap \<Rightarrow> nat option \<Rightarrow> log_entry res" where
  "ld h p = (case p of None \<Rightarrow> Inl NullDeref
     | Some a \<Rightarrow> (case cell h a of None \<Rightarrow> Inl UseAfterFree | Some e \<Rightarrow> Inr e))"

definition st_at :: "nat option \<Rightarrow> (log_entry \<Rightarrow> log_entry) \<Rightarrow> log_heap \<Rightarrow> log_heap res" where
  "st_at p f h = bindr (ld h p) (\<lambda>e. case p of None \<Rightarrow> Inl NullDeref
     | Some a \<Rightarrow> Inr (set_cell a (Some (f e)) h))"

definition malloc_entry :: "log_heap \<Rightarrow> nat \<times> log_heap" where
  "malloc_entry h = (lh_fresh h,
     h\<lparr>lh_cells := lh_cells h @ [Some (lh_junk h (lh_fresh h))]\<rparr>)"

text \<open>\<^verbatim>\<open>free\<close> ignores NULL; freeing twice is a fault.\<close>

definition free_log :: "nat option \<Rightarrow> log_heap \<Rightarrow> log_heap res" where
  "free_log p h = (case p of None \<Rightarrow> Inr h
     | Some a \<Rightarrow> (if cell h a = None then Inl UseAfterFree
                  else Inr (set_cell a None h)))"

subsection \<open>The operations\<close>

type_synonym log_state = "log_queue \<times> log_heap"

definition log_queue_init :: "log_queue \<Rightarrow> log_queue" where
  "log_queue_init q = \<lparr>lq_size = 0, lq_head = None, lq_tail = None\<rparr>"

definition enqueue_log :: "nat \<Rightarrow> log_state \<Rightarrow> log_state res" where
  "enqueue_log ele = (\<lambda>(q, h).
     bindr (st_at (Some ele) (\<lambda>e. e\<lparr>le_next := None\<rparr>) h) (\<lambda>h.
       if lq_head q = None then
         Inr (q\<lparr>lq_head := Some ele, lq_tail := Some ele, lq_size := lq_size q + 1\<rparr>, h)
       else
         let prev_t = lq_tail q in
         bindr (st_at (lq_tail q) (\<lambda>e. e\<lparr>le_next := Some ele\<rparr>) h) (\<lambda>h.
         bindr (st_at (Some ele) (\<lambda>e. e\<lparr>le_prev := prev_t\<rparr>) h) (\<lambda>h.
           Inr (q\<lparr>lq_tail := Some ele, lq_size := lq_size q + 1\<rparr>, h)))))"

text \<open>
  The walk both searches share. It visits each allocated address at most once unless the list
  has a cycle, so more steps than addresses mean a walk that does not end (\<open>Blocked\<close>).
\<close>

fun walk :: "nat \<Rightarrow> log_heap \<Rightarrow> u64 \<Rightarrow> nat option \<Rightarrow> nat option res" where
  "walk 0 h i p = Inl Blocked"
| "walk (Suc n) h i p =
     (if p = None then Inr None
      else bindr (ld h p) (\<lambda>e. if le_index e = i then Inr p else walk n h i (le_next e)))"

definition queue_contains :: "u64 \<Rightarrow> log_state \<Rightarrow> nat option res" where
  "queue_contains i = (\<lambda>(q, h). walk (lh_fresh h + 1) h i (lq_head q))"

text \<open>The entry is unlinked, neither freed nor counted off; the head and tail stay.\<close>

definition remove_entry :: "u64 \<Rightarrow> log_state \<Rightarrow> (log_state \<times> nat option) res" where
  "remove_entry i = (\<lambda>(q, h).
     bindr (walk (lh_fresh h + 1) h i (lq_head q)) (\<lambda>p.
       if p = None then Inr ((q, h), None)
       else
         bindr (ld h p) (\<lambda>e.
         bindr (st_at (le_prev e) (\<lambda>x. x\<lparr>le_next := le_next e\<rparr>) h) (\<lambda>h.
         bindr (st_at (le_next e) (\<lambda>x. x\<lparr>le_prev := le_prev e\<rparr>) h) (\<lambda>h.
           Inr ((q, h), p))))))"

definition when_ptr :: "nat option \<Rightarrow> (log_heap \<Rightarrow> log_heap res) \<Rightarrow> log_heap \<Rightarrow> log_heap res" where
  "when_ptr p f h = (if p = None then Inr h else f h)"

text \<open>\<open>n\<close> is \<^verbatim>\<open>replica.num_replicas\<close> and \<open>c\<close> is \<^verbatim>\<open>replica.commit_index\<close>.\<close>

fun cleanup_from :: "nat \<Rightarrow> u8 \<Rightarrow> u64 \<Rightarrow> nat option \<Rightarrow> log_heap \<Rightarrow> log_heap res" where
  "cleanup_from 0 n c p h = Inl Blocked"
| "cleanup_from (Suc k) n c p h =
     (if p = None then Inr h
      else
        bindr (ld h p) (\<lambda>e.
        bindr (if le_exec_count e = n \<and> le_index e < c - 1 then
                 bindr (when_ptr (le_prev e) (st_at (le_prev e) (\<lambda>x. x\<lparr>le_next := le_next e\<rparr>)) h) (\<lambda>h.
                 bindr (when_ptr (le_next e) (st_at (le_next e) (\<lambda>x. x\<lparr>le_prev := le_prev e\<rparr>)) h)
                   (free_log p))
               else Inr h) (\<lambda>h.
        bindr (ld h p) (\<lambda>e. cleanup_from k n c (le_next e) h))))"

definition cleanup_queue :: "u8 \<Rightarrow> u64 \<Rightarrow> log_state \<Rightarrow> log_state res" where
  "cleanup_queue n c = (\<lambda>(q, h).
     bindr (cleanup_from (lh_fresh h + 1) n c (lq_head q) h) (\<lambda>h. Inr (q, h)))"

text \<open>The handlers' \<^verbatim>\<open>malloc\<close>, assignments to the new entry, and \<^verbatim>\<open>enqueue\<close>.\<close>

definition append_entry :: "(log_entry \<Rightarrow> log_entry) \<Rightarrow> log_state \<Rightarrow> log_state res" where
  "append_entry f = (\<lambda>(q, h).
     let (ele, h) = malloc_entry h in
     bindr (st_at (Some ele) f h) (\<lambda>h. enqueue_log ele (q, h)))"

text \<open>\<^verbatim>\<open>ele = remove_entry(...); free(ele);\<close>\<close>

definition drop_log_entry :: "u64 \<Rightarrow> log_state \<Rightarrow> log_state res" where
  "drop_log_entry i s = bindr (remove_entry i s) (\<lambda>((q, h), p).
     bindr (free_log p h) (\<lambda>h. Inr (q, h)))"

definition lookup_log :: "u64 \<Rightarrow> log_state \<Rightarrow> log_entry option res" where
  "lookup_log i s = bindr (queue_contains i s) (\<lambda>p.
     if p = None then Inr None else bindr (ld (snd s) p) (\<lambda>e. Inr (Some e)))"

subsection \<open>The contract of the log\<close>

text \<open>
  What is kept of an entry: its index, term, header and payload. A log store holds a
  sequence of them; it can append, find the first of an index, and drop an inner one.
\<close>

type_synonym log_item = "u64 \<times> u64 \<times> u64 \<times> u64 list"

locale log_store =
  fixes holds :: "'s \<Rightarrow> 'e list \<Rightarrow> bool"
    and key :: "'e \<Rightarrow> 'k"
    and append :: "'e \<Rightarrow> 's \<Rightarrow> 's res"
    and lookup :: "'k \<Rightarrow> 's \<Rightarrow> 'e option res"
    and drop_key :: "'k \<Rightarrow> 's \<Rightarrow> 's res"
  assumes append_law: "holds s xs \<Longrightarrow> \<exists>s'. append x s = Inr s' \<and> holds s' (xs @ [x])"
    and lookup_law: "holds s xs \<Longrightarrow> lookup k s = Inr (find (\<lambda>x. key x = k) xs)"
    and drop_law: "holds s (x # xs @ y # z # zs) \<Longrightarrow> key y \<notin> key ` set (x # xs) \<Longrightarrow>
      \<exists>s'. drop_key (key y) s = Inr s' \<and> holds s' (x # xs @ z # zs)"
begin

lemma lookup_appended:
  assumes "holds s xs" and "append x s = Inr s'" and "key x \<notin> key ` set xs"
  shows "lookup (key x) s' = Inr (Some x)"
proof -
  obtain s'' where "append x s = Inr s''" "holds s'' (xs @ [x])" using append_law [OF assms(1)] by blast
  with assms(2) have "holds s' (xs @ [x])" by simp
  moreover have "find (\<lambda>y. key y = key x) xs = None" using assms(3) by (auto simp: find_None_iff image_iff)
  ultimately show ?thesis using lookup_law by (simp add: find_append)
qed

lemma lookup_kept:
  assumes "holds s xs" and "append x s = Inr s'" and "lookup k s = Inr (Some y)"
  shows "lookup k s' = Inr (Some y)"
proof -
  obtain s'' where "append x s = Inr s''" "holds s'' (xs @ [x])" using append_law [OF assms(1)] by blast
  with assms(2) have "holds s' (xs @ [x])" by simp
  then show ?thesis using lookup_law assms(1,3) by (simp add: find_append split: option.splits)
qed

end


subsection \<open>The doubly linked list\<close>

text \<open>
  \<open>seg h p pv as q qv\<close>: from \<open>p\<close>, coming from \<open>pv\<close>, the entries \<open>as\<close> are linked both ways and lead
  to \<open>q\<close>, with \<open>qv\<close> the last one passed. Nothing is said of \<^verbatim>\<open>prev\<close> of the first entry of a list.
\<close>

fun seg :: "log_heap \<Rightarrow> nat option \<Rightarrow> nat option \<Rightarrow> nat list \<Rightarrow> nat option \<Rightarrow> nat option \<Rightarrow> bool" where
  "seg h p pv [] q qv \<longleftrightarrow> p = q \<and> pv = qv"
| "seg h p pv (a # as) q qv \<longleftrightarrow> p = Some a \<and>
     (\<exists>e. cell h a = Some e \<and> (pv \<noteq> None \<longrightarrow> le_prev e = pv) \<and> seg h (le_next e) (Some a) as q qv)"

definition item_of :: "log_entry \<Rightarrow> log_item" where
  "item_of e = (le_index e, le_term e, le_header e, le_payload e)"

definition item_at :: "log_heap \<Rightarrow> nat \<Rightarrow> log_item" where
  "item_at h a = item_of (the (cell h a))"

definition log_holds_at :: "log_state \<Rightarrow> nat list \<Rightarrow> bool" where
  "log_holds_at = (\<lambda>(q, h) as. seg h (lq_head q) None as None (lq_tail q) \<and> distinct as \<and>
     (\<forall>a \<in> set as. a < lh_fresh h))"

definition log_holds :: "log_state \<Rightarrow> log_item list \<Rightarrow> bool" where
  "log_holds s xs \<longleftrightarrow> (\<exists>as. log_holds_at s as \<and> xs = map (item_at (snd s)) as)"

definition fill_entry :: "log_item \<Rightarrow> log_entry \<Rightarrow> log_entry" where
  "fill_entry = (\<lambda>(i, t, hd, pl) e. e\<lparr>le_index := i, le_term := t, le_header := hd, le_payload := pl\<rparr>)"

definition lookup_item :: "u64 \<Rightarrow> log_state \<Rightarrow> log_item option res" where
  "lookup_item i s = bindr (lookup_log i s) (\<lambda>e. Inr (map_option item_of e))"

lemma seg_append: "seg h p pv (as @ bs) q qv \<longleftrightarrow> (\<exists>r rv. seg h p pv as r rv \<and> seg h r rv bs q qv)"
  by (induction as arbitrary: p pv) auto

lemma seg_cell: "seg h p pv as q qv \<Longrightarrow> a \<in> set as \<Longrightarrow> \<exists>e. cell h a = Some e"
  by (induction as arbitrary: p pv) auto

lemma seg_other:
  "(\<And>a. a \<in> set as \<Longrightarrow> cell h' a = cell h a) \<Longrightarrow> seg h' p pv as q qv = seg h p pv as q qv"
  by (induction as arbitrary: p pv) auto

lemma cell_set [simp]:
  "cell (set_cell a e h) b = (if b = a then if a < lh_fresh h then e else None else cell h b)"
  by (simp add: cell_def set_cell_def lh_fresh_def)

lemma cell_snoc [simp]:
  "cell (h\<lparr>lh_cells := lh_cells h @ [e]\<rparr>) b = (if b = lh_fresh h then e else cell h b)"
  by (auto simp: cell_def lh_fresh_def nth_append)

lemma fresh_set [simp]: "lh_fresh (set_cell a e h) = lh_fresh h" "lh_junk (set_cell a e h) = lh_junk h"
  by (simp_all add: lh_fresh_def set_cell_def)

lemma fresh_snoc [simp]: "lh_fresh (h\<lparr>lh_cells := lh_cells h @ [e]\<rparr>) = lh_fresh h + 1"
  by (simp add: lh_fresh_def)

lemma cell_Some_fresh: "cell h a = Some e \<Longrightarrow> a < lh_fresh h"
  by (auto simp: cell_def lh_fresh_def split: if_splits)

lemma set_snoc [simp]:
  "set_cell (lh_fresh h) e' (h\<lparr>lh_cells := lh_cells h @ [e]\<rparr>) = h\<lparr>lh_cells := lh_cells h @ [e']\<rparr>"
  by (simp add: set_cell_def lh_fresh_def)

lemma ld_Some: "cell h a = Some e \<Longrightarrow> ld h (Some a) = Inr e"
  by (simp add: ld_def)

lemma st_at_Some:
  "cell h a = Some e \<Longrightarrow> st_at (Some a) f h = Inr (set_cell a (Some (f e)) h)"
  by (simp add: st_at_def ld_def)

lemma walk_finds:
  "seg h p pv as None qv \<Longrightarrow> length as < n \<Longrightarrow>
   walk n h i p = Inr (find (\<lambda>a. le_index (the (cell h a)) = i) as)"
proof (induction as arbitrary: p pv n)
  case Nil
  then show ?case by (cases n) auto
next
  case (Cons a as)
  then obtain m where "n = Suc m" by (cases n) auto
  with Cons show ?case by (auto simp: ld_Some)
qed

lemma lookup_item_law: "log_holds s xs \<Longrightarrow> lookup_item i s = Inr (find (\<lambda>x. fst x = i) xs)"
proof -
  assume "log_holds s xs"
  then obtain q h as where s: "s = (q, h)" and seg: "seg h (lq_head q) None as None (lq_tail q)"
    and d: "distinct as" "\<forall>a \<in> set as. a < lh_fresh h" and xs: "xs = map (item_at h) as"
    by (cases s) (auto simp: log_holds_def log_holds_at_def)
  have "length as < lh_fresh h + 1" using length_le_bound [OF d] by simp
  note w = walk_finds [OF seg this, of i]
  show ?thesis
  proof (cases "find (\<lambda>a. le_index (the (cell h a)) = i) as")
    case None
    with w show ?thesis
      by (simp add: s xs lookup_item_def lookup_log_def queue_contains_def find_map item_at_def item_of_def)
  next
    case (Some a)
    then have "a \<in> set as" by (auto simp: find_Some_iff)
    then obtain e where "cell h a = Some e" using seg_cell [OF seg] by blast
    with w Some show ?thesis
      by (simp add: s xs lookup_item_def lookup_log_def queue_contains_def find_map item_at_def item_of_def
          ld_Some)
  qed
qed

lemma append_at:
  assumes "log_holds_at (q, h) as" and f: "le_next (f (lh_junk h (lh_fresh h))) = le_next (lh_junk h (lh_fresh h))"
  shows "\<exists>q' h'. append_entry f (q, h) = Inr (q', h') \<and> log_holds_at (q', h') (as @ [lh_fresh h]) \<and>
    (\<forall>a \<in> set as. item_at h' a = item_at h a) \<and>
    item_at h' (lh_fresh h) = item_of (f (lh_junk h (lh_fresh h)))"
proof -
  let ?b = "lh_fresh h"
  let ?e = "(f (lh_junk h ?b))\<lparr>le_next := None\<rparr>"
  let ?h = "h\<lparr>lh_cells := lh_cells h @ [Some ?e]\<rparr>"
  have sg: "seg h (lq_head q) None as None (lq_tail q)" and d: "distinct as" "\<forall>a \<in> set as. a < ?b"
    using assms(1) by (auto simp: log_holds_at_def)
  have nb: "?b \<notin> set as" using d(2) by auto
  have first: "append_entry f (q, h) =
      (if lq_head q = None then Inr (q\<lparr>lq_head := Some ?b, lq_tail := Some ?b, lq_size := lq_size q + 1\<rparr>, ?h)
       else bindr (st_at (lq_tail q) (\<lambda>e. e\<lparr>le_next := Some ?b\<rparr>) ?h) (\<lambda>h.
         bindr (st_at (Some ?b) (\<lambda>e. e\<lparr>le_prev := lq_tail q\<rparr>) h) (\<lambda>h.
           Inr (q\<lparr>lq_tail := Some ?b, lq_size := lq_size q + 1\<rparr>, h))))"
    by (simp add: append_entry_def malloc_entry_def enqueue_log_def st_at_Some Let_def)
  show ?thesis
  proof (cases as rule: rev_cases)
    case Nil
    with sg have "lq_head q = None" by simp
    then have "append_entry f (q, h) =
        Inr (q\<lparr>lq_head := Some ?b, lq_tail := Some ?b, lq_size := lq_size q + 1\<rparr>, ?h)"
      unfolding first by simp
    moreover have "log_holds_at (q\<lparr>lq_head := Some ?b, lq_tail := Some ?b, lq_size := lq_size q + 1\<rparr>, ?h)
        (as @ [?b])"
      by (simp add: Nil log_holds_at_def)
    moreover have "item_at ?h ?b = item_of (f (lh_junk h ?b))" by (simp add: item_at_def item_of_def)
    moreover have "\<forall>a \<in> set as. item_at ?h a = item_at h a" by (simp add: Nil)
    ultimately show ?thesis by blast
  next
    case (snoc bs t)
    then obtain r rv where bs: "seg h (lq_head q) None bs r rv" and "seg h r rv [t] None (lq_tail q)"
      using sg unfolding snoc seg_append by blast
    then obtain e where t: "r = Some t" "cell h t = Some e"
      "rv \<noteq> None \<longrightarrow> le_prev e = rv" "le_next e = None" "lq_tail q = Some t"
      by auto
    have tb: "t \<noteq> ?b" "t \<notin> set bs" "?b \<notin> set bs" "t < lh_fresh h"
      using nb d(1) snoc cell_Some_fresh [OF t(2)] by auto
    let ?h1 = "set_cell t (Some (e\<lparr>le_next := Some ?b\<rparr>)) ?h"
    let ?h2 = "set_cell ?b (Some (?e\<lparr>le_prev := Some t\<rparr>)) ?h1"
    have "lq_head q \<noteq> None" using bs t(1) by (cases bs) auto
    then have run: "append_entry f (q, h) = Inr (q\<lparr>lq_tail := Some ?b, lq_size := lq_size q + 1\<rparr>, ?h2)"
      unfolding first if_not_P [OF \<open>lq_head q \<noteq> None\<close>] using t(2,5) tb by (simp add: st_at_Some)
    have "seg ?h2 (lq_head q) None bs r rv = seg h (lq_head q) None bs r rv"
      by (rule seg_other) (use tb in auto)
    then have "seg ?h2 (lq_head q) None (as @ [?b]) None (Some ?b)"
      unfolding snoc append_assoc using bs t tb by (subst seg_append, intro exI [of _ r] exI [of _ rv]) simp
    then have "log_holds_at (q\<lparr>lq_tail := Some ?b, lq_size := lq_size q + 1\<rparr>, ?h2) (as @ [?b])"
      using d nb by (auto simp: log_holds_at_def)
    moreover have "\<forall>a \<in> set as. item_at ?h2 a = item_at h a"
      using nb t(2) tb(4) by (auto simp: item_at_def item_of_def)
    moreover have "item_at ?h2 ?b = item_of (f (lh_junk h ?b))" by (simp add: item_at_def item_of_def)
    ultimately show ?thesis using run by blast
  qed
qed

lemma append_item_law:
  assumes "log_holds s xs"
  shows "\<exists>s'. append_entry (fill_entry x) s = Inr s' \<and> log_holds s' (xs @ [x])"
proof -
  obtain q h as where s: "s = (q, h)" and as: "log_holds_at (q, h) as" and xs: "xs = map (item_at h) as"
    using assms by (cases s) (auto simp: log_holds_def)
  have "le_next (fill_entry x (lh_junk h (lh_fresh h))) = le_next (lh_junk h (lh_fresh h))"
    "item_of (fill_entry x (lh_junk h (lh_fresh h))) = x"
    by (cases x; simp add: fill_entry_def item_of_def)+
  with append_at [OF as, of "fill_entry x"] obtain q' h' where
    "append_entry (fill_entry x) (q, h) = Inr (q', h')" "log_holds_at (q', h') (as @ [lh_fresh h])"
    "\<forall>a \<in> set as. item_at h' a = item_at h a" "item_at h' (lh_fresh h) = x"
    by auto
  then have "append_entry (fill_entry x) s = Inr (q', h') \<and> log_holds (q', h') (xs @ [x])"
    unfolding log_holds_def s xs by (auto intro!: exI [of _ "as @ [lh_fresh h]"])
  then show ?thesis by blast
qed

text \<open>Unlinking \<open>b\<close> from between \<open>a\<close> and \<open>c\<close>.\<close>

lemma unlink_seg:
  assumes "seg h p pv (as @ a # b # c # cs) q qv" and "distinct (as @ a # b # c # cs)"
  shows "\<exists>ea eb ec. cell h a = Some ea \<and> cell h b = Some eb \<and> cell h c = Some ec \<and>
    le_prev eb = Some a \<and> le_next eb = Some c \<and>
    seg (set_cell c (Some (ec\<lparr>le_prev := Some a\<rparr>)) (set_cell a (Some (ea\<lparr>le_next := Some c\<rparr>)) h))
      p pv (as @ a # c # cs) q qv"
proof -
  obtain r rv where as: "seg h p pv as r rv" and rest: "seg h r rv (a # b # c # cs) q qv"
    using assms(1) unfolding seg_append by blast
  from rest obtain ea eb ec where e: "r = Some a" "cell h a = Some ea" "rv \<noteq> None \<longrightarrow> le_prev ea = rv"
    "cell h b = Some eb" "le_prev eb = Some a" "le_next eb = Some c" "cell h c = Some ec"
    "seg h (le_next ec) (Some c) cs q qv"
    by auto
  note fresh = cell_Some_fresh [OF e(2)] cell_Some_fresh [OF e(4)] cell_Some_fresh [OF e(7)]
  let ?h = "set_cell c (Some (ec\<lparr>le_prev := Some a\<rparr>)) (set_cell a (Some (ea\<lparr>le_next := Some c\<rparr>)) h)"
  have "seg ?h p pv as r rv = seg h p pv as r rv" "seg ?h (le_next ec) (Some c) cs q qv = seg h (le_next ec) (Some c) cs q qv"
    by (rule seg_other; use assms(2) in auto)+
  then have "seg ?h p pv as r rv" "seg ?h r rv (a # c # cs) q qv" using as e assms(2) fresh by auto
  then have "seg ?h p pv (as @ a # c # cs) q qv" unfolding seg_append by blast
  with e show ?thesis by blast
qed

lemma map_eq_split:
  "map f as = x # xs @ y # z # zs \<Longrightarrow> \<exists>a bs b c cs. as = a # bs @ b # c # cs \<and> x = f a \<and> xs = map f bs \<and>
     y = f b \<and> z = f c \<and> zs = map f cs"
  by (auto simp: map_eq_Cons_conv map_eq_append_conv) blast

lemma last_of_front: "\<exists>as a. x # bs = as @ [a]"
  by (metis rev_exhaust list.distinct(1))

lemma drop_item_law:
  assumes "log_holds s (x # xs @ y # z # zs)" and "fst y \<notin> fst ` set (x # xs)"
  shows "\<exists>s'. drop_log_entry (fst y) s = Inr s' \<and> log_holds s' (x # xs @ z # zs)"
proof -
  obtain q h as0 where s: "s = (q, h)" and h0: "log_holds_at (q, h) as0" "map (item_at h) as0 = x # xs @ y # z # zs"
    using assms(1) by (cases s) (auto simp: log_holds_def)
  obtain a0 bs b c cs where as0: "as0 = a0 # bs @ b # c # cs" and it: "x = item_at h a0" "xs = map (item_at h) bs"
    "y = item_at h b" "z = item_at h c" "zs = map (item_at h) cs"
    using map_eq_split [OF h0(2)] by blast
  obtain as a where front: "a0 # bs = as @ [a]" using last_of_front [of a0 bs] by blast
  have shape: "as0 = as @ a # b # c # cs" unfolding as0 using front by (metis Cons_eq_appendI append.assoc append_Cons append_Nil)
  have sg: "seg h (lq_head q) None (as @ a # b # c # cs) None (lq_tail q)"
    and d: "distinct (as @ a # b # c # cs)" "\<forall>x \<in> set (as @ a # b # c # cs). x < lh_fresh h"
    using h0(1) unfolding shape by (simp_all add: log_holds_at_def)
  obtain ea eb ec where e: "cell h a = Some ea" "cell h b = Some eb" "cell h c = Some ec"
    "le_prev eb = Some a" "le_next eb = Some c"
    and sg': "seg (set_cell c (Some (ec\<lparr>le_prev := Some a\<rparr>)) (set_cell a (Some (ea\<lparr>le_next := Some c\<rparr>)) h))
      (lq_head q) None (as @ a # c # cs) None (lq_tail q)"
    using unlink_seg [OF sg d(1)] by blast
  note fresh = cell_Some_fresh [OF e(1)] cell_Some_fresh [OF e(2)] cell_Some_fresh [OF e(3)]
  let ?h = "set_cell c (Some (ec\<lparr>le_prev := Some a\<rparr>)) (set_cell a (Some (ea\<lparr>le_next := Some c\<rparr>)) h)"
  let ?h' = "set_cell b None ?h"
  have "find (\<lambda>x. fst x = fst y) (map (item_at h) (as @ [a])) = None"
    using assms(2) unfolding front [symmetric] it find_None_iff by (simp add: image_iff) (metis fst_conv)
  then have fnd: "find (\<lambda>u. le_index (the (cell h u)) = fst y) (as @ a # b # c # cs) = Some b"
    using it(3) by (simp add: find_append find_map item_at_def item_of_def split: option.splits if_splits)
  have "length (as @ a # b # c # cs) < lh_fresh h + 1" using length_le_bound [OF d] by simp
  from walk_finds [OF sg this, of "fst y"] fnd
  have rem: "remove_entry (fst y) (q, h) = Inr ((q, ?h), Some b)"
    using e d(1) fresh by (simp add: remove_entry_def ld_Some st_at_Some)
  have drop: "drop_log_entry (fst y) s = Inr (q, ?h')"
    using e d(1) by (simp add: drop_log_entry_def s rem free_log_def)
  have "seg ?h' (lq_head q) None (as @ a # c # cs) None (lq_tail q) =
      seg ?h (lq_head q) None (as @ a # c # cs) None (lq_tail q)"
    by (rule seg_other) (use d(1) in auto)
  with sg' have "log_holds_at (q, ?h') (as @ a # c # cs)"
    using d unfolding log_holds_at_def by auto
  moreover have "u \<in> set (as @ a # c # cs) \<Longrightarrow> item_at ?h' u = item_at h u" for u
    using d(1) e fresh by (auto simp: item_at_def item_of_def)
  then have "map (item_at ?h') (as @ a # c # cs) = map (item_at h) (as @ a # c # cs)"
    by (intro map_cong refl) auto
  moreover have "map (item_at h) (as @ a # c # cs) = x # xs @ z # zs"
  proof -
    have "as @ a # c # cs = (a0 # bs) @ c # cs" unfolding front by simp
    then show ?thesis by (simp only: it map_append list.map append_Cons)
  qed
  ultimately have "log_holds (q, ?h') (x # xs @ z # zs)" unfolding log_holds_def by (metis snd_conv)
  with drop show ?thesis by blast
qed

interpretation raft_log: log_store log_holds fst "\<lambda>x. append_entry (fill_entry x)" lookup_item drop_log_entry
proof (unfold_locales, goal_cases)
  case (1 s xs x)
  then show ?case by (rule append_item_law)
next
  case (2 s xs k)
  then show ?case by (rule lookup_item_law)
next
  case (3 s x xs y z zs)
  then show ?case by (rule drop_item_law)
qed

subsection \<open>Where the list operations fault\<close>

lemma st_at_alloc: "cell h a \<noteq> None \<Longrightarrow> \<exists>h'. st_at (Some a) f h = Inr h' \<and> (\<forall>b. cell h b \<noteq> None \<longrightarrow> cell h' b \<noteq> None)"
  by (auto simp: st_at_Some dest: cell_Some_fresh)

lemma st_at_faults: "st_at (Some a) f h = Inl x \<Longrightarrow> x = UseAfterFree"
  by (auto simp: st_at_def ld_def split: option.splits)

lemma when_ptr_result:
  "(\<exists>h'. when_ptr p (st_at p f) h = Inr h' \<and> (\<forall>b. cell h b \<noteq> None \<longrightarrow> cell h' b \<noteq> None)) \<or>
   when_ptr p (st_at p f) h = Inl UseAfterFree"
proof (cases p)
  case None
  then show ?thesis by (simp add: when_ptr_def)
next
  case (Some a)
  show ?thesis
  proof (cases "cell h a")
    case None
    with Some show ?thesis by (simp add: when_ptr_def st_at_def ld_def)
  next
    case (Some e)
    with \<open>p = Some a\<close> st_at_alloc [of h a f] show ?thesis by (auto simp: when_ptr_def)
  qed
qed

definition cleanable :: "u8 \<Rightarrow> u64 \<Rightarrow> log_heap \<Rightarrow> nat \<Rightarrow> bool" where
  "cleanable n c h a \<longleftrightarrow> le_exec_count (the (cell h a)) = n \<and> le_index (the (cell h a)) < c - 1"

lemma cleanup_walk:
  "seg h p pv as None qv \<Longrightarrow> length as < k \<Longrightarrow>
   cleanup_from k n c p h = (if \<exists>a \<in> set as. cleanable n c h a then Inl UseAfterFree else Inr h)"
proof (induction as arbitrary: p pv k)
  case Nil
  then show ?case by (cases k) auto
next
  case (Cons a as)
  obtain m where k: "k = Suc m" using Cons.prems(2) by (cases k) auto
  obtain e where e: "p = Some a" "cell h a = Some e" "seg h (le_next e) (Some a) as None qv"
    using Cons.prems(1) by auto
  show ?case
  proof (cases "cleanable n c h a")
    case False
    then have "cleanup_from k n c p h = cleanup_from m n c (le_next e) h"
      using e by (auto simp: k ld_Some cleanable_def)
    with Cons.IH [OF e(3)] Cons.prems(2) False show ?thesis by (simp add: k)
  next
    case True
    consider (fault) "when_ptr (le_prev e) (st_at (le_prev e) (\<lambda>x. x\<lparr>le_next := le_next e\<rparr>)) h = Inl UseAfterFree"
      | (first) h1 where "when_ptr (le_prev e) (st_at (le_prev e) (\<lambda>x. x\<lparr>le_next := le_next e\<rparr>)) h = Inr h1"
        "cell h1 a \<noteq> None"
      using when_ptr_result [of "le_prev e" "\<lambda>x. x\<lparr>le_next := le_next e\<rparr>" h] e(2) by auto
    then have "cleanup_from k n c p h = Inl UseAfterFree"
    proof cases
      case fault
      with True e show ?thesis by (simp add: k ld_Some cleanable_def)
    next
      case first
      consider (fault2) "when_ptr (le_next e) (st_at (le_next e) (\<lambda>x. x\<lparr>le_prev := le_prev e\<rparr>)) h1 = Inl UseAfterFree"
        | (second) h2 where "when_ptr (le_next e) (st_at (le_next e) (\<lambda>x. x\<lparr>le_prev := le_prev e\<rparr>)) h1 = Inr h2"
          "cell h2 a \<noteq> None"
        using when_ptr_result [of "le_next e" "\<lambda>x. x\<lparr>le_prev := le_prev e\<rparr>" h1] first(2) by auto
      then show ?thesis
      proof cases
        case fault2
        with True e first show ?thesis by (simp add: k ld_Some cleanable_def)
      next
        case second
        then have "free_log p h2 = Inr (set_cell a None h2)" "ld (set_cell a None h2) p = Inl UseAfterFree"
          using e(1) by (simp_all add: free_log_def ld_def)
        with True e first second show ?thesis by (simp add: k ld_Some cleanable_def)
      qed
    qed
    with True show ?thesis by simp
  qed
qed

text \<open>
  The clean-up of the log either finds nothing to clean up and changes nothing, or it frees
  an entry and then reads the freed entry's \<^verbatim>\<open>next\<close> pointer.
\<close>

theorem raft_cleanup_faults:
  assumes "log_holds_at (q, h) as"
  shows "cleanup_queue n c (q, h) =
    (if \<exists>a \<in> set as. cleanable n c h a then Inl UseAfterFree else Inr (q, h))"
proof -
  have seg: "seg h (lq_head q) None as None (lq_tail q)" and d: "distinct as" "\<forall>a \<in> set as. a < lh_fresh h"
    using assms by (auto simp: log_holds_at_def)
  have "length as < lh_fresh h + 1" using length_le_bound [OF d] by simp
  from cleanup_walk [OF seg this] show ?thesis by (simp add: cleanup_queue_def)
qed

text \<open>A log of the entries with indices \<open>0..<n\<close> whose counts are all \<open>k\<close>.\<close>

definition example_log :: "nat \<Rightarrow> u8 \<Rightarrow> log_state" where
  "example_log n k = (case foldr_res (\<lambda>i. append_entry (\<lambda>e. (fill_entry (of_nat i, 1, 0, [0, 0, 0]) e)\<lparr>le_exec_count := k\<rparr>))
     [0..<n] (\<lparr>lq_size = 0, lq_head = None, lq_tail = None\<rparr>,
       \<lparr>lh_cells = [], lh_junk = (\<lambda>_. \<lparr>le_exec_count = 0, le_index = 0, le_term = 0, le_header = 0,
         le_payload = [0, 0, 0], le_next = None, le_prev = None\<rparr>)\<rparr>) of
     Inl _ \<Rightarrow> undefined | Inr s \<Rightarrow> s)"

lemma example_log_3: "log_holds_at (example_log 3 k) [0, 1, 2]"
  "cell (snd (example_log 3 k)) 0 \<noteq> None"
  "cleanable k 3 (snd (example_log 3 k)) 1"
  "map (item_at (snd (example_log 3 k))) [0, 1, 2] =
     [(0, 1, 0, [0, 0, 0]), (1, 1, 0, [0, 0, 0]), (2, 1, 0, [0, 0, 0])]"
  by (simp_all add: example_log_def eval_nat_numeral append_entry_def malloc_entry_def enqueue_log_def
      st_at_def ld_def fill_entry_def log_holds_at_def item_at_def item_of_def cleanable_def
      cell_def lh_fresh_def set_cell_def Let_def)

theorem raft_cleanup_faults_witness:
  "cleanup_queue 3 3 (example_log 3 3) = Inl UseAfterFree"
  using raft_cleanup_faults [of "fst (example_log 3 3)" "snd (example_log 3 3)" "[0, 1, 2]" 3 3]
    example_log_3 [of 3] by auto

lemma remove_last:
  assumes "log_holds s (xs @ [y])" and "xs \<noteq> []" and "fst y \<notin> fst ` set xs"
  shows "remove_entry (fst y) s = Inl NullDeref"
proof -
  obtain q h as0 where s: "s = (q, h)" and h0: "log_holds_at (q, h) as0" "xs @ [y] = map (item_at h) as0"
    using assms(1) by (cases s) (auto simp: log_holds_def)
  obtain as b where as0: "as0 = as @ [b]" "xs = map (item_at h) as" "y = item_at h b"
    using h0(2) by (cases as0 rule: rev_cases) auto
  obtain cs a where as: "as = cs @ [a]" using assms(2) as0(2) by (cases as rule: rev_cases) auto
  have sg: "seg h (lq_head q) None (cs @ [a, b]) None (lq_tail q)"
    and d: "distinct (cs @ [a, b])" "\<forall>x \<in> set (cs @ [a, b]). x < lh_fresh h"
    using h0(1) unfolding as0(1) as by (auto simp: log_holds_at_def)
  obtain r rv where "seg h r rv [a, b] None (lq_tail q)" using sg unfolding seg_append by blast
  then obtain ea eb where e: "cell h a = Some ea" "cell h b = Some eb" "le_prev eb = Some a" "le_next eb = None"
    by auto
  have "find (\<lambda>x. fst x = fst y) xs = None"
    using assms(3) unfolding find_None_iff by (auto simp: image_iff)
  then have fnd: "find (\<lambda>u. le_index (the (cell h u)) = fst y) (cs @ [a, b]) = Some b"
    unfolding as0(2,3) as
    by (simp add: find_append find_map item_at_def item_of_def split: option.splits if_splits)
  have "length (cs @ [a, b]) < lh_fresh h + 1" using length_le_bound [OF d] by simp
  from walk_finds [OF sg this, of "fst y"] fnd show ?thesis
    using e by (simp add: remove_entry_def s ld_Some st_at_Some) (simp add: st_at_def ld_def)
qed

text \<open>
  Removing the last entry of the log, as a conflicting append message makes a follower do,
  dereferences NULL.
\<close>

theorem raft_remove_last_faults:
  assumes "log_holds s (xs @ [y])" and "xs \<noteq> []" and "fst y \<notin> fst ` set xs"
  shows "remove_entry (fst y) s = Inl NullDeref"
  by (rule remove_last [OF assms])

theorem raft_remove_last_faults_witness:
  "remove_entry 2 (example_log 3 0) = Inl NullDeref"
proof -
  have "log_holds (example_log 3 0) ([(0, 1, 0, [0, 0, 0]), (1, 1, 0, [0, 0, 0])] @ [(2, 1, 0, [0, 0, 0])])"
    using example_log_3 [of 0] unfolding log_holds_def by force
  from raft_remove_last_faults [OF this] show ?thesis by simp
qed

text \<open>
  C22: the doubly linked list implements a sequence of entries: appending adds the entry at the
  end and it is found under its index afterwards, as is every entry found before; unlinking
  and freeing an entry between two others takes out exactly that one.
\<close>

theorem raft_log_implements_sequence:
  assumes "log_holds s xs"
  shows "lookup_item i s = Inr (find (\<lambda>x. fst x = i) xs) \<and>
    (\<exists>s'. append_entry (fill_entry x) s = Inr s' \<and> log_holds s' (xs @ [x]) \<and>
      (fst x \<notin> fst ` set xs \<longrightarrow> lookup_item (fst x) s' = Inr (Some x)) \<and>
      (\<forall>k y. lookup_item k s = Inr (Some y) \<longrightarrow> lookup_item k s' = Inr (Some y))) \<and>
    (\<forall>u us y z zs. xs = u # us @ y # z # zs \<longrightarrow> fst y \<notin> fst ` set (u # us) \<longrightarrow>
      (\<exists>s'. drop_log_entry (fst y) s = Inr s' \<and> log_holds s' (u # us @ z # zs)))"
proof -
  obtain s' where s': "append_entry (fill_entry x) s = Inr s'" "log_holds s' (xs @ [x])"
    using raft_log.append_law [OF assms] by blast
  note found = raft_log.lookup_appended [OF assms s'(1)] and kept = raft_log.lookup_kept [OF assms s'(1)]
  show ?thesis
  proof (intro conjI allI impI)
    show "\<exists>s'. append_entry (fill_entry x) s = Inr s' \<and> log_holds s' (xs @ [x]) \<and>
      (fst x \<notin> fst ` set xs \<longrightarrow> lookup_item (fst x) s' = Inr (Some x)) \<and>
      (\<forall>k y. lookup_item k s = Inr (Some y) \<longrightarrow> lookup_item k s' = Inr (Some y))"
      using s' found kept by blast
  next
    fix u us y z zs
    assume "xs = u # us @ y # z # zs" and "fst y \<notin> fst ` set (u # us)"
    with raft_log.drop_law [of s u us y z zs] assms
    show "\<exists>s'. drop_log_entry (fst y) s = Inr s' \<and> log_holds s' (u # us @ z # zs)" by simp
  qed (rule raft_log.lookup_law [OF assms])
qed

theorem raft_log_implements_sequence_witness:
  "lookup_item 2 (example_log 3 0) = Inr (Some (2, 1, 0, [0, 0, 0])) \<and>
   (\<exists>s'. drop_log_entry 1 (example_log 3 0) = Inr s' \<and> log_holds s' [(0, 1, 0, [0, 0, 0]), (2, 1, 0, [0, 0, 0])])"
proof -
  have h: "log_holds (example_log 3 0) [(0, 1, 0, [0, 0, 0]), (1, 1, 0, [0, 0, 0]), (2, 1, 0, [0, 0, 0])]"
    using example_log_3 [of 0] unfolding log_holds_def by force
  note r = raft_log_implements_sequence [OF h, of 2]
  let ?x = "(0, 1, 0, [0, 0, 0]) :: log_item" and ?y = "(1, 1, 0, [0, 0, 0]) :: log_item"
    and ?z = "(2, 1, 0, [0, 0, 0]) :: log_item"
  have "[?x, ?y, ?z] = ?x # [] @ ?y # ?z # []" "fst ?y \<notin> fst ` set (?x # [])" by simp_all
  with r have "\<exists>s'. drop_log_entry (fst ?y) (example_log 3 0) = Inr s' \<and> log_holds s' (?x # [] @ ?z # [])"
    by blast
  with r show ?thesis by simp
qed

end
