(* ===== verification/Raft.thy ===== *)
theory Raft
  imports Network Raft_Log
begin

text \<open>
  The Raft protocol, \<^verbatim>\<open>raft_replica.c\<close>: the leader appends a request to its log, sends it to
  the followers and receives one message from each of them before it goes on; a follower
  appends entries that extend its log and executes what the leader has committed. Elections,
  heartbeats and their handlers are commented out in the source or empty. The leader's
  receives block, and messages are handled in two buffers: the one of the message loop and the
  thread's \<^verbatim>\<open>buf\<close>; the handlers get a pointer to either, and answers to clients always send
  \<^verbatim>\<open>buf\<close>.
\<close>

definition RAFT_APP :: u16 where "RAFT_APP = 3"
definition RAFT_APPR :: u16 where "RAFT_APPR = 4"
definition RAFT_APPE :: u16 where "RAFT_APPE = 5"
definition RAFT_REQV :: u16 where "RAFT_REQV = 6"
definition RAFT_REQVR :: u16 where "RAFT_REQVR = 7"
definition BACKOFF_MAX :: u64 where "BACKOFF_MAX = 150"

lemmas raft_tag_defs [algs] = RAFT_APP_def RAFT_APPR_def RAFT_APPE_def RAFT_REQV_def RAFT_REQVR_def

text \<open>
  The replica. \<open>rf_in\<close> is not a field of the C structure: it is the messages on their way to
  the replica, with their senders, which the receives take from. The structure's
  \<^verbatim>\<open>last_client_request\<close>, the reply counts and \<^verbatim>\<open>previous_entry\<close> are never used.
\<close>

record raft_replica = replica +
  rf_num_requests :: u8
  rf_current_term :: u64
  rf_leader :: u8
  rf_voted_for :: int
  rf_commit :: u64
  rf_applied :: u64
  rf_last_log :: u64
  rf_previous_term :: u64
  rf_queue :: log_queue
  rf_heap :: log_heap
  rf_next_index :: "u64 list"
  rf_match_index :: "u64 list"
  rf_num_votes :: u16
  rf_election_timeout :: bool
  rf_backoff :: u8
  rf_is_leader :: bool
  rf_is_candidate :: bool
  rf_is_follower :: bool
  rf_buf :: msg
  rf_in :: "(nat \<times> msg) list"

type_synonym raft_ctx = "raft_replica ctx"

text \<open>A message pointer: the loop's buffer or \<^verbatim>\<open>buf\<close>. \<open>on\<close> runs a statement on that message.\<close>

datatype msg_buf = Loop | Buf

definition msg_at :: "msg_buf \<Rightarrow> raft_ctx \<Rightarrow> msg" where
  "msg_at b c = (case b of Loop \<Rightarrow> cx_msg c | Buf \<Rightarrow> rf_buf (cx_rep c))"

definition on :: "msg_buf \<Rightarrow> (raft_ctx \<Rightarrow> raft_ctx res) \<Rightarrow> raft_ctx \<Rightarrow> raft_ctx res" where
  "on b f c = (case b of Loop \<Rightarrow> f c
     | Buf \<Rightarrow> bindr (f (c\<lparr>cx_msg := rf_buf (cx_rep c)\<rparr>)) (\<lambda>c'.
         Inr (c'\<lparr>cx_msg := cx_msg c, cx_rep := (cx_rep c')\<lparr>rf_buf := cx_msg c'\<rparr>\<rparr>)))"

definition word_at :: "msg_buf \<Rightarrow> raft_ctx \<Rightarrow> nat \<Rightarrow> u64 res" where
  "word_at b c i = rd (msg_at b c) i"

definition st_raft :: "(raft_replica \<Rightarrow> raft_replica) \<Rightarrow> raft_ctx \<Rightarrow> raft_ctx res" where
  "st_raft f c = Inr (c\<lparr>cx_rep := f (cx_rep c)\<rparr>)"

definition st_log :: "(log_state \<Rightarrow> log_state res) \<Rightarrow> raft_ctx \<Rightarrow> raft_ctx res" where
  "st_log f c = (let r = cx_rep c in bindr (f (rf_queue r, rf_heap r)) (\<lambda>(q, h).
     Inr (c\<lparr>cx_rep := r\<lparr>rf_queue := q, rf_heap := h\<rparr>\<rparr>)))"

definition contains :: "u64 \<Rightarrow> raft_ctx \<Rightarrow> nat option res" where
  "contains i c = queue_contains i (rf_queue (cx_rep c), rf_heap (cx_rep c))"

text \<open>\<^verbatim>\<open>set_request_id(&msg->data[1], term); set_tag(&msg->data[1], id);\<close>\<close>

definition st_term :: "u64 \<Rightarrow> u8 \<Rightarrow> raft_ctx \<Rightarrow> raft_ctx res" where
  "st_term term i c = Inr (c\<lparr>cx_msg := put_tag 1 (ucast i) (put_request_id 1 (ucast term) (cx_msg c))\<rparr>)"

subsection \<open>State updates\<close>

definition execute_raft :: "u64 list \<Rightarrow> raft_ctx \<Rightarrow> raft_ctx res" where
  "execute_raft p c = (case r_exec (cx_rep c) of None \<Rightarrow> Inl NullCall | Some f \<Rightarrow> st_act (Exec f p) c)"

definition update_state :: "u64 \<Rightarrow> u16 \<Rightarrow> raft_ctx \<Rightarrow> raft_ctx res" where
  "update_state term leader =
     st_raft (\<lambda>r. if rf_current_term r < term \<or> rf_is_candidate r
       then r\<lparr>rf_current_term := term, rf_leader := ucast leader, rf_voted_for := -1,
              rf_is_leader := False, rf_is_follower := True, rf_is_candidate := False\<rparr>
       else r)"

text \<open>
  The body of the loop of \<^verbatim>\<open>update_applied_entries\<close>: the next entry is executed; the leader
  answers its client with whatever \<^verbatim>\<open>buf\<close> holds, a follower drops the entry two before.
\<close>

definition apply_entry :: "raft_ctx \<Rightarrow> raft_ctx res" where
  "apply_entry c =
     bindr (st_raft (\<lambda>r. r\<lparr>rf_applied := rf_applied r + 1\<rparr>) c) (\<lambda>c.
     bindr (contains (rf_applied (cx_rep c)) c) (\<lambda>ele.
     bindr (ld (rf_heap (cx_rep c)) ele) (\<lambda>e.
     bindr (execute_raft (le_payload e) c) (\<lambda>c.
       if r_id (cx_rep c) = rf_leader (cx_rep c) then
         do_all [on Buf (st_send_at (r_clients (cx_rep c)) (unat (get_client_id (le_header e)))),
           st_log (\<lambda>(q, h). bindr (st_at ele (\<lambda>e. e\<lparr>le_exec_count := le_exec_count e + 1\<rparr>) h)
             (\<lambda>h. Inr (q, h))),
           st_log (cleanup_queue (r_num_replicas (cx_rep c)) (rf_commit (cx_rep c))),
           st_count] c
       else
         st_when (2 < rf_applied (cx_rep c)) (st_log (drop_log_entry (rf_applied (cx_rep c) - 2))) c))))"

text \<open>The loop runs while \<^verbatim>\<open>last_applied\<close> is below \<^verbatim>\<open>commit_index\<close>, which its body leaves alone.\<close>

fun apply_entries :: "nat \<Rightarrow> raft_ctx \<Rightarrow> raft_ctx res" where
  "apply_entries 0 c = Inr c"
| "apply_entries (Suc n) c = bindr (apply_entry c) (apply_entries n)"

definition update_applied_entries :: "raft_ctx \<Rightarrow> raft_ctx res" where
  "update_applied_entries c =
     apply_entries (unat (rf_commit (cx_rep c)) - unat (rf_applied (cx_rep c))) c"

text \<open>The inner loop sets the commit index as soon as enough matches are counted.\<close>

definition count_matches :: "u64 list \<Rightarrow> nat \<Rightarrow> u64 \<Rightarrow> nat \<Rightarrow> nat \<times> u64 \<Rightarrow> (nat \<times> u64) res" where
  "count_matches match majority to_test j = (\<lambda>(num, commit).
     bindr (rd match j) (\<lambda>m.
       let num = (if to_test \<le> m then num + 1 else num) in
       Inr (num, if majority \<le> num then to_test else commit)))"

definition test_match :: "u64 list \<Rightarrow> nat \<Rightarrow> nat \<Rightarrow> nat \<Rightarrow> u64 \<Rightarrow> u64 res" where
  "test_match match majority n i commit =
     bindr (rd match i) (\<lambda>to_test.
       if commit < to_test then
         bindr (foldr_res (count_matches match majority to_test) [0..<n] (0, commit)) (\<lambda>(num, commit). Inr commit)
       else Inr commit)"

definition new_commit_index :: "u64 list \<Rightarrow> nat \<Rightarrow> u64 \<Rightarrow> u64 res" where
  "new_commit_index match n = foldr_res (test_match match ((n - 1) div 2) n) [0..<n]"

definition update_commit_index_leader :: "raft_ctx \<Rightarrow> raft_ctx res" where
  "update_commit_index_leader c =
     (let r = cx_rep c in
      bindr (new_commit_index (rf_match_index r) (unat (r_num_replicas r)) (rf_commit r)) (\<lambda>i.
        Inr (c\<lparr>cx_rep := r\<lparr>rf_commit := i\<rparr>\<rparr>)))"

subsection \<open>Handlers\<close>

definition handle_setup_raft :: "msg_buf \<Rightarrow> raft_ctx \<Rightarrow> raft_ctx res" where
  "handle_setup_raft b c = on b (st_setup (r_clients (cx_rep c)) (r_num_clients (cx_rep c))) c"

text \<open>A blocking receive: the first message from that sender, or the replica waits for ever.\<close>

fun take_from :: "nat \<Rightarrow> (nat \<times> msg) list \<Rightarrow> (msg \<times> (nat \<times> msg) list) option" where
  "take_from d [] = None"
| "take_from d ((s, m) # ms) = (if s = d then Some (m, ms)
     else map_option (\<lambda>(x, rest). (x, (s, m) # rest)) (take_from d ms))"

definition recv_buf :: "nat \<Rightarrow> raft_ctx \<Rightarrow> raft_ctx res" where
  "recv_buf d c = (case take_from d (rf_in (cx_rep c)) of None \<Rightarrow> Inl Blocked
     | Some (m, rest) \<Rightarrow> Inr (c\<lparr>cx_rep := (cx_rep c)\<lparr>rf_buf := m, rf_in := rest\<rparr>\<rparr>))"

text \<open>The new entry of a request: what its assignments leave of the malloc'ed memory.\<close>

definition request_entry :: "raft_replica \<Rightarrow> msg \<Rightarrow> log_entry \<Rightarrow> log_entry" where
  "request_entry r m e = (fill_entry (rf_last_log r, rf_current_term r, m ! 0, take 3 (drop 4 m)) e)
     \<lparr>le_exec_count := 0\<rparr>"

definition send_append :: "msg_buf \<Rightarrow> nat \<Rightarrow> raft_ctx \<Rightarrow> raft_ctx res" where
  "send_append b i c =
     (let r = cx_rep c in
      if i = unat (rf_leader r) then Inr c
      else on b (do_all [st_term (rf_current_term r) (rf_leader r), st_data 2 (rf_last_log r - 1),
             st_data 3 (rf_commit r), st_send_at (r_replicas r) i]) c)"

definition recv_append :: "(raft_ctx \<Rightarrow> raft_ctx res) \<Rightarrow> nat \<Rightarrow> raft_ctx \<Rightarrow> raft_ctx res" where
  "recv_append handler i c =
     (let r = cx_rep c in
      if i = unat (rf_leader r) then Inr c
      else bindr (rd (r_replicas r) i) (\<lambda>d. bindr (recv_buf (unat d) c) handler))"

text \<open>\<open>handler\<close> is \<^verbatim>\<open>message_handler_raft(buf)\<close>, called for each message received in between.\<close>

definition handle_request_raft ::
    "(raft_ctx \<Rightarrow> raft_ctx res) \<Rightarrow> msg_buf \<Rightarrow> raft_ctx \<Rightarrow> raft_ctx res" where
  "handle_request_raft handler b c =
     (let r = cx_rep c in
      if r_id r = rf_leader r then
        bindr (st_raft (\<lambda>r. r\<lparr>rf_last_log := rf_last_log r + 1\<rparr>) c) (\<lambda>c.
        bindr (st_log (append_entry (request_entry (cx_rep c) (msg_at b c))) c) (\<lambda>c.
          do_all [on b (st_tag RAFT_APP),
            foldr_res (send_append b) [0..<unat (r_num_replicas r)],
            foldr_res (recv_append handler) [0..<unat (r_num_replicas r)],
            st_raft (\<lambda>r. r\<lparr>rf_previous_term := rf_current_term r\<rparr>)] c))
      else on b (st_send_at (r_replicas r) (unat (rf_leader r))) c)"

definition handle_empty_append :: "msg_buf \<Rightarrow> raft_ctx \<Rightarrow> raft_ctx res" where
  "handle_empty_append b c =
     bindr (word_at b c 1) (\<lambda>i.
       do_all [st_when (rf_commit (cx_rep c) \<le> i)
           (do_all [st_raft (\<lambda>r. r\<lparr>rf_commit := min i (rf_last_log r)\<rparr>), update_applied_entries]),
         st_raft (\<lambda>r. r\<lparr>rf_election_timeout := False\<rparr>)] c)"

definition answer_append :: "msg_buf \<Rightarrow> u8 \<Rightarrow> u64 \<Rightarrow> bool \<Rightarrow> raft_ctx \<Rightarrow> raft_ctx res" where
  "answer_append b leader i ok c =
     (let r = cx_rep c in
      on b (do_all [st_data 1 (rf_current_term r), st_data 2 i, st_data 3 (ucast (r_id r)),
        st_data 4 (if ok then 1 else 0), st_send_at (r_replicas r) (unat leader)]) c)"

text \<open>\<^verbatim>\<open>while (remove_entry(&replica.queue, entry_index) != NULL) entry_index++;\<close>\<close>

fun remove_from :: "nat \<Rightarrow> u64 \<Rightarrow> log_state \<Rightarrow> log_state res" where
  "remove_from 0 i s = Inl Blocked"
| "remove_from (Suc n) i s = bindr (remove_entry i s) (\<lambda>(s, p).
     if p = None then Inr s else remove_from n (i + 1) s)"

definition append_new :: "msg_buf \<Rightarrow> u64 \<Rightarrow> u64 \<Rightarrow> u64 \<Rightarrow> u8 \<Rightarrow> raft_ctx \<Rightarrow> raft_ctx res" where
  "append_new b term prev commit leader c =
     (let m = msg_at b c in
      do_all [st_log (append_entry (fill_entry (prev + 1, term, m ! 0, take 3 (drop 4 m)))),
        st_raft (\<lambda>r. r\<lparr>rf_last_log := prev + 1\<rparr>),
        st_raft (\<lambda>r. if rf_commit r < commit then r\<lparr>rf_commit := min commit (rf_last_log r)\<rparr> else r),
        answer_append b leader (prev + 1) True] c)"

definition handle_append :: "msg_buf \<Rightarrow> raft_ctx \<Rightarrow> raft_ctx res" where
  "handle_append b c =
     bindr (st_raft (\<lambda>r. r\<lparr>rf_election_timeout := False\<rparr>) c) (\<lambda>c.
     bindr (word_at b c 1) (\<lambda>w.
     bindr (word_at b c 2) (\<lambda>prev.
     bindr (word_at b c 3) (\<lambda>commit.
     let term = (ucast (get_request_id w) :: u64); leader = (ucast (get_tag w) :: u8) in
     bindr (update_state term (ucast leader) c) (\<lambda>c.
       if r_id (cx_rep c) \<noteq> leader then
         bindr (on b (st_tag RAFT_APPR) c) (\<lambda>c.
           if term < rf_current_term (cx_rep c) then answer_append b leader prev False c
           else
             bindr (contains prev c) (\<lambda>p.
               if p = None then answer_append b leader prev False c
               else
                 bindr (contains (prev + 1) c) (\<lambda>p'.
                   do_all [st_when (p' \<noteq> None)
                       (st_log (\<lambda>(q, h). remove_from (lh_fresh h + 1) (prev + 1) (q, h))),
                     append_new b term prev commit leader, update_applied_entries] c)))
       else do_all [st_print ''Leader should not receive appendEntry requests'',
              update_applied_entries] c)))))"

definition handle_vote :: "raft_ctx \<Rightarrow> raft_ctx res" where "handle_vote c = Inr c"

definition handle_vote_response :: "raft_ctx \<Rightarrow> raft_ctx res" where "handle_vote_response c = Inr c"

definition resend_entry :: "msg_buf \<Rightarrow> u8 \<Rightarrow> u64 \<Rightarrow> nat option \<Rightarrow> raft_ctx \<Rightarrow> raft_ctx res" where
  "resend_entry b rid last_index ele c =
     (let r = cx_rep c in
      bindr (do_all [st_print ''Resending to'', st_print ''Log index'',
        on b (do_all [st_tag RAFT_APP, st_term (rf_current_term r) (r_id r)])] c) (\<lambda>c.
      bindr (ld (rf_heap r) ele) (\<lambda>e.
        if le_next e = None then Inl AssertFail
        else
          bindr (ld (rf_heap r) (le_next e)) (\<lambda>e.
            on b (do_all [st_data 2 last_index, st_data 3 (rf_commit r),
              foldr_res (\<lambda>j c. bindr (rd (le_payload e) j) (\<lambda>v. st_data (4 + j) v c)) [0..<3],
              st_send_at (r_replicas r) (unat rid)]) c))))"

text \<open>
  In the last branch the assertion \<^verbatim>\<open>ele != NULL\<close> is always false, for \<^verbatim>\<open>ele\<close> is only assigned
  in the other one; the statements behind it are not reached.
\<close>

definition handle_append_response :: "msg_buf \<Rightarrow> raft_ctx \<Rightarrow> raft_ctx res" where
  "handle_append_response b c =
     bindr (word_at b c 1) (\<lambda>w.
     bindr (word_at b c 2) (\<lambda>last_index.
     bindr (word_at b c 3) (\<lambda>w3.
     bindr (word_at b c 4) (\<lambda>w4.
     let term = (ucast (ucast w :: u32) :: u64); rid = (ucast w3 :: u8) in
     bindr (update_state term (ucast (rf_leader (cx_rep c))) c) (\<lambda>c.
       if w4 \<noteq> 0 then
         bindr (wr (rf_next_index (cx_rep c)) (unat rid) (last_index + 1)) (\<lambda>ni.
         bindr (wr (rf_match_index (cx_rep c)) (unat rid) last_index) (\<lambda>mi.
         bindr (st_raft (\<lambda>r. r\<lparr>rf_next_index := ni, rf_match_index := mi\<rparr>) c) (\<lambda>c.
         bindr (contains last_index c) (\<lambda>ele.
         bindr (do_all [st_log (\<lambda>(q, h).
                  bindr (st_at ele (\<lambda>e. e\<lparr>le_exec_count := le_exec_count e + 1\<rparr>) h) (\<lambda>h. Inr (q, h))),
                update_commit_index_leader] c) (\<lambda>c.
         do_all [st_when (ni ! unat rid \<le> rf_last_log (cx_rep c)) (resend_entry b rid last_index ele),
           update_applied_entries] c)))))
       else
         bindr (rd (rf_match_index (cx_rep c)) (unat rid)) (\<lambda>mi.
           if last_index < mi then Inr c
           else
             bindr (wr (rf_next_index (cx_rep c)) (unat rid) (last_index - 1)) (\<lambda>ni. Inl AssertFail)))))))"

definition dispatch_raft ::
    "(raft_ctx \<Rightarrow> raft_ctx res) \<Rightarrow> msg_buf \<Rightarrow> raft_ctx \<Rightarrow> raft_ctx res" where
  "dispatch_raft handler b c =
     (let t = msg_tag (msg_at b c) in
      if t = SETUP_TAG then handle_setup_raft b c
      else if t = REQ_TAG then handle_request_raft handler b c
      else if t = RAFT_APP then handle_append b c
      else if t = RAFT_APPE then handle_empty_append b c
      else if t = RAFT_APPR then handle_append_response b c
      else if t = RAFT_REQV then handle_vote c
      else if t = RAFT_REQVR then handle_vote_response c
      else st_print ''unknown type in queue'' c)"

text \<open>
  \<^verbatim>\<open>message_handler_raft\<close> calls itself through \<^verbatim>\<open>handle_request\<close>. Each nested call handles a
  message that was received before it, so as many levels as messages are on their way
  are enough.
\<close>

fun message_handler_raft :: "nat \<Rightarrow> msg_buf \<Rightarrow> raft_ctx \<Rightarrow> raft_ctx res" where
  "message_handler_raft 0 b = dispatch_raft (\<lambda>c. Inl Blocked) b"
| "message_handler_raft (Suc n) b = dispatch_raft (message_handler_raft n Buf) b"

definition handle_message_raft :: "raft_ctx \<Rightarrow> raft_ctx res" where
  "handle_message_raft c = message_handler_raft (length (rf_in (cx_rep c))) Loop c"

subsection \<open>The message loops\<close>

definition all_cores_raft :: "raft_replica \<Rightarrow> u8 list res" where
  "all_cores_raft r =
     bindr (mapr (rd (r_replicas r)) [0..<unat (r_num_replicas r)]) (\<lambda>xs.
     bindr (mapr (\<lambda>i. rd (r_clients r) (i - unat (r_num_replicas r)))
              [unat (r_num_replicas r)..<unat (r_num_replicas r) + unat (r_num_clients r)]) (\<lambda>ys.
       Inr (xs @ ys)))"

text \<open>\<^verbatim>\<open>if (smlt_can_recv(core)) { smlt_recv(core, message); message_handler_raft(message); }\<close>\<close>

definition poll_raft :: "nat \<Rightarrow> raft_ctx \<Rightarrow> raft_ctx res" where
  "poll_raft core c = (case take_from core (rf_in (cx_rep c)) of None \<Rightarrow> Inr c
     | Some (m, rest) \<Rightarrow>
         handle_message_raft (c\<lparr>cx_msg := m, cx_rep := (cx_rep c)\<lparr>rf_in := rest\<rparr>\<rparr>))"

definition leader_loop_raft :: "u8 list \<Rightarrow> nat \<times> raft_ctx \<Rightarrow> (nat \<times> raft_ctx) res" where
  "leader_loop_raft all_cores = (\<lambda>(j, c).
     let n = unat (r_num_replicas (cx_rep c)) + unat (r_num_clients (cx_rep c)) in
     bindr (rd all_cores j) (\<lambda>core.
     bindr (poll_raft (unat core) c) (\<lambda>c.
       if n = 0 then Inl DivByZero else Inr ((j + 1) mod n, c))))"

definition follower_loop_raft :: "raft_ctx \<Rightarrow> raft_ctx res" where
  "follower_loop_raft c =
     bindr (rd (r_replicas (cx_rep c)) (unat (rf_leader (cx_rep c)))) (\<lambda>core. poll_raft (unat core) c)"

subsection \<open>Initialisation\<close>

definition set_execution_fn_raft :: "exec_fn option \<Rightarrow> raft_replica \<Rightarrow> raft_replica" where
  "set_execution_fn_raft f r = r\<lparr>r_exec := f\<rparr>"

definition default_exec_fn_raft :: "'m \<Rightarrow> 'm" where
  "default_exec_fn_raft addr = addr"

text \<open>The first entry: only its index and term are set.\<close>

definition init_entry :: "log_entry \<Rightarrow> log_entry" where
  "init_entry e = e\<lparr>le_index := 0, le_term := 1\<rparr>"

text \<open>\<open>tsc\<close> is the time stamp counter; \<^verbatim>\<open>cores\<close> is not used.\<close>

definition init_replica_raft ::
    "u8 \<Rightarrow> u8 \<Rightarrow> u8 \<Rightarrow> u8 \<Rightarrow> u64 \<Rightarrow> u8 \<Rightarrow> u8 \<Rightarrow> u8 \<Rightarrow> u8 \<Rightarrow> u8 list \<Rightarrow> u8 list \<Rightarrow> u8 list \<Rightarrow>
     exec_fn option \<Rightarrow> u64 \<Rightarrow> raft_replica \<Rightarrow> (raft_replica \<times> bool) res" where
  "init_replica_raft i core num_clients num_replicas num_requests level alg_below node_size started_from
       cores clients replicas f tsc r =
     (let r = r\<lparr>r_id := i, rf_current_term := 1, rf_leader := 0, rf_commit := 0, rf_applied := 0,
            r_num_clients := num_clients, r_num_replicas := num_replicas,
            rf_num_requests := ucast num_requests, r_clients := clients, r_replicas := replicas,
            r_node_size := node_size, r_level := level, r_alg_below := alg_below,
            r_started_from := started_from, r_current_core := core, rf_last_log := 0,
            rf_num_votes := 0, rf_voted_for := -1, rf_backoff := ucast (tsc mod BACKOFF_MAX)\<rparr> in
      bindr (foldr_res (\<lambda>j xs. wr xs j 2) [0..<unat num_replicas] (rf_next_index r)) (\<lambda>ni.
      bindr (foldr_res (\<lambda>j xs. wr xs j 0) [0..<unat num_replicas] (rf_match_index r)) (\<lambda>mi.
      bindr (append_entry init_entry (log_queue_init (rf_queue r), rf_heap r)) (\<lambda>(q, h).
      let r = r\<lparr>rf_next_index := ni, rf_match_index := mi, rf_queue := q, rf_heap := h,
            r_exec := Some (choose_exec f)\<rparr>;
          r = (if i = rf_leader r
               then r\<lparr>rf_is_leader := True, rf_is_follower := False, rf_is_candidate := False\<rparr>
               else r\<lparr>rf_is_leader := False, rf_is_follower := True, rf_is_candidate := False\<rparr>) in
      Inr (r, i = 0 \<and> level = NODE_LEVEL)))))"

definition zero_raft :: "(nat \<Rightarrow> log_entry) \<Rightarrow> raft_replica" where
  "zero_raft junk = replica.extend zero_replica (raft_replica.fields 0 0 0 0 0 0 0 0
     \<lparr>lq_size = 0, lq_head = None, lq_tail = None\<rparr>
     \<lparr>lh_cells = [], lh_junk = junk\<rparr>
     (replicate 64 0) (replicate 64 0) 0 False 0 False False False (replicate 7 0) [])"

subsection \<open>Throughput results\<close>

definition print_results_raft :: "'d fops \<Rightarrow> raft_replica \<Rightarrow> 'd results \<Rightarrow> 'd results res" where
  "print_results_raft F rep =
     results_table_with F (''algo_below '' @ dec (unat (r_alg_below rep)) @ '' num_clients '' @
         dec (unat (r_num_clients rep)))
       (''results/tp_raft_below_'' @ dec (unat (r_alg_below rep)) @ ''_num_'' @
         dec (unat (r_num_replicas rep)) @ ''_numc_'' @ dec (unat (r_num_clients rep)))"

definition results_raft ::
    "'d fops \<Rightarrow> raft_replica \<Rightarrow> u64 list \<Rightarrow> 'd results \<times> measure \<Rightarrow> ('d results \<times> u64 list) res" where
  "results_raft F rep = results_loop F (print_results_raft F rep)"

subsection \<open>The commit rule\<close>

definition matches :: "u64 list \<Rightarrow> nat \<Rightarrow> u64 \<Rightarrow> nat" where
  "matches match n i = card {j. j < n \<and> i \<le> match ! j}"

lemma matches_Suc: "matches match (Suc n) i = matches match n i + (if i \<le> match ! n then 1 else 0)"
proof -
  have "{j. j < Suc n \<and> i \<le> match ! j} = (if i \<le> match ! n then insert n {j. j < n \<and> i \<le> match ! j}
      else {j. j < n \<and> i \<le> match ! j})"
    by (auto simp: less_Suc_eq)
  then show ?thesis by (simp add: matches_def)
qed

lemma matches_filter [code]: "matches match n i = length (filter (\<lambda>j. i \<le> match ! j) [0..<n])"
proof -
  have "{j. j < n \<and> i \<le> match ! j} = set (filter (\<lambda>j. i \<le> match ! j) [0..<n])" by auto
  then show ?thesis unfolding matches_def by (simp add: distinct_card del: set_filter)
qed

lemma matches_mono: "k \<le> n \<Longrightarrow> matches match k i \<le> matches match n i"
  unfolding matches_def by (intro card_mono) auto

lemma count_matches_loop:
  "n \<le> length match \<Longrightarrow> foldr_res (count_matches match maj t) [0..<n] (0, c) =
     Inr (matches match n t, if 0 < n \<and> maj \<le> matches match n t then t else c)"
proof (induction n)
  case 0
  then show ?case by (simp add: matches_def)
next
  case (Suc n)
  moreover have "matches match n t \<le> matches match (Suc n) t" by (rule matches_mono) simp
  ultimately show ?case
    by (auto simp: foldr_res_snoc count_matches_def matches_Suc Let_def split: if_splits)
qed

lemma test_match_eq:
  "k < n \<Longrightarrow> n \<le> length match \<Longrightarrow> test_match match maj n k c =
     Inr (if c < match ! k \<and> maj \<le> matches match n (match ! k) then match ! k else c)"
  by (simp add: test_match_def count_matches_loop)

text \<open>The new index is the greatest matched one that enough replicas have reached.\<close>

lemma new_commit_prefix:
  assumes "n \<le> length match" and "k \<le> n"
  shows "\<exists>x. foldr_res (test_match match maj n) [0..<k] c = Inr x \<and> c \<le> x \<and>
    (x = c \<or> (\<exists>j < k. match ! j = x) \<and> maj \<le> matches match n x) \<and>
    (\<forall>j < k. maj \<le> matches match n (match ! j) \<longrightarrow> match ! j \<le> x)"
  using assms(2)
proof (induction k)
  case 0
  then show ?case by simp
next
  case (Suc k)
  then obtain x where x: "foldr_res (test_match match maj n) [0..<k] c = Inr x" "c \<le> x"
    "x = c \<or> (\<exists>j < k. match ! j = x) \<and> maj \<le> matches match n x"
    "\<forall>j < k. maj \<le> matches match n (match ! j) \<longrightarrow> match ! j \<le> x"
    by auto
  let ?y = "if x < match ! k \<and> maj \<le> matches match n (match ! k) then match ! k else x"
  have "foldr_res (test_match match maj n) [0..<Suc k] c = Inr ?y"
    using x(1) Suc.prems assms(1) unfolding upt_Suc_append [OF le0] foldr_res_snoc by (simp add: test_match_eq)
  moreover have "c \<le> ?y" using x(2) by auto
  moreover have "?y = c \<or> (\<exists>j < Suc k. match ! j = ?y) \<and> maj \<le> matches match n ?y"
    using x(3) by (auto simp: less_Suc_eq)
  moreover have "\<forall>j < Suc k. maj \<le> matches match n (match ! j) \<longrightarrow> match ! j \<le> ?y"
    using x(4) by (auto simp: less_Suc_eq intro: order_trans)
  ultimately show ?case by blast
qed

text \<open>
  C19: the leader's commit index never decreases, only takes the index some replica has reported
  and that at least \<open>(n - 1) div 2\<close> replicas have reached, and is not below any such index.
\<close>

theorem raft_commit_rule:
  assumes "unat (r_num_replicas (cx_rep c)) \<le> length (rf_match_index (cx_rep c))"
  shows "\<exists>c'. update_commit_index_leader c = Inr c' \<and>
    (let n = unat (r_num_replicas (cx_rep c)); reached = matches (rf_match_index (cx_rep c)) n;
         x = rf_commit (cx_rep c') in
     cx_rep c' = (cx_rep c)\<lparr>rf_commit := x\<rparr> \<and> rf_commit (cx_rep c) \<le> x \<and>
     (x = rf_commit (cx_rep c) \<or> x \<in> set (take n (rf_match_index (cx_rep c))) \<and> (n - 1) div 2 \<le> reached x) \<and>
     (\<forall>j < n. (n - 1) div 2 \<le> reached (rf_match_index (cx_rep c) ! j) \<longrightarrow> rf_match_index (cx_rep c) ! j \<le> x))"
proof -
  let ?n = "unat (r_num_replicas (cx_rep c))" and ?m = "rf_match_index (cx_rep c)"
  obtain x where x: "foldr_res (test_match ?m ((?n - 1) div 2) ?n) [0..<?n] (rf_commit (cx_rep c)) = Inr x"
    "rf_commit (cx_rep c) \<le> x"
    "x = rf_commit (cx_rep c) \<or> (\<exists>j < ?n. ?m ! j = x) \<and> (?n - 1) div 2 \<le> matches ?m ?n x"
    "\<forall>j < ?n. (?n - 1) div 2 \<le> matches ?m ?n (?m ! j) \<longrightarrow> ?m ! j \<le> x"
    using new_commit_prefix [OF assms order_refl] by blast
  then have "update_commit_index_leader c = Inr (c\<lparr>cx_rep := (cx_rep c)\<lparr>rf_commit := x\<rparr>\<rparr>)"
    by (simp add: update_commit_index_leader_def new_commit_index_def Let_def)
  moreover have "(\<exists>j < ?n. ?m ! j = x) \<longrightarrow> x \<in> set (take ?n ?m)"
    using assms by (auto simp: in_set_conv_nth)
  ultimately show ?thesis using x(2-4) unfolding Let_def
    by (intro exI [of _ "c\<lparr>cx_rep := (cx_rep c)\<lparr>rf_commit := x\<rparr>\<rparr>"]) auto
qed

definition raft_junk :: "nat \<Rightarrow> log_entry" where
  "raft_junk a = \<lparr>le_exec_count = 0, le_index = 0, le_term = 0, le_header = 0, le_payload = [0, 0, 0],
     le_next = None, le_prev = None\<rparr>"

text \<open>A leader and followers of \<open>n\<close> replicas on cores \<open>0..<n\<close>, with one client on core 9.\<close>

definition example_raft :: "nat \<Rightarrow> nat \<Rightarrow> raft_ctx" where
  "example_raft n i = start_ctx (case init_replica_raft (of_nat i) (of_nat i) 1 (of_nat n) 0 NODE_LEVEL ALG_NONE 1 0 []
      [9] (map of_nat [0..<n]) None 0 (zero_raft raft_junk) of
      Inl _ \<Rightarrow> zero_raft raft_junk | Inr (r, _) \<Rightarrow> r) zero_layer"

theorem raft_commit_rule_witness:
  "\<exists>c'. update_commit_index_leader ((example_raft 3 0)\<lparr>cx_rep := (cx_rep (example_raft 3 0))
      \<lparr>rf_match_index := [0, 1, 0]\<rparr>\<rparr>) = Inr c' \<and> 1 \<le> rf_commit (cx_rep c')"
proof -
  let ?c = "(example_raft 3 0)\<lparr>cx_rep := (cx_rep (example_raft 3 0))\<lparr>rf_match_index := [0, 1, 0]\<rparr>\<rparr>"
  have n: "unat (r_num_replicas (cx_rep ?c)) = 3" by code_simp
  have m: "rf_match_index (cx_rep ?c) = [0, 1, 0]" by simp
  have "1 < (3 :: nat)" "(3 - 1) div 2 \<le> matches [0, 1, 0] 3 (([0, 1, 0] :: u64 list) ! 1)"
    by code_simp+
  moreover obtain c' where "update_commit_index_leader ?c = Inr c'"
    "\<forall>j < 3. (3 - 1) div 2 \<le> matches [0, 1, 0] 3 (([0, 1, 0] :: u64 list) ! j) \<longrightarrow> [0, 1, 0] ! j \<le> rf_commit (cx_rep c')"
    using raft_commit_rule [of ?c] unfolding Let_def n m by (auto simp del: nth_Cons_numeral)
  moreover have "([0, 1, 0] :: u64 list) ! 1 = 1" by simp
  ultimately show ?thesis by metis
qed

text \<open>
  With an even number of replicas the rule commits without a majority: when exactly
  \<open>(n - 1) div 2\<close> followers have reported an entry, they and the leader are at most half of
  the replicas, and the leader commits it.
\<close>

theorem raft_commits_without_majority:
  assumes "unat (r_num_replicas (cx_rep c)) \<le> length (rf_match_index (cx_rep c))"
    and "even (unat (r_num_replicas (cx_rep c)))" and "j < unat (r_num_replicas (cx_rep c))"
    and "rf_commit (cx_rep c) < rf_match_index (cx_rep c) ! j"
    and "matches (rf_match_index (cx_rep c)) (unat (r_num_replicas (cx_rep c))) (rf_match_index (cx_rep c) ! j) =
      (unat (r_num_replicas (cx_rep c)) - 1) div 2"
  shows "\<exists>c'. update_commit_index_leader c = Inr c' \<and>
    rf_match_index (cx_rep c) ! j \<le> rf_commit (cx_rep c') \<and> rf_commit (cx_rep c) < rf_commit (cx_rep c') \<and>
    2 * (matches (rf_match_index (cx_rep c)) (unat (r_num_replicas (cx_rep c))) (rf_match_index (cx_rep c) ! j) + 1)
      \<le> unat (r_num_replicas (cx_rep c))"
proof -
  let ?n = "unat (r_num_replicas (cx_rep c))" and ?m = "rf_match_index (cx_rep c)"
  obtain x where x: "foldr_res (test_match ?m ((?n - 1) div 2) ?n) [0..<?n] (rf_commit (cx_rep c)) = Inr x"
    "\<forall>j < ?n. (?n - 1) div 2 \<le> matches ?m ?n (?m ! j) \<longrightarrow> ?m ! j \<le> x"
    using new_commit_prefix [OF assms(1) order_refl] by blast
  then have "update_commit_index_leader c = Inr (c\<lparr>cx_rep := (cx_rep c)\<lparr>rf_commit := x\<rparr>\<rparr>)"
    by (simp add: update_commit_index_leader_def new_commit_index_def Let_def)
  moreover have "?m ! j \<le> x" using x(2) assms(3,5) by simp
  moreover have "2 * ((?n - 1) div 2 + 1) \<le> ?n" using assms(2,3) by presburger
  ultimately show ?thesis using assms(4,5)
    by (intro exI [of _ "c\<lparr>cx_rep := (cx_rep c)\<lparr>rf_commit := x\<rparr>\<rparr>"]) (auto intro: less_le_trans)
qed

theorem raft_commits_without_majority_witness:
  "\<exists>c'. update_commit_index_leader ((example_raft 4 0)\<lparr>cx_rep := (cx_rep (example_raft 4 0))
      \<lparr>rf_match_index := [0, 1, 0, 0]\<rparr>\<rparr>) = Inr c' \<and> 1 \<le> rf_commit (cx_rep c')"
proof -
  let ?c = "(example_raft 4 0)\<lparr>cx_rep := (cx_rep (example_raft 4 0))\<lparr>rf_match_index := [0, 1, 0, 0]\<rparr>\<rparr>"
  have n: "unat (r_num_replicas (cx_rep ?c)) = 4" "rf_commit (cx_rep ?c) = 0" by code_simp+
  have m: "rf_match_index (cx_rep ?c) = [0, 1, 0, 0]" by simp
  have "matches [0, 1, 0, 0] 4 (([0, 1, 0, 0] :: u64 list) ! 1) = (4 - 1) div 2"
    by code_simp
  with raft_commits_without_majority [of ?c 1] show ?thesis unfolding n m by force
qed

subsection \<open>A leader at work\<close>

lemma count_kept:
  assumes "log_holds_at (q, h) as" and "cell h p = Some e"
  shows "log_holds_at (q, set_cell p (Some (e\<lparr>le_exec_count := k\<rparr>)) h) as"
proof -
  let ?h = "set_cell p (Some (e\<lparr>le_exec_count := k\<rparr>)) h"
  have "seg ?h r pv as s qv = seg h r pv as s qv" for r pv s qv
    using cell_Some_fresh [OF assms(2)] assms(2) by (induction as arbitrary: r pv) auto
  with assms(1) show ?thesis by (simp add: log_holds_at_def)
qed

text \<open>
  C38: the step in which a leader applies its next committed entry, for any well-formed log. The entry
  at \<open>p\<close>, the first with that index, is executed, its client is sent what \<^verbatim>\<open>buf\<close> holds, and
  its count grows. When the log now holds any entry that as many replicas as there are have counted and whose
  index is below \<^verbatim>\<open>commit_index-1\<close>, which are the entries the clean-up is to remove, the clean-up
  frees one and then reads its \<^verbatim>\<open>next\<close> pointer; otherwise nothing else changes. So the clean-up never
  succeeds in removing an entry.
\<close>

theorem raft_leader_cleanup_use_after_free:
  assumes "r_id (cx_rep c) = rf_leader (cx_rep c)" and "r_exec (cx_rep c) = Some f"
    and "log_holds_at (rf_queue (cx_rep c), rf_heap (cx_rep c)) as"
    and "find (\<lambda>a. le_index (the (cell (rf_heap (cx_rep c)) a)) = rf_applied (cx_rep c) + 1) as = Some p"
    and "cell (rf_heap (cx_rep c)) p = Some e" and "unat (get_client_id (le_header e)) < length (r_clients (cx_rep c))"
  shows "apply_entry c =
    (let r = cx_rep c; h = set_cell p (Some (e\<lparr>le_exec_count := le_exec_count e + 1\<rparr>)) (rf_heap r) in
     if \<exists>a \<in> set as. le_exec_count (the (cell h a)) = r_num_replicas r \<and> le_index (the (cell h a)) < rf_commit r - 1
     then Inl UseAfterFree
     else Inr (c\<lparr>cx_rep := r\<lparr>rf_applied := rf_applied r + 1, rf_heap := h\<rparr>,
       cx_acts := cx_acts c @ [Exec f (le_payload e),
         Send (unat (r_clients r ! unat (get_client_id (le_header e)))) (rf_buf r)],
       cx_meas := (cx_meas c)\<lparr>m_num_reqs := m_num_reqs (cx_meas c) + 1\<rparr>\<rparr>))"
proof -
  let ?r = "cx_rep c" and ?k = "unat (get_client_id (le_header e))"
  let ?h = "set_cell p (Some (e\<lparr>le_exec_count := le_exec_count e + 1\<rparr>)) (rf_heap ?r)"
  have seg: "seg (rf_heap ?r) (lq_head (rf_queue ?r)) None as None (lq_tail (rf_queue ?r))"
    and d: "distinct as" "\<forall>a \<in> set as. a < lh_fresh (rf_heap ?r)"
    using assms(3) by (auto simp: log_holds_at_def)
  have "length as < lh_fresh (rf_heap ?r) + 1" using length_le_bound [OF d] by simp
  from walk_finds [OF seg this, of "rf_applied ?r + 1"] assms(4)
  have found: "queue_contains (rf_applied ?r + 1) (rf_queue ?r, rf_heap ?r) = Inr (Some p)"
    by (simp add: queue_contains_def)
  note clean = raft_cleanup_faults [OF count_kept [OF assms(3,5), of "le_exec_count e + 1"],
      of "r_num_replicas ?r" "rf_commit ?r", unfolded cleanable_def]
  define b where "b \<longleftrightarrow> (\<exists>a \<in> set as. le_exec_count (the (cell ?h a)) = r_num_replicas ?r \<and>
    le_index (the (cell ?h a)) < rf_commit ?r - 1)"
  have "cleanup_queue (r_num_replicas ?r) (rf_commit ?r) (rf_queue ?r, ?h) =
      (if b then Inl UseAfterFree else Inr (rf_queue ?r, ?h))"
    using clean unfolding b_def by simp
  then show ?thesis
    unfolding Let_def b_def [symmetric] using assms(1,2,5,6) found
    by (simp add: apply_entry_def st_raft_def contains_def ld_Some execute_raft_def on_def stmts
        st_log_def Let_def st_at_Some)
qed

text \<open>A leader of three replicas with the entries 0, 1 and 2, each counted twice; the next entry to apply is 1.\<close>

definition example_counted :: "u64 \<Rightarrow> raft_ctx" where
  "example_counted commit = (example_raft 3 0)\<lparr>cx_rep := (cx_rep (example_raft 3 0))
     \<lparr>rf_queue := fst (example_log 3 2), rf_heap := snd (example_log 3 2), rf_commit := commit\<rparr>\<rparr>"

lemma example_counted_facts:
  "r_id (cx_rep (example_counted k)) = 0" "rf_leader (cx_rep (example_counted k)) = 0"
  "r_exec (cx_rep (example_counted k)) = Some Default_exec_fn" "r_clients (cx_rep (example_counted k)) = [9]"
  "rf_applied (cx_rep (example_counted k)) = 0" "r_num_replicas (cx_rep (example_counted k)) = 3"
  "cx_acts (example_counted k) = []"
proof -
  have "r_id (cx_rep (example_raft 3 0)) = 0" "rf_leader (cx_rep (example_raft 3 0)) = 0"
    "r_exec (cx_rep (example_raft 3 0)) = Some Default_exec_fn" "r_clients (cx_rep (example_raft 3 0)) = [9]"
    "rf_applied (cx_rep (example_raft 3 0)) = 0" "r_num_replicas (cx_rep (example_raft 3 0)) = 3"
    "cx_acts (example_raft 3 0) = []" by code_simp+
  then show "r_id (cx_rep (example_counted k)) = 0" "rf_leader (cx_rep (example_counted k)) = 0"
    "r_exec (cx_rep (example_counted k)) = Some Default_exec_fn" "r_clients (cx_rep (example_counted k)) = [9]"
    "rf_applied (cx_rep (example_counted k)) = 0" "r_num_replicas (cx_rep (example_counted k)) = 3"
    "cx_acts (example_counted k) = []"
    by (simp_all add: example_counted_def)
qed

theorem raft_leader_cleanup_use_after_free_witness:
  "apply_entry (example_counted 3) = Inl UseAfterFree \<and>
   (\<exists>c'. apply_entry (example_counted 2) = Inr c' \<and> execs (cx_acts c') = [[0, 0, 0]])"
proof -
  let ?h = "snd (example_log 3 2)"
  obtain e where e: "cell ?h 1 = Some e" "le_header e = 0" "le_payload e = [0, 0, 0]" "le_index e = 1" "le_exec_count e = 2"
    by (simp add: example_log_def eval_nat_numeral append_entry_def malloc_entry_def enqueue_log_def
        st_at_def ld_def fill_entry_def cell_def lh_fresh_def set_cell_def Let_def)
  have others: "le_index (the (cell ?h 0)) = 0" "le_exec_count (the (cell ?h 0)) = 2"
    "le_index (the (cell ?h 2)) = 2" "le_exec_count (the (cell ?h 2)) = 2"
    by (simp_all add: example_log_def eval_nat_numeral append_entry_def malloc_entry_def enqueue_log_def
        st_at_def ld_def fill_entry_def cell_def lh_fresh_def set_cell_def Let_def)
  have log: "log_holds_at (rf_queue (cx_rep (example_counted k)), rf_heap (cx_rep (example_counted k))) [0, 1, 2]" for k
    using example_log_3(1) [of 2] by (simp add: example_counted_def)
  have h: "rf_heap (cx_rep (example_counted k)) = ?h" "rf_commit (cx_rep (example_counted k)) = k" for k
    by (simp_all add: example_counted_def)
  have fnd: "find (\<lambda>a. le_index (the (cell ?h a)) = 0 + 1) [0, 1, 2] = Some 1" using e others by simp
  have client: "unat (get_client_id 0) < length [9 :: u8]" by code_simp
  have lt: "1 < lh_fresh ?h" using cell_Some_fresh [OF e(1)] .
  note step = raft_leader_cleanup_use_after_free [OF _ _ log, unfolded example_counted_facts h, OF refl refl fnd e(1)]
  show ?thesis
    using step client e others lt by (simp add: Let_def example_counted_facts h)
qed

text \<open>The answer of follower \<open>i\<close> to the entry with index \<open>k\<close>, and a client's request.\<close>

definition append_ok :: "u64 \<Rightarrow> u64 \<Rightarrow> nat \<times> msg" where
  "append_ok i k = (unat i, put_tag 0 RAFT_APPR [0, 1, k, i, 1, 0, 0])"

definition client_request :: msg where
  "client_request = put_tag 0 REQ_TAG [0, 0, 0, 0, 10, 20, 30]"

definition raft_serve :: "u64 \<Rightarrow> raft_ctx \<Rightarrow> raft_ctx res" where
  "raft_serve k c = handle_message_raft (c\<lparr>cx_msg := client_request,
     cx_rep := (cx_rep c)\<lparr>rf_in := [append_ok 1 k, append_ok 2 k]\<rparr>\<rparr>)"

text \<open>
  This state is reached in ordinary operation: a leader with two followers that answer every entry at
  once executes and answers the first two requests, and while it serves the third the clean-up finds the
  first entry.
\<close>

theorem raft_third_request_use_after_free:
  "(case bindr (raft_serve 1 (example_raft 3 0)) (raft_serve 2) of Inl _ \<Rightarrow> False
    | Inr c \<Rightarrow> execs (cx_acts c) = [[10, 20, 30], [10, 20, 30]] \<and> length (sends_to 9 (cx_acts c)) = 2 \<and>
        (case raft_serve 3 c of Inl f \<Rightarrow> f = UseAfterFree | Inr _ \<Rightarrow> False))"
  by code_simp

subsection \<open>The log of a follower\<close>

lemma of_nat_u64_eq: "a < 2 ^ 63 \<Longrightarrow> b < 2 ^ 63 \<Longrightarrow> (of_nat a :: u64) = of_nat b \<longleftrightarrow> a = b"
  by (metis unat_of_nat_u64)

lemma lookup_found:
  assumes "log_holds (rf_queue (cx_rep c), rf_heap (cx_rep c)) xs" and "find (\<lambda>x. fst x = i) xs = Some x"
  shows "\<exists>p e. contains i c = Inr (Some p) \<and> ld (rf_heap (cx_rep c)) (Some p) = Inr e \<and> item_of e = x"
  using raft_log.lookup_law [OF assms(1), of i] assms(2)
  by (auto simp: lookup_item_def lookup_log_def contains_def bindr_eq_Inr split: if_splits)

lemma lookup_missing:
  assumes "log_holds (rf_queue (cx_rep c), rf_heap (cx_rep c)) xs" and "find (\<lambda>x. fst x = i) xs = None"
  shows "contains i c = Inr None"
  using raft_log.lookup_law [OF assms(1), of i] assms(2)
  by (auto simp: lookup_item_def lookup_log_def contains_def bindr_eq_Inr split: if_splits)

text \<open>
  \<open>L\<close> is the sequence of commands a follower has been sent. Its log holds the first entry,
  with index 0, and the commands from number \<open>lo\<close> on; the earlier ones have been dropped.
\<close>

abbreviation item_payload :: "log_item \<Rightarrow> u64 list" where
  "item_payload x \<equiv> snd (snd (snd x))"

definition log_from :: "u64 list list \<Rightarrow> nat \<Rightarrow> log_item list \<Rightarrow> bool" where
  "log_from L lo xs \<longleftrightarrow> (\<exists>x ys. xs = x # ys \<and> fst x = 0 \<and> 1 \<le> lo \<and> lo \<le> length L + 1 \<and>
     length ys = length L + 1 - lo \<and>
     (\<forall>k < length ys. fst (ys ! k) = of_nat (lo + k) \<and> item_payload (ys ! k) = L ! (lo + k - 1)))"

lemma log_from_found:
  assumes "log_from L lo xs" and "lo \<le> i" and "i \<le> length L" and "length L < 2 ^ 62"
  shows "\<exists>x. find (\<lambda>x. fst x = of_nat i) xs = Some x \<and> item_payload x = L ! (i - 1)"
proof -
  obtain x ys where xs: "xs = x # ys" "fst x = 0" "1 \<le> lo" "length ys = length L + 1 - lo"
    "\<forall>k < length ys. fst (ys ! k) = of_nat (lo + k) \<and> item_payload (ys ! k) = L ! (lo + k - 1)"
    using assms(1) by (auto simp: log_from_def)
  have "(of_nat i :: u64) \<noteq> of_nat 0" using assms xs(3) by (subst of_nat_u64_eq) auto
  moreover have "find (\<lambda>x. fst x = of_nat i) ys = Some (ys ! (i - lo))"
    unfolding find_Some_iff
  proof (intro exI [of _ "i - lo"] conjI allI impI)
    fix j
    assume "j < i - lo"
    then have "fst (ys ! j) = of_nat (lo + j)" "lo + j < i" using xs(4,5) assms by auto
    then show "fst (ys ! j) \<noteq> of_nat i" using assms by (simp add: of_nat_u64_eq del: of_nat_add)
  qed (use xs assms in auto)
  ultimately show ?thesis using xs assms by (auto intro!: exI [of _ "ys ! (i - lo)"])
qed

lemma log_from_missing:
  assumes "log_from L lo xs" and "length L < i" and "i < 2 ^ 63"
  shows "find (\<lambda>x. fst x = of_nat i) xs = None"
proof -
  obtain x ys where xs: "xs = x # ys" "fst x = 0" "length ys = length L + 1 - lo" "lo \<le> length L + 1"
    "\<forall>k < length ys. fst (ys ! k) = of_nat (lo + k) \<and> item_payload (ys ! k) = L ! (lo + k - 1)"
    using assms(1) by (auto simp: log_from_def)
  have "(of_nat i :: u64) \<noteq> of_nat 0" using assms by (subst of_nat_u64_eq) auto
  moreover have "fst (ys ! k) \<noteq> of_nat i" if "k < length ys" for k
    using that xs(3-5) assms(2,3) by (simp add: of_nat_u64_eq del: of_nat_add)
  then have "\<forall>u \<in> set ys. fst u \<noteq> of_nat i" by (metis in_set_conv_nth)
  ultimately show ?thesis using xs(1,2) by (auto simp: find_None_iff)
qed

lemma log_from_append:
  assumes "log_from L lo xs" and "fst x = of_nat (length L + 1)" and "item_payload x = p"
  shows "log_from (L @ [p]) lo (xs @ [x])"
proof -
  obtain y ys where xs: "xs = y # ys" "fst y = 0" "1 \<le> lo" "length ys = length L + 1 - lo" "lo \<le> length L + 1"
    "\<forall>k < length ys. fst (ys ! k) = of_nat (lo + k) \<and> item_payload (ys ! k) = L ! (lo + k - 1)"
    using assms(1) by (auto simp: log_from_def)
  have "fst ((ys @ [x]) ! k) = of_nat (lo + k) \<and> item_payload ((ys @ [x]) ! k) = (L @ [p]) ! (lo + k - 1)"
    if "k < length (ys @ [x])" for k
  proof (cases "k < length ys")
    case True
    then have "lo + k - 1 < length L" using xs(3,4) by simp
    with True xs(6) show ?thesis by (simp add: nth_append del: of_nat_add)
  next
    case False
    with that have k: "k = length ys" by simp
    then have "lo + k = length L + 1" using xs(4,5) by simp
    with k assms(2,3) show ?thesis by simp
  qed
  with xs show ?thesis unfolding log_from_def by auto
qed

lemma log_from_drop:
  assumes "log_from L lo xs" and "lo < length L"
  shows "\<exists>x y z zs. xs = x # y # z # zs \<and> fst x = 0 \<and> fst y = of_nat lo \<and> log_from L (lo + 1) (x # z # zs)"
proof -
  obtain x ys where xs: "xs = x # ys" "fst x = 0" "1 \<le> lo" "length ys = length L + 1 - lo"
    "\<forall>k < length ys. fst (ys ! k) = of_nat (lo + k) \<and> item_payload (ys ! k) = L ! (lo + k - 1)"
    using assms(1) by (auto simp: log_from_def)
  obtain y z zs where ys: "ys = y # z # zs" using xs(4) assms(2) by (cases ys; cases "tl ys") auto
  have "\<forall>k < length (z # zs). fst ((z # zs) ! k) = of_nat (lo + 1 + k) \<and>
      item_payload ((z # zs) ! k) = L ! (lo + 1 + k - 1)"
  proof (intro allI impI)
    fix k
    assume "k < length (z # zs)"
    then have "Suc k < length ys" by (simp add: ys)
    with xs(5) have "fst (ys ! Suc k) = of_nat (lo + Suc k) \<and> item_payload (ys ! Suc k) = L ! (lo + Suc k - 1)"
      by blast
    then show "fst ((z # zs) ! k) = of_nat (lo + 1 + k) \<and> item_payload ((z # zs) ! k) = L ! (lo + 1 + k - 1)"
      by (simp add: ys)
  qed
  moreover have "fst y = of_nat lo" using xs(5) unfolding ys by auto
  moreover have "length (z # zs) = length L + 1 - (lo + 1)" using xs(4) unfolding ys by simp
  ultimately show ?thesis using xs ys assms(2) unfolding log_from_def by fastforce
qed

text \<open>What a follower keeps: it has executed exactly the first \<open>last_applied\<close> commands.\<close>

definition first_kept :: "nat \<Rightarrow> nat" where
  "first_kept a = max 1 (a - 1)"

definition follower_ok :: "exec_fn \<Rightarrow> u64 list list \<Rightarrow> raft_ctx \<Rightarrow> bool" where
  "follower_ok f L c \<longleftrightarrow> (let r = cx_rep c; a = unat (rf_applied r) in
     r_id r \<noteq> rf_leader r \<and> \<not> rf_is_candidate r \<and> r_exec r = Some f \<and>
     unat (rf_leader r) < length (r_replicas r) \<and> rf_last_log r = of_nat (length L) \<and>
     a \<le> unat (rf_commit r) \<and> unat (rf_commit r) \<le> length L \<and>
     execs (cx_acts c) = take a L \<and>
     (\<exists>xs. log_holds (rf_queue r, rf_heap r) xs \<and> log_from L (first_kept a) xs))"

lemma apply_follower:
  assumes ok: "follower_ok f L c" and lt: "rf_applied (cx_rep c) < rf_commit (cx_rep c)"
    and L: "length L < 2 ^ 62"
  shows "\<exists>q h. apply_entry c = Inr (c\<lparr>cx_rep := (cx_rep c)\<lparr>rf_applied := rf_applied (cx_rep c) + 1,
      rf_queue := q, rf_heap := h\<rparr>, cx_acts := cx_acts c @ [Exec f (L ! unat (rf_applied (cx_rep c)))]\<rparr>) \<and>
    follower_ok f L (c\<lparr>cx_rep := (cx_rep c)\<lparr>rf_applied := rf_applied (cx_rep c) + 1,
      rf_queue := q, rf_heap := h\<rparr>, cx_acts := cx_acts c @ [Exec f (L ! unat (rf_applied (cx_rep c)))]\<rparr>)"
proof -
  let ?r = "cx_rep c" and ?a = "unat (rf_applied (cx_rep c))"
  let ?c1 = "c\<lparr>cx_rep := ?r\<lparr>rf_applied := rf_applied ?r + 1\<rparr>\<rparr>"
  obtain xs where r: "r_id ?r \<noteq> rf_leader ?r" "r_exec ?r = Some f" and cl: "unat (rf_commit ?r) \<le> length L"
    and ex: "execs (cx_acts c) = take ?a L"
    and xs: "log_holds (rf_queue ?r, rf_heap ?r) xs" "log_from L (first_kept ?a) xs"
    using ok by (auto simp: follower_ok_def Let_def)
  have al: "?a < unat (rf_commit ?r)" using lt by (simp add: word_less_nat_alt)
  have a1: "unat (rf_applied ?r + 1) = ?a + 1" using al cl L by (simp add: unat_word_ariths)
  then have aw: "rf_applied ?r + 1 = of_nat (?a + 1)" by (rule from_unat)
  have lo: "first_kept ?a \<le> ?a + 1" "?a + 1 \<le> length L" using al cl by (auto simp: first_kept_def)
  obtain x where x: "find (\<lambda>x. fst x = rf_applied ?r + 1) xs = Some x" "item_payload x = L ! ?a"
    using log_from_found [OF xs(2) lo L] unfolding aw by auto
  obtain p e where p: "contains (rf_applied ?r + 1) ?c1 = Inr (Some p)" "ld (rf_heap ?r) (Some p) = Inr e" "item_of e = x"
    using lookup_found [of ?c1 xs "rf_applied ?r + 1" x] xs(1) x(1) by auto
  have pl: "le_payload e = L ! ?a" using p(3) x(2) by (auto simp: item_of_def)
  have run: "apply_entry c = st_when (2 < rf_applied ?r + 1) (st_log (drop_log_entry (rf_applied ?r - 1)))
      (?c1\<lparr>cx_acts := cx_acts c @ [Exec f (L ! ?a)]\<rparr>)"
    using p r pl by (simp add: apply_entry_def st_raft_def execute_raft_def st_act_def diff_diff_eq2)
  have keep: "?a \<le> length L" "take ?a L @ [L ! ?a] = take (?a + 1) L"
    using lo(2) by (simp_all add: take_Suc_conv_app_nth)
  show ?thesis
  proof (cases "2 < rf_applied ?r + 1")
    case False
    then have "?a + 1 \<le> 2" using a1 by (simp add: word_less_nat_alt)
    then have "first_kept (?a + 1) = first_kept ?a" by (auto simp: first_kept_def)
    then show ?thesis using False run ok xs a1 al ex keep
      by (intro exI [of _ "rf_queue ?r"] exI [of _ "rf_heap ?r"])
        (auto simp: st_when_def follower_ok_def Let_def)
  next
    case True
    then have a2: "2 < ?a + 1" using a1 by (simp add: word_less_nat_alt)
    then have fk: "first_kept ?a = ?a - 1" "first_kept (?a + 1) = ?a - 1 + 1" by (auto simp: first_kept_def)
    have "?a - 1 < length L" using lo(2) by simp
    then obtain u y z zs where sp: "xs = u # y # z # zs" "fst u = 0" "fst y = of_nat (?a - 1)"
      "log_from L (?a - 1 + 1) (u # z # zs)"
      using log_from_drop [of L "?a - 1" xs] xs(2) fk(1) by auto
    have "rf_applied ?r = of_nat ?a" by (rule from_unat) simp
    moreover have "(of_nat (?a - 1) :: u64) = of_nat ?a - 1" using a2 by (simp add: of_nat_diff)
    ultimately have key: "fst y = rf_applied ?r - 1" using sp(3) by simp
    have "(of_nat (?a - 1) :: u64) \<noteq> of_nat 0" using a2 lo(2) L by (subst of_nat_u64_eq) auto
    then have "fst y \<notin> fst ` set [u]" using sp(2,3) by simp
    then obtain s' where s': "drop_log_entry (fst y) (rf_queue ?r, rf_heap ?r) = Inr s'" "log_holds s' (u # z # zs)"
      using raft_log.drop_law [of "(rf_queue ?r, rf_heap ?r)" u "[]" y z zs] xs(1) sp(1) by auto
    obtain q h where qh: "s' = (q, h)" by (cases s')
    show ?thesis using True run s' ok sp(4) a1 al ex keep fk(2) key
      by (intro exI [of _ q] exI [of _ h])
        (auto simp: st_when_def st_log_def follower_ok_def Let_def qh)
  qed
qed

text \<open>What applying entries leaves alone in a follower.\<close>

definition same_role :: "raft_ctx \<Rightarrow> raft_ctx \<Rightarrow> bool" where
  "same_role c c' \<longleftrightarrow> rf_current_term (cx_rep c') = rf_current_term (cx_rep c) \<and>
     rf_leader (cx_rep c') = rf_leader (cx_rep c) \<and> r_replicas (cx_rep c') = r_replicas (cx_rep c) \<and>
     r_id (cx_rep c') = r_id (cx_rep c) \<and> rf_in (cx_rep c') = rf_in (cx_rep c)"

lemma same_role_refl: "same_role c c" and same_role_trans: "same_role a b \<Longrightarrow> same_role b c \<Longrightarrow> same_role a c"
  by (auto simp: same_role_def)

lemma apply_all:
  assumes "follower_ok f L c" and "length L < 2 ^ 62"
  shows "\<exists>c'. update_applied_entries c = Inr c' \<and> follower_ok f L c' \<and> same_role c c' \<and>
    rf_applied (cx_rep c') = rf_commit (cx_rep c) \<and> rf_commit (cx_rep c') = rf_commit (cx_rep c) \<and>
    cx_acts c' = cx_acts c @
      map (Exec f) (drop (unat (rf_applied (cx_rep c))) (take (unat (rf_commit (cx_rep c))) L))"
  using assms
proof (induction "unat (rf_commit (cx_rep c)) - unat (rf_applied (cx_rep c))" arbitrary: c)
  case 0
  then have "unat (rf_applied (cx_rep c)) = unat (rf_commit (cx_rep c))" by (auto simp: follower_ok_def Let_def)
  then have "rf_applied (cx_rep c) = rf_commit (cx_rep c)" by (rule word_unat_eq_iff [THEN iffD2])
  with 0 show ?case by (intro exI [of _ c]) (auto simp: update_applied_entries_def same_role_refl)
next
  case (Suc n)
  then have lt: "unat (rf_applied (cx_rep c)) < unat (rf_commit (cx_rep c))" by simp
  have le: "unat (rf_commit (cx_rep c)) \<le> length L" using Suc.prems(1) by (auto simp: follower_ok_def Let_def)
  obtain c1 q h where c1: "apply_entry c = Inr c1" "c1 = c\<lparr>cx_rep := (cx_rep c)\<lparr>rf_applied := rf_applied (cx_rep c) + 1,
      rf_queue := q, rf_heap := h\<rparr>, cx_acts := cx_acts c @ [Exec f (L ! unat (rf_applied (cx_rep c)))]\<rparr>"
    and ok1: "follower_ok f L c1"
    using apply_follower [OF Suc.prems(1) _ Suc.prems(2)] lt by (auto simp: word_less_nat_alt)
  have a1: "unat (rf_applied (cx_rep c) + 1) = unat (rf_applied (cx_rep c)) + 1"
    using lt le Suc.prems(2) by (simp add: unat_word_ariths)
  with Suc.hyps(2) have n: "n = unat (rf_commit (cx_rep c1)) - unat (rf_applied (cx_rep c1))" by (simp add: c1(2))
  from Suc.hyps(1) [OF n ok1 Suc.prems(2)] obtain c' where c': "update_applied_entries c1 = Inr c'"
    "follower_ok f L c'" "same_role c1 c'" "rf_applied (cx_rep c') = rf_commit (cx_rep c)"
    "rf_commit (cx_rep c') = rf_commit (cx_rep c)"
    "cx_acts c' = cx_acts c @ [Exec f (L ! unat (rf_applied (cx_rep c)))] @
      map (Exec f) (drop (unat (rf_applied (cx_rep c)) + 1) (take (unat (rf_commit (cx_rep c))) L))"
    by (auto simp: a1 c1(2))
  have "update_applied_entries c = Inr c'"
    using c1(1) c'(1) n by (simp add: update_applied_entries_def Suc.hyps(2) [symmetric])
  moreover have "L ! unat (rf_applied (cx_rep c)) #
      drop (unat (rf_applied (cx_rep c)) + 1) (take (unat (rf_commit (cx_rep c))) L) =
      drop (unat (rf_applied (cx_rep c))) (take (unat (rf_commit (cx_rep c))) L)"
    using Cons_nth_drop_Suc [of "unat (rf_applied (cx_rep c))" "take (unat (rf_commit (cx_rep c))) L"] lt le by simp
  then have "cx_acts c' = cx_acts c @
      map (Exec f) (drop (unat (rf_applied (cx_rep c))) (take (unat (rf_commit (cx_rep c))) L))"
    using c'(6) by (metis append_Cons append_Nil list.simps(9))
  moreover have "same_role c c'" using c'(3) by (simp add: same_role_def c1(2))
  ultimately show ?case using c' by blast
qed

text \<open>The message a leader sends for the next entry of the log.\<close>

definition next_append :: "raft_ctx \<Rightarrow> nat \<Rightarrow> msg \<Rightarrow> bool" where
  "next_append c n m \<longleftrightarrow> wf_msg m \<and> msg_tag m = RAFT_APP \<and> m ! 2 = of_nat n \<and>
     ucast (get_request_id (m ! 1)) = rf_current_term (cx_rep c) \<and> get_tag (m ! 1) = ucast (rf_leader (cx_rep c))"

definition append_answer :: "raft_ctx \<Rightarrow> msg \<Rightarrow> nat \<Rightarrow> msg" where
  "append_answer c m n = (put_tag 0 RAFT_APPR m)[1 := rf_current_term (cx_rep c), 2 := of_nat n,
     3 := ucast (r_id (cx_rep c)), 4 := 1]"

lemma raft_tags [simp]: "RAFT_APP \<noteq> SETUP_TAG" "RAFT_APP \<noteq> REQ_TAG"
  by (simp_all add: algs)

lemma narrow_tag: "(ucast (ucast (x :: u8) :: u16) :: u8) = x"
  by (rule bit_word_eqI) (simp add: bit_ucast_iff)

text \<open>The state between appending the entry and applying what is committed.\<close>

lemma append_run:
  assumes ok: "follower_ok f L c" and m: "next_append c (length L) m" and L: "length L + 1 < 2 ^ 62"
  shows "\<exists>c2. handle_append Loop (c\<lparr>cx_msg := m\<rparr>) = update_applied_entries c2 \<and> follower_ok f (L @ [payload m]) c2 \<and>
    same_role c c2 \<and> rf_applied (cx_rep c2) = rf_applied (cx_rep c) \<and>
    unat (rf_commit (cx_rep c2)) = max (unat (rf_commit (cx_rep c))) (min (unat (m ! 3)) (length L + 1)) \<and>
    cx_acts c2 = cx_acts c @ [Send (unat (r_replicas (cx_rep c) ! unat (rf_leader (cx_rep c)))) (append_answer c m (length L + 1))]"
proof -
  let ?r = "cx_rep c" and ?x = "(of_nat (length L + 1), rf_current_term (cx_rep c), put_tag 0 RAFT_APPR m ! 0, payload m) :: log_item"
  let ?c1 = "c\<lparr>cx_rep := ?r\<lparr>rf_election_timeout := False\<rparr>, cx_msg := put_tag 0 RAFT_APPR m\<rparr>"
  obtain xs where r: "r_id ?r \<noteq> rf_leader ?r" "\<not> rf_is_candidate ?r" "unat (rf_leader ?r) < length (r_replicas ?r)"
      "rf_last_log ?r = of_nat (length L)"
    and ap: "unat (rf_applied ?r) \<le> unat (rf_commit ?r)" "unat (rf_commit ?r) \<le> length L"
    and ex: "execs (cx_acts c) = take (unat (rf_applied ?r)) L"
    and xs: "log_holds (rf_queue ?r, rf_heap ?r) xs" "log_from L (first_kept (unat (rf_applied ?r))) xs"
    using ok by (auto simp: follower_ok_def Let_def)
  have w: "rd m 1 = Inr (m ! 1)" "rd m 2 = Inr (of_nat (length L))" "rd m 3 = Inr (m ! 3)" and wf: "wf_msg m"
    using m by (simp_all add: next_append_def)
  have trm: "(ucast (get_request_id (m ! 1)) :: u64) = rf_current_term ?r" "(ucast (get_tag (m ! 1)) :: u8) = rf_leader ?r"
    using m by (simp_all add: next_append_def narrow_tag)
  have have_prev: "\<exists>p. contains (of_nat (length L)) ?c1 = Inr (Some p)"
  proof (cases "L = []")
    case True
    then obtain x ys where "xs = x # ys" "fst x = 0" using xs(2) by (auto simp: log_from_def)
    then have "find (\<lambda>x. fst x = of_nat (length L)) xs = Some x" using True by simp
    from lookup_found [of ?c1, OF _ this] xs(1) show ?thesis by auto
  next
    case False
    then have "first_kept (unat (rf_applied ?r)) \<le> length L" using ap by (cases L) (auto simp: first_kept_def)
    with log_from_found [OF xs(2)] L obtain x where "find (\<lambda>x. fst x = of_nat (length L)) xs = Some x" by force
    from lookup_found [of ?c1, OF _ this] xs(1) show ?thesis by auto
  qed
  have "find (\<lambda>x. fst x = of_nat (length L + 1)) xs = None" by (rule log_from_missing [OF xs(2)]) (use L in auto)
  then have no_next: "contains (of_nat (length L) + 1) ?c1 = Inr None"
    using lookup_missing [of ?c1 xs "of_nat (length L + 1)"] xs(1) by (simp add: add.commute)
  obtain q h where qh: "append_entry (fill_entry ?x) (rf_queue ?r, rf_heap ?r) = Inr (q, h)" "log_holds (q, h) (xs @ [?x])"
    using raft_log.append_law [OF xs(1), of ?x] by auto
  let ?commit = "if rf_commit ?r < m ! 3 then min (m ! 3) (of_nat (length L + 1)) else rf_commit ?r"
  let ?ans = "append_answer c m (length L + 1)"
  let ?c2 = "c\<lparr>cx_rep := ?r\<lparr>rf_election_timeout := False, rf_queue := q, rf_heap := h,
      rf_last_log := of_nat (length L + 1), rf_commit := ?commit\<rparr>, cx_msg := ?ans,
      cx_acts := cx_acts c @ [Send (unat (r_replicas ?r ! unat (rf_leader ?r))) ?ans]\<rparr>"
  have len: "length m = 7" using wf by (simp add: wf_msg_def)
  have pl: "drop 4 (put_tag 0 RAFT_APPR m) = payload m" "take 3 (payload m) = payload m"
    using len by (simp_all add: put_tag_def payload_def)
  have alen: "length (put_tag 0 RAFT_APPR m) = 7" using len by (simp add: put_tag_def)
  have run: "handle_append Loop (c\<lparr>cx_msg := m\<rparr>) = bindr (append_new Loop (rf_current_term ?r) (of_nat (length L))
      (m ! 3) (rf_leader ?r) ?c1) update_applied_entries"
    using r have_prev no_next w trm
    by (auto simp: handle_append_def st_raft_def word_at_def msg_at_def Let_def update_state_def on_def
        st_tag_def st_when_def bindr_Inr_right do_all_one)
  have "append_new Loop (rf_current_term ?r) (of_nat (length L)) (m ! 3) (rf_leader ?r) ?c1 = Inr ?c2"
    using qh(1) r(3) pl alen
    by (simp add: append_new_def msg_at_def Let_def st_log_def st_raft_def answer_append_def on_def stmts
        append_answer_def add.commute)
  moreover have len1: "unat (of_nat (length L + 1) :: u64) = length L + 1" using L by (intro unat_of_nat_u64) simp
  then have cm: "unat ?commit = max (unat (rf_commit ?r)) (min (unat (m ! 3)) (length L + 1))"
    using ap(2) by (simp add: min_def max_def word_less_nat_alt word_le_nat_alt del: of_nat_add)
  have "log_from (L @ [payload m]) (first_kept (unat (rf_applied ?r))) (xs @ [?x])"
    by (rule log_from_append [OF xs(2)]) simp_all
  then have "follower_ok f (L @ [payload m]) ?c2"
    using ok r ap ex qh(2) cm by (auto simp: follower_ok_def Let_def simp del: of_nat_add)
  moreover have "same_role c ?c2" by (simp add: same_role_def)
  ultimately show ?thesis using run cm by (intro exI [of _ ?c2]) simp
qed

lemma handle_append_message:
  "msg_tag m = RAFT_APP \<Longrightarrow> handle_message_raft (c\<lparr>cx_msg := m\<rparr>) = handle_append Loop (c\<lparr>cx_msg := m\<rparr>)"
  by (cases "length (rf_in (cx_rep c))") (simp_all add: handle_message_raft_def dispatch_raft_def msg_at_def Let_def)

lemma follower_step:
  assumes ok: "follower_ok f L c" and m: "next_append c (length L) m" and L: "length L + 1 < 2 ^ 62"
  shows "\<exists>c'. handle_message_raft (c\<lparr>cx_msg := m\<rparr>) = Inr c' \<and> follower_ok f (L @ [payload m]) c' \<and> same_role c c' \<and>
    unat (rf_applied (cx_rep c')) = max (unat (rf_commit (cx_rep c))) (min (unat (m ! 3)) (length L + 1)) \<and>
    cx_acts c' = cx_acts c @ Send (unat (r_replicas (cx_rep c) ! unat (rf_leader (cx_rep c)))) (append_answer c m (length L + 1)) #
      map (Exec f) (drop (unat (rf_applied (cx_rep c))) (take (unat (rf_applied (cx_rep c'))) (L @ [payload m])))"
proof -
  obtain c2 where c2: "handle_append Loop (c\<lparr>cx_msg := m\<rparr>) = update_applied_entries c2" "follower_ok f (L @ [payload m]) c2"
    "same_role c c2" "rf_applied (cx_rep c2) = rf_applied (cx_rep c)"
    "unat (rf_commit (cx_rep c2)) = max (unat (rf_commit (cx_rep c))) (min (unat (m ! 3)) (length L + 1))"
    "cx_acts c2 = cx_acts c @ [Send (unat (r_replicas (cx_rep c) ! unat (rf_leader (cx_rep c)))) (append_answer c m (length L + 1))]"
    using append_run [OF assms] by blast
  obtain c' where c': "update_applied_entries c2 = Inr c'" "follower_ok f (L @ [payload m]) c'" "same_role c2 c'"
    "rf_applied (cx_rep c') = rf_commit (cx_rep c2)"
    "cx_acts c' = cx_acts c2 @
      map (Exec f) (drop (unat (rf_applied (cx_rep c2))) (take (unat (rf_commit (cx_rep c2))) (L @ [payload m])))"
    using apply_all [OF c2(2)] L by auto
  have "handle_message_raft (c\<lparr>cx_msg := m\<rparr>) = Inr c'"
    using handle_append_message m c2(1) c'(1) by (simp add: next_append_def)
  moreover have "same_role c c'" using c2(3) c'(3) by (rule same_role_trans)
  ultimately show ?thesis using c' c2 by (intro exI [of _ c']) simp
qed

text \<open>
  A follower that gets the next entry of its leader's log appends it, tells the leader so
  before anything else, and then executes, in order and each once, the commands up to the
  leader's commit index; it never faults, and its log stays as described by \<open>follower_ok\<close>.
\<close>

theorem raft_follower_appends:
  assumes "follower_ok f L c" and "next_append c (length L) m" and "length L + 1 < 2 ^ 62"
  shows "\<exists>c' ans. handle_message_raft (c\<lparr>cx_msg := m\<rparr>) = Inr c' \<and> follower_ok f (L @ [payload m]) c' \<and>
    unat (rf_applied (cx_rep c')) = max (unat (rf_commit (cx_rep c))) (min (unat (m ! 3)) (length L + 1)) \<and>
    cx_acts c' = cx_acts c @ Send (unat (r_replicas (cx_rep c) ! unat (rf_leader (cx_rep c)))) ans #
      map (Exec f) (drop (unat (rf_applied (cx_rep c))) (take (unat (rf_applied (cx_rep c'))) (L @ [payload m]))) \<and>
    msg_tag ans = RAFT_APPR \<and> ans ! 2 = of_nat (length L + 1) \<and> ans ! 4 = 1"
proof -
  have wf: "wf_msg m" using assms(2) by (simp add: next_append_def)
  then have "msg_tag (append_answer c m (length L + 1)) = RAFT_APPR"
    "append_answer c m (length L + 1) ! 2 = of_nat (length L + 1)" "append_answer c m (length L + 1) ! 4 = 1"
    by (simp_all add: append_answer_def hdr wf_msg_def put_tag_def msg_tag_def)
  with follower_step [OF assms] show ?thesis by blast
qed

text \<open>The messages of one leader for consecutive entries.\<close>

fun append_stream :: "raft_ctx \<Rightarrow> nat \<Rightarrow> msg list \<Rightarrow> bool" where
  "append_stream c n [] \<longleftrightarrow> True"
| "append_stream c n (m # ms) \<longleftrightarrow> next_append c n m \<and> append_stream c (n + 1) ms"

lemma append_stream_same: "same_role c c' \<Longrightarrow> append_stream c' n ms = append_stream c n ms"
  by (induction ms arbitrary: n) (simp_all add: next_append_def same_role_def)

lemma follower_run:
  "follower_ok f L c \<Longrightarrow> append_stream c (length L) ms \<Longrightarrow> length L + length ms < 2 ^ 62 \<Longrightarrow>
   \<exists>c'. handle_all handle_message_raft ms c = Inr c' \<and> follower_ok f (L @ map payload ms) c'"
proof (induction ms arbitrary: c L)
  case Nil
  then show ?case by simp
next
  case (Cons m ms)
  then obtain c1 where c1: "handle_message_raft (c\<lparr>cx_msg := m\<rparr>) = Inr c1" "follower_ok f (L @ [payload m]) c1" "same_role c c1"
    using follower_step [of f L c m] by auto
  have "append_stream c1 (length (L @ [payload m])) ms" using Cons.prems(2) append_stream_same [OF c1(3)] by simp
  from Cons.IH [OF c1(2) this] Cons.prems(3) c1(1) show ?case by auto
qed

text \<open>
  C16: a follower of one leader executes a prefix of the leader's log: whatever commit indices
  the append messages carry, after any number of them it has executed exactly the first
  \<open>last_applied\<close> commands, in order, and none of the handlers has faulted.
\<close>

theorem raft_follower_executes_log:
  assumes "follower_ok f [] c" and "append_stream c 0 ms" and "length ms < 2 ^ 62"
  shows "\<exists>c'. handle_all handle_message_raft ms c = Inr c' \<and>
    execs (cx_acts c') = take (unat (rf_applied (cx_rep c'))) (map payload ms) \<and>
    rf_last_log (cx_rep c') = of_nat (length ms)"
proof -
  obtain c' where "handle_all handle_message_raft ms c = Inr c'" "follower_ok f (map payload ms) c'"
    using follower_run [OF assms(1)] assms(2,3) by auto
  then show ?thesis by (auto simp: follower_ok_def Let_def)
qed

text \<open>A follower after initialisation is in the state the properties start from.\<close>

lemma example_follower: "follower_ok Default_exec_fn [] (example_raft 3 1)"
proof -
  have e: "r_id (cx_rep (example_raft 3 1)) = 1" "rf_leader (cx_rep (example_raft 3 1)) = 0"
    "\<not> rf_is_candidate (cx_rep (example_raft 3 1))" "r_exec (cx_rep (example_raft 3 1)) = Some Default_exec_fn"
    "length (r_replicas (cx_rep (example_raft 3 1))) = 3" "rf_last_log (cx_rep (example_raft 3 1)) = 0"
    "rf_applied (cx_rep (example_raft 3 1)) = 0" "rf_commit (cx_rep (example_raft 3 1)) = 0"
    "cx_acts (example_raft 3 1) = []"
    by code_simp+
  let ?q = "\<lparr>lq_size = 0, lq_head = None, lq_tail = None\<rparr>" and ?h = "\<lparr>lh_cells = [], lh_junk = raft_junk\<rparr>"
  have empty: "log_holds_at (?q, ?h) []" "le_next (init_entry (lh_junk ?h (lh_fresh ?h))) = le_next (lh_junk ?h (lh_fresh ?h))"
    "lh_fresh ?h = 0"
    by (simp_all add: log_holds_at_def init_entry_def lh_fresh_def)
  obtain q h where qh: "append_entry init_entry (?q, ?h) = Inr (q, h)"
    "log_holds_at (q, h) [0]" "item_at h 0 = item_of (init_entry (raft_junk 0))"
    using append_at [of ?q ?h "[]" init_entry, OF empty(1,2)] empty(3) by auto
  then have lh: "log_holds (q, h) [item_of (init_entry (raft_junk 0))]"
    unfolding log_holds_def by (intro exI [of _ "[0]"]) simp
  have "rf_queue (cx_rep (example_raft 3 1)) = q \<and> rf_heap (cx_rep (example_raft 3 1)) = h"
    using qh(1) by (simp add: example_raft_def init_replica_raft_def Let_def zero_raft_def replica.defs raft_replica.defs
        zero_replica_def wr_range start_ctx_def log_queue_init_def)
  then have "log_holds (rf_queue (cx_rep (example_raft 3 1)), rf_heap (cx_rep (example_raft 3 1))) [item_of (init_entry (raft_junk 0))]"
    using lh by simp
  moreover have "log_from [] 1 [item_of (init_entry (raft_junk 0))]"
    by (simp add: log_from_def item_of_def init_entry_def)
  ultimately show ?thesis using e unfolding follower_ok_def Let_def by (auto simp: first_kept_def)
qed

definition example_append :: "nat \<Rightarrow> u64 \<Rightarrow> msg" where
  "example_append n commit = put_tag 0 RAFT_APP [0, 1, of_nat n, commit, 10, 20, of_nat n]"

theorem raft_follower_appends_witness:
  "\<exists>c' ans. handle_message_raft ((example_raft 3 1)\<lparr>cx_msg := example_append 0 0\<rparr>) = Inr c' \<and>
    cx_acts c' = [Send 0 ans] \<and> ans ! 4 = 1"
proof -
  have "next_append (example_raft 3 1) 0 (example_append 0 0)" by code_simp
  moreover have "cx_acts (example_raft 3 1) = []" "r_replicas (cx_rep (example_raft 3 1)) = [0, 1, 2]"
    "unat (rf_leader (cx_rep (example_raft 3 1))) = 0" "example_append 0 0 ! 3 = 0"
    "rf_commit (cx_rep (example_raft 3 1)) = 0" "rf_applied (cx_rep (example_raft 3 1)) = 0"
    by code_simp+
  ultimately show ?thesis
    using raft_follower_appends [OF example_follower, of "example_append 0 0"] by auto
qed

theorem raft_follower_executes_log_witness:
  "\<exists>c'. handle_all handle_message_raft [example_append 0 0, example_append 1 1, example_append 2 2] (example_raft 3 1) = Inr c' \<and>
    execs (cx_acts c') = take (unat (rf_applied (cx_rep c'))) (map payload [example_append 0 0, example_append 1 1, example_append 2 2])"
proof -
  have "append_stream (example_raft 3 1) 0 [example_append 0 0, example_append 1 1, example_append 2 2]" by code_simp
  from raft_follower_executes_log [OF example_follower this] show ?thesis by auto
qed

subsection \<open>A repeated entry\<close>

lemma log_from_last:
  assumes "log_from L lo xs" and "L \<noteq> []" and "lo \<le> length L" and "length L < 2 ^ 62"
  shows "\<exists>zs y. xs = zs @ [y] \<and> zs \<noteq> [] \<and> fst y = of_nat (length L) \<and> fst y \<notin> fst ` set zs"
proof -
  obtain x ys where xs: "xs = x # ys" "fst x = 0" "1 \<le> lo" "length ys = length L + 1 - lo"
    "\<forall>k < length ys. fst (ys ! k) = of_nat (lo + k) \<and> item_payload (ys ! k) = L ! (lo + k - 1)"
    using assms(1) by (auto simp: log_from_def)
  then obtain us y where ys: "ys = us @ [y]" using assms(3) by (cases ys rule: rev_cases) auto
  have ly: "length us = length L - lo" using xs(4) ys assms(3) by simp
  have "length us < length ys" by (simp add: ys)
  with xs(5) have "fst (ys ! length us) = of_nat (lo + length us)" by blast
  moreover have "ys ! length us = y" by (simp add: ys)
  moreover have "lo + length us = length L" using ly assms(3) by simp
  ultimately have y: "fst y = of_nat (length L)" by metis
  have "fst u \<noteq> fst y" if u: "u \<in> set us" for u
  proof -
    obtain k where k: "k < length us" "u = us ! k" using u unfolding in_set_conv_nth by blast
    then have "k < length ys" "ys ! k = u" by (simp_all add: ys nth_append)
    with xs(5) have "fst u = of_nat (lo + k)" by metis
    then show ?thesis using y k(1) ly assms(4) by (simp add: of_nat_u64_eq del: of_nat_add)
  qed
  moreover have "fst x \<noteq> fst y"
    using xs(2) y assms(2,4) of_nat_u64_eq [of 0 "length L"] by simp
  ultimately have "fst y \<notin> fst ` set (x # us)" by (metis (no_types, lifting) imageE set_ConsD)
  then show ?thesis using xs(1) ys y by (intro exI [of _ "x # us"] exI [of _ y]) simp
qed

text \<open>
  C39: a follower that gets the last entry of its log a second time, as it does when the leader
  sends it again, takes it for a conflict and dereferences NULL while removing it.
\<close>

theorem raft_repeated_entry_faults:
  assumes "follower_ok f L c" and "next_append c (length L - 1) m" and "L \<noteq> []" and "length L < 2 ^ 62"
  shows "handle_message_raft (c\<lparr>cx_msg := m\<rparr>) = Inl NullDeref"
proof -
  let ?r = "cx_rep c" and ?c1 = "c\<lparr>cx_rep := (cx_rep c)\<lparr>rf_election_timeout := False\<rparr>, cx_msg := put_tag 0 RAFT_APPR m\<rparr>"
  obtain xs where r: "r_id ?r \<noteq> rf_leader ?r" "\<not> rf_is_candidate ?r"
    and ap: "unat (rf_applied ?r) \<le> unat (rf_commit ?r)" "unat (rf_commit ?r) \<le> length L"
    and xs: "log_holds (rf_queue ?r, rf_heap ?r) xs" "log_from L (first_kept (unat (rf_applied ?r))) xs"
    using assms(1) by (auto simp: follower_ok_def Let_def)
  have pos: "1 \<le> length L" using assms(3) by (cases L) auto
  then have lo: "first_kept (unat (rf_applied ?r)) \<le> length L" using ap by (auto simp: first_kept_def)
  have w: "rd m 1 = Inr (m ! 1)" "rd m 2 = Inr (of_nat (length L - 1))" "rd m 3 = Inr (m ! 3)"
    using assms(2) by (simp_all add: next_append_def)
  have trm: "(ucast (get_request_id (m ! 1)) :: u64) = rf_current_term ?r" "(ucast (get_tag (m ! 1)) :: u8) = rf_leader ?r"
    using assms(2) by (simp_all add: next_append_def narrow_tag)
  have nxt: "(of_nat (length L - 1) + 1 :: u64) = of_nat (length L)" using pos by (simp add: of_nat_diff)
  have "\<exists>x. find (\<lambda>x. fst x = of_nat (length L - 1)) xs = Some x"
  proof (cases "length L = 1")
    case True
    then show ?thesis using xs(2) by (auto simp: log_from_def)
  next
    case False
    then have "first_kept (unat (rf_applied ?r)) \<le> length L - 1" using pos ap by (auto simp: first_kept_def)
    with log_from_found [OF xs(2)] assms(4) show ?thesis by force
  qed
  then obtain p where p: "contains (of_nat (length L - 1)) ?c1 = Inr (Some p)"
    using lookup_found [of ?c1] xs(1) by fastforce
  obtain x where "find (\<lambda>x. fst x = of_nat (length L)) xs = Some x"
    using log_from_found [OF xs(2) lo order_refl assms(4)] by blast
  then obtain p' where p': "contains (of_nat (length L)) ?c1 = Inr (Some p')"
    using lookup_found [of ?c1] xs(1) by fastforce
  obtain zs y where y: "xs = zs @ [y]" "zs \<noteq> []" "fst y = of_nat (length L)" "fst y \<notin> fst ` set zs"
    using log_from_last [OF xs(2) assms(3) lo assms(4)] by blast
  have "remove_entry (of_nat (length L)) (rf_queue ?r, rf_heap ?r) = Inl NullDeref"
    using remove_last [OF xs(1) [unfolded y(1)] y(2,4)] y(3) by simp
  then have "handle_append Loop (c\<lparr>cx_msg := m\<rparr>) = Inl NullDeref"
    using r w trm p p' nxt
    by (simp add: handle_append_def st_raft_def word_at_def msg_at_def Let_def update_state_def on_def
        st_tag_def st_when_def st_log_def)
  then show ?thesis using handle_append_message assms(2) by (simp add: next_append_def)
qed

theorem raft_repeated_entry_faults_witness:
  "\<exists>c1. handle_message_raft ((example_raft 3 1)\<lparr>cx_msg := example_append 0 0\<rparr>) = Inr c1 \<and>
    handle_message_raft (c1\<lparr>cx_msg := example_append 0 0\<rparr>) = Inl NullDeref"
proof -
  have n: "next_append (example_raft 3 1) 0 (example_append 0 0)" by code_simp
  obtain c1 where c1: "handle_message_raft ((example_raft 3 1)\<lparr>cx_msg := example_append 0 0\<rparr>) = Inr c1"
    "follower_ok Default_exec_fn ([] @ [payload (example_append 0 0)]) c1" "same_role (example_raft 3 1) c1"
    using follower_step [OF example_follower, of "example_append 0 0"] n by auto
  have "next_append c1 0 (example_append 0 0)" using n c1(3) by (simp add: next_append_def same_role_def)
  with raft_repeated_entry_faults [OF c1(2), of "example_append 0 0"] c1(1) show ?thesis by auto
qed

subsection \<open>Nested handling ends\<close>

text \<open>No statement adds to the messages on their way.\<close>

definition in_le :: "nat \<Rightarrow> raft_ctx res \<Rightarrow> bool" where
  "in_le n r \<longleftrightarrow> (\<forall>c. r = Inr c \<longrightarrow> length (rf_in (cx_rep c)) \<le> n)"

abbreviation inputs :: "raft_ctx \<Rightarrow> nat" where
  "inputs c \<equiv> length (rf_in (cx_rep c))"

named_theorems in_le_rules \<open>the messages on their way do not become more\<close>

lemma in_le_basic [in_le_rules]:
  "in_le n (Inl f)"
  "inputs c \<le> n \<Longrightarrow> in_le n (Inr c)"
  "in_le n r \<Longrightarrow> (\<And>c. inputs c \<le> n \<Longrightarrow> in_le n (g c)) \<Longrightarrow> in_le n (bindr r g)"
  "(b \<Longrightarrow> in_le n r) \<Longrightarrow> (\<not> b \<Longrightarrow> in_le n r') \<Longrightarrow> in_le n (if b then r else r')"
  by (auto simp: in_le_def bindr_eq_Inr)

lemma in_le_value: "(\<And>x. in_le n (g x)) \<Longrightarrow> in_le n (bindr e g)"
  by (auto simp: in_le_def bindr_eq_Inr)

lemma in_le_do_all [in_le_rules]:
  "inputs c \<le> n \<Longrightarrow> in_le n (do_all [] c)"
  "in_le n (f c) \<Longrightarrow> (\<And>c. inputs c \<le> n \<Longrightarrow> in_le n (do_all fs c)) \<Longrightarrow> in_le n (do_all (f # fs) c)"
  by (auto simp: in_le_def bindr_eq_Inr)

lemma in_le_foldr:
  "(\<And>x c. inputs c \<le> n \<Longrightarrow> in_le n (f x c)) \<Longrightarrow> inputs c \<le> n \<Longrightarrow> in_le n (foldr_res f xs c)"
proof (induction xs arbitrary: c)
  case Nil
  then show ?case by (simp add: in_le_def)
next
  case (Cons x xs)
  show ?case unfolding foldr_res.simps
    by (rule in_le_basic(3)) (use Cons in blast)+
qed

lemma in_le_on [in_le_rules]:
  assumes "\<And>c. inputs c \<le> n \<Longrightarrow> in_le n (f c)" and "inputs c \<le> n"
  shows "in_le n (on b f c)"
proof (cases b)
  case Loop
  with assms show ?thesis by (simp add: on_def)
next
  case Buf
  have "in_le n (f (c\<lparr>cx_msg := rf_buf (cx_rep c)\<rparr>))" by (rule assms(1)) (simp add: assms(2))
  with Buf show ?thesis by (auto simp: in_le_def on_def bindr_eq_Inr)
qed

lemma in_le_stmts [in_le_rules]:
  "inputs c \<le> n \<Longrightarrow> in_le n (st_tag t c)" "inputs c \<le> n \<Longrightarrow> in_le n (st_data i v c)"
  "inputs c \<le> n \<Longrightarrow> in_le n (st_send_at xs i c)" "inputs c \<le> n \<Longrightarrow> in_le n (st_term tm l c)"
  "inputs c \<le> n \<Longrightarrow> in_le n (st_print s c)" "inputs c \<le> n \<Longrightarrow> in_le n (st_count c)"
  "inputs c \<le> n \<Longrightarrow> in_le n (st_log g c)" "inputs c \<le> n \<Longrightarrow> in_le n (execute_raft p c)"
  "inputs c \<le> n \<Longrightarrow> in_le n (st_setup xs k c)"
  "(b \<Longrightarrow> in_le n (f c)) \<Longrightarrow> inputs c \<le> n \<Longrightarrow> in_le n (st_when b f c)"
  by (auto simp: in_le_def stmts bindr_eq_Inr st_term_def st_log_def Let_def execute_raft_def st_setup_def
      st_when_def split: option.splits prod.splits)

lemma in_le_raft [in_le_rules]: "(\<And>r. rf_in (f r) = rf_in r) \<Longrightarrow> inputs c \<le> n \<Longrightarrow> in_le n (st_raft f c)"
  by (simp add: in_le_def st_raft_def)

lemma in_le_update_state [in_le_rules]: "inputs c \<le> n \<Longrightarrow> in_le n (update_state t l c)"
  unfolding update_state_def by (rule in_le_raft) auto

lemma in_le_apply [in_le_rules]: "inputs c \<le> n \<Longrightarrow> in_le n (apply_entry c)"
  unfolding apply_entry_def
  by (intro in_le_rules in_le_value; assumption?; simp)

lemma in_le_applied [in_le_rules]: "inputs c \<le> n \<Longrightarrow> in_le n (update_applied_entries c)"
proof -
  have "inputs c \<le> n \<Longrightarrow> in_le n (apply_entries k c)" for k
    by (induction k arbitrary: c) (auto intro!: in_le_rules)
  then show "inputs c \<le> n \<Longrightarrow> in_le n (update_applied_entries c)" by (simp add: update_applied_entries_def)
qed

lemma in_le_commit [in_le_rules]: "inputs c \<le> n \<Longrightarrow> in_le n (update_commit_index_leader c)"
  by (auto simp: in_le_def update_commit_index_leader_def Let_def bindr_eq_Inr)

lemma in_le_answer [in_le_rules]: "inputs c \<le> n \<Longrightarrow> in_le n (answer_append b l i ok c)"
  unfolding answer_append_def Let_def by (intro in_le_rules; assumption?; simp)

lemma in_le_append [in_le_rules]: "inputs c \<le> n \<Longrightarrow> in_le n (handle_append b c)"
  unfolding handle_append_def append_new_def Let_def
  by (intro in_le_rules in_le_value; assumption?; simp)

lemma in_le_resend [in_le_rules]: "inputs c \<le> n \<Longrightarrow> in_le n (resend_entry b rid i ele c)"
  unfolding resend_entry_def Let_def
  by (intro in_le_rules in_le_value in_le_foldr; assumption?; simp)

lemma in_le_response [in_le_rules]: "inputs c \<le> n \<Longrightarrow> in_le n (handle_append_response b c)"
  unfolding handle_append_response_def Let_def
  by (intro in_le_rules in_le_value; assumption?; simp)

lemma in_le_simple [in_le_rules]:
  "inputs c \<le> n \<Longrightarrow> in_le n (handle_setup_raft b c)"
  "inputs c \<le> n \<Longrightarrow> in_le n (handle_empty_append b c)"
  unfolding handle_setup_raft_def handle_empty_append_def
  by (intro in_le_rules in_le_value; assumption?; simp)+

lemma take_from_shorter: "take_from d ms = Some (m, rest) \<Longrightarrow> length rest < length ms"
  by (induction ms arbitrary: rest) (auto split: if_splits)

lemma recv_buf_fewer: "recv_buf d c = Inr c' \<Longrightarrow> inputs c' < inputs c"
  by (auto simp: recv_buf_def dest: take_from_shorter split: option.splits)

lemma in_le_send [in_le_rules]: "inputs c \<le> n \<Longrightarrow> in_le n (send_append b i c)"
  unfolding send_append_def Let_def by (intro in_le_rules in_le_value; assumption?; simp)

lemma in_le_recv:
  assumes "\<And>c. inputs c < n \<Longrightarrow> in_le (inputs c) (h c)" and "inputs c \<le> n"
  shows "in_le n (recv_append h i c)"
  unfolding in_le_def
proof (intro allI impI)
  fix c'
  assume run: "recv_append h i c = Inr c'"
  show "inputs c' \<le> n"
  proof (cases "i = unat (rf_leader (cx_rep c))")
    case True
    with run assms(2) show ?thesis by (simp add: recv_append_def)
  next
    case False
    with run obtain d c1 where "recv_buf d c = Inr c1" "h c1 = Inr c'"
      by (auto simp: recv_append_def Let_def bindr_eq_Inr)
    moreover from this have "inputs c1 < n" using recv_buf_fewer assms(2) by fastforce
    ultimately show ?thesis using assms(1) by (fastforce simp: in_le_def)
  qed
qed

lemma in_le_request:
  assumes "\<And>c. inputs c < n \<Longrightarrow> in_le (inputs c) (h c)" and "inputs c \<le> n"
  shows "in_le n (handle_request_raft h b c)"
  unfolding handle_request_raft_def Let_def
  by (intro in_le_rules in_le_foldr in_le_recv; (rule assms)?; assumption?; (simp add: assms(2))?)

text \<open>Two handlers that agree on fewer messages give the same request handler.\<close>

lemma recv_loop_cong:
  assumes "\<And>c. inputs c < n \<Longrightarrow> h c = h' c" and "\<And>c. inputs c < n \<Longrightarrow> in_le (inputs c) (h c)"
  shows "inputs c \<le> n \<Longrightarrow> foldr_res (recv_append h) is c = foldr_res (recv_append h') is c"
proof (induction "is" arbitrary: c)
  case Nil
  then show ?case by simp
next
  case (Cons i "is")
  have eq: "recv_append h i c = recv_append h' i c"
  proof (cases "i = unat (rf_leader (cx_rep c))")
    case True
    then show ?thesis by (simp add: recv_append_def)
  next
    case False
    have "recv_buf d c = Inr c1 \<Longrightarrow> h c1 = h' c1" for d c1
      using assms(1) recv_buf_fewer Cons.prems by fastforce
    then have "bindr (recv_buf d c) h = bindr (recv_buf d c) h'" for d
      by (cases "recv_buf d c") auto
    then show ?thesis by (simp add: recv_append_def Let_def)
  qed
  show ?case
  proof (cases "recv_append h i c")
    case (Inl f)
    with eq have "recv_append h' i c = Inl f" by simp
    with Inl show ?thesis by simp
  next
    case (Inr c1)
    have "in_le n (recv_append h i c)" by (rule in_le_recv [OF assms(2) Cons.prems])
    with Inr have "inputs c1 \<le> n" by (simp add: in_le_def)
    with Inr eq Cons.IH show ?thesis by simp
  qed
qed

lemma dispatch_cong:
  assumes "\<And>c. inputs c < n \<Longrightarrow> h c = h' c" and "\<And>c. inputs c < n \<Longrightarrow> in_le (inputs c) (h c)" and "inputs c \<le> n"
  shows "dispatch_raft h b c = dispatch_raft h' b c"
proof -
  have "handle_request_raft h b c = handle_request_raft h' b c"
  proof (cases "r_id (cx_rep c) = rf_leader (cx_rep c)")
    case False
    then show ?thesis by (simp add: handle_request_raft_def Let_def)
  next
    case True
    have loop: "in_le n r \<Longrightarrow> bindr r (do_all [foldr_res (recv_append h) is, g]) = bindr r (do_all [foldr_res (recv_append h') is, g])"
      for r "is" g
      using recv_loop_cong [OF assms(1,2)] by (cases r) (simp_all add: in_le_def)
    have snd: "in_le n (bindr (on b (st_tag RAFT_APP) x) (foldr_res (send_append b) is))" if "inputs x \<le> n" for x "is"
      using that by (intro in_le_rules in_le_foldr; assumption?; simp)
    have fs: "do_all (f # fs) = (\<lambda>c. bindr (f c) (do_all fs))" for f :: "raft_ctx \<Rightarrow> raft_ctx res" and fs
      by (rule ext) simp
    have "do_all [on b (st_tag RAFT_APP), foldr_res (send_append b) is, foldr_res (recv_append h) is, g] x =
        do_all [on b (st_tag RAFT_APP), foldr_res (send_append b) is, foldr_res (recv_append h') is, g] x"
      if "inputs x \<le> n" for x "is" g
      using loop [OF snd [OF that, of "is"], of "is" g] by (simp add: bindr_assoc fs)
    moreover have "bindr (st_raft (\<lambda>r. r\<lparr>rf_last_log := rf_last_log r + 1\<rparr>) c)
        (\<lambda>c. st_log (append_entry (request_entry (cx_rep c) (msg_at b c))) c) = Inr x \<Longrightarrow> inputs x \<le> n" for x
      using assms(3) by (auto simp: st_raft_def st_log_def Let_def bindr_eq_Inr)
    ultimately show ?thesis using True
      unfolding handle_request_raft_def Let_def if_P [OF True]
      by (cases "bindr (st_raft (\<lambda>r. r\<lparr>rf_last_log := rf_last_log r + 1\<rparr>) c)
        (\<lambda>c. st_log (append_entry (request_entry (cx_rep c) (msg_at b c))) c)") (simp_all add: bindr_assoc st_raft_def)
  qed
  then show ?thesis by (simp add: dispatch_raft_def Let_def)
qed

lemma in_le_dispatch:
  assumes "\<And>c. inputs c < n \<Longrightarrow> in_le (inputs c) (h c)" and "inputs c \<le> n"
  shows "in_le n (dispatch_raft h b c)"
  unfolding dispatch_raft_def Let_def handle_vote_def handle_vote_response_def
  by (intro in_le_rules in_le_request; (rule assms)?; assumption?; (simp add: assms(2))?)

lemma in_le_handler: "in_le (inputs c) (message_handler_raft n b c)"
proof (induction n arbitrary: b c)
  case 0
  show ?case by (simp add: in_le_dispatch in_le_basic)
next
  case (Suc n)
  then show ?case by (simp add: in_le_dispatch)
qed

lemma enough_nesting: "inputs c \<le> n \<Longrightarrow> message_handler_raft (n + k) b c = message_handler_raft n b c"
proof (induction n arbitrary: b c)
  case 0
  then show ?case by (cases k) (auto intro!: dispatch_cong [where n = 0])
next
  case (Suc n)
  have "dispatch_raft (message_handler_raft (n + k) Buf) b c = dispatch_raft (message_handler_raft n Buf) b c"
    by (rule dispatch_cong [OF _ in_le_handler Suc.prems]) (use Suc.IH in auto)
  then show ?case by simp
qed

text \<open>
  C27: the handler's recursion through the leader's blocking receives ends: a bound of as many
  nested calls as there are messages on their way gives the same result as any larger bound,
  so the bound of the model is never what makes a handler stop.
\<close>

theorem raft_nested_handling_ends:
  assumes "length (rf_in (cx_rep c)) \<le> n"
  shows "message_handler_raft n Loop c = handle_message_raft c"
proof -
  obtain k where "n = length (rf_in (cx_rep c)) + k" using assms le_Suc_ex by blast
  then show ?thesis using enough_nesting [of c "length (rf_in (cx_rep c))" k Loop]
    by (simp add: handle_message_raft_def)
qed

theorem raft_nested_handling_ends_witness:
  "message_handler_raft 5 Loop ((example_raft 3 0)\<lparr>cx_msg := client_request, cx_rep := (cx_rep (example_raft 3 0))
     \<lparr>rf_in := [append_ok 1 1, append_ok 2 1]\<rparr>\<rparr>) = raft_serve 1 (example_raft 3 0)"
  unfolding raft_serve_def by (rule raft_nested_handling_ends) simp

end
