(* ===== verification/Client.thy ===== *)
theory Client
  imports Replica_Base
begin

text \<open>
  The client of the consensus service, \<^verbatim>\<open>client.c\<close>: its set-up, one request, and the benchmark
  that sends requests and averages their round-trip times while a second thread counts the
  measurement periods. A receive is a parameter \<open>recv\<close>, the message that core sends next;
  \<open>buf\<close> is what a new message buffer holds. C's \<^verbatim>\<open>int\<close> fields are 32-bit words.
\<close>

record 'd client =
  cn_id :: "32 word"
  cn_request_count :: u32
  cn_num_replicas :: u8
  cn_num_clients :: u8
  cn_algo :: u8
  cn_algo_below :: u8
  cn_current_core :: u8
  cn_recv_from :: u8
  cn_setup_done :: bool
  cn_last_rid :: u32
  cn_last_payload :: "u64 list"
  cn_msg_buf :: msg
  cn_current_leader :: u8
  cn_first :: bool
  cn_exit :: bool
  cn_topo :: u8
  cn_rt :: "'d incr_stats list"
  cn_current_run :: u8

subsection \<open>Requests and set-up\<close>

definition request_header :: "'d client \<Rightarrow> msg \<Rightarrow> msg" where
  "request_header c m = put_request_id 0 (cn_request_count c)
     (put_client_id 0 (ucast (cn_id c)) (put_tag 0 REQ_TAG m))"

text \<open>The answer overwrites the buffer; nothing in it is checked.\<close>

definition consensus_send_request ::
    "(nat \<Rightarrow> msg) \<Rightarrow> u64 list \<Rightarrow> 'd client \<Rightarrow> ('d client \<times> action list) res" where
  "consensus_send_request recv pl c =
     (let c = c\<lparr>cn_last_payload := pl, cn_last_rid := cn_request_count c\<rparr>;
          m = request_header c (cn_msg_buf c) in
      bindr (foldr_res (\<lambda>j m. bindr (rd pl j) (\<lambda>v. wr m (4 + j) v)) [0..<3] m) (\<lambda>m.
      bindr (wr m 3 (ucast (cn_recv_from c))) (\<lambda>m.
        Inr (c\<lparr>cn_msg_buf := recv (unat (cn_recv_from c)), cn_request_count := cn_request_count c + 1\<rparr>,
             [Send (unat (cn_current_leader c)) m]))))"

definition setup_header :: "'d client \<Rightarrow> msg \<Rightarrow> msg" where
  "setup_header c m = put_client_id 0 (ucast (cn_current_core c)) (put_tag 0 SETUP_TAG m)"

definition init_consensus_client ::
    "'d fops \<Rightarrow> (nat \<Rightarrow> msg) \<Rightarrow> msg \<Rightarrow> 'd client \<Rightarrow> ('d client \<times> action list \<times> 32 word) res" where
  "init_consensus_client F recv buf c =
     (let c = c\<lparr>cn_first := True\<rparr> in
      if cn_setup_done c then Inr (c, [], 0)
      else
        let c = c\<lparr>cn_exit := False, cn_current_run := 0, cn_id := -1, cn_msg_buf := buf,
              cn_request_count := 0, cn_rt := map (init_stats F) (cn_rt c)\<rparr>;
            m = setup_header c (cn_msg_buf c);
            c = c\<lparr>cn_msg_buf := recv (unat (cn_current_leader c))\<rparr> in
        bindr (rd (cn_msg_buf c) 4) (\<lambda>i.
          let c = c\<lparr>cn_id := ucast i, cn_setup_done := True\<rparr> in
          Inr (c, [Send (unat (cn_current_leader c)) m], cn_id c)))"

text \<open>The structure of \<^verbatim>\<open>calloc\<close>.\<close>

definition zero_client :: "'d fops \<Rightarrow> 'd client" where
  "zero_client F = \<lparr>cn_id = 0, cn_request_count = 0, cn_num_replicas = 0, cn_num_clients = 0, cn_algo = 0,
     cn_algo_below = 0, cn_current_core = 0, cn_recv_from = 0, cn_setup_done = False, cn_last_rid = 0,
     cn_last_payload = [], cn_msg_buf = [], cn_current_leader = 0, cn_first = False, cn_exit = False,
     cn_topo = 0, cn_rt = replicate 6 \<lparr>st_min = f_int F 0, st_max = f_int F 0, st_sum = f_int F 0,
       st_sqrsum = f_int F 0, st_n = 0, st_countmin = 0, st_countmax = 0, st_just_reset = 0\<rparr>,
     cn_current_run = 0\<rparr>"

definition init_consensus_client_bench ::
    "'d fops \<Rightarrow> (nat \<Rightarrow> msg) \<Rightarrow> msg \<Rightarrow> int \<Rightarrow> int \<Rightarrow> int \<Rightarrow> int \<Rightarrow> int \<Rightarrow> int \<Rightarrow> int \<Rightarrow> int \<Rightarrow>
     ('d client \<times> action list \<times> 32 word) res" where
  "init_consensus_client_bench F recv buf current_core algo algo_below num_replicas num_clients topo
       last_replica leader =
     init_consensus_client F recv buf ((zero_client F)\<lparr>cn_current_core := word_of_int current_core,
       cn_algo := word_of_int algo, cn_algo_below := word_of_int algo_below,
       cn_num_replicas := word_of_int num_replicas, cn_num_clients := word_of_int num_clients,
       cn_topo := word_of_int topo, cn_recv_from := word_of_int last_replica,
       cn_current_leader := word_of_int leader\<rparr>)"

subsection \<open>The measuring thread\<close>

text \<open>
  One pass of the loop, cut at its \<^verbatim>\<open>sleep\<close>: before it the last run is printed and the next
  one's statistics are reset, after it the run is counted up.
\<close>

definition measure_print ::
    "'d fops \<Rightarrow> u8 \<Rightarrow> 'd client \<Rightarrow> ('d client \<times> 'd out list) res" where
  "measure_print F run c =
     (if cn_first c then Inr (c\<lparr>cn_first := False\<rparr>, [])
      else if run = 0 then Inl OutOfBounds
      else
        bindr (rd (cn_rt c) (unat run - 1)) (\<lambda>s.
        bindr (rd (cn_rt c) (unat run)) (\<lambda>t.
        bindr (wr (cn_rt c) (unat run) (init_stats F t)) (\<lambda>rt.
          Inr (c\<lparr>cn_rt := rt, cn_first := False\<rparr>,
               [Out_vals ''avg rt, stdv, 95% avg'' [get_avg F s, get_std_dev F s, get_conf_interval F s]] @
               (if cn_id c = 0 then [Out_text hash_line] else []))))))"

definition measure_wake :: "'d client \<Rightarrow> 'd client \<times> u8 \<times> bool" where
  "measure_wake c =
     (let c = c\<lparr>cn_current_run := cn_current_run c + 1\<rparr>; run = cn_current_run c in
      if 5 < run then (c\<lparr>cn_exit := True\<rparr>, run, False) else (c, run, True))"

text \<open>What happens when the sleep is over: the next pass starts, unless the loop has ended.\<close>

definition measure_thread :: "'d fops \<Rightarrow> 'd client \<Rightarrow> ('d client \<times> 'd out list) res" where
  "measure_thread F c = (case measure_wake c of (c, run, on) \<Rightarrow>
     if on then measure_print F run c else Inr (c, []))"

subsection \<open>Result files\<close>

definition F_NAME_LEN :: nat where "F_NAME_LEN = 100"

text \<open>\<^verbatim>\<open>%d\<close> of an \<^verbatim>\<open>int\<close>, and \<^verbatim>\<open>snprintf\<close> into a buffer of \<open>n\<close> bytes.\<close>

definition dec_int :: "32 word \<Rightarrow> string" where
  "dec_int w = (if sint w < 0 then ''-'' @ dec (nat (- sint w)) else dec (nat (sint w)))"

definition snprintf :: "nat \<Rightarrow> string \<Rightarrow> string" where
  "snprintf n s = take (n - 1) s"

definition result_dir :: "'d client \<Rightarrow> string" where
  "result_dir c = ''results/rep_'' @ dec (unat (cn_num_replicas c)) @ ''/''"

definition result_name :: "bool \<Rightarrow> 'd client \<Rightarrow> string" where
  "result_name smlt c = result_dir c @ ''client_id_'' @ dec_int (cn_id c) @ ''_algo_'' @
     dec (unat (cn_algo c)) @ ''_below_'' @ dec (unat (cn_algo_below c)) @
     (if smlt then ''_adaptivetree'' else []) @ ''_num_'' @ dec (unat (cn_num_clients c))"

text \<open>
  The file, its name, and the directory it may have to create. The two summaries are
  uninitialised locals, \<open>junk\<close>, before they are reset.
\<close>

definition print_results_file ::
    "'d fops \<Rightarrow> bool \<Rightarrow> bool \<Rightarrow> 'd incr_stats \<Rightarrow> 'd client \<Rightarrow> (string option \<times> string \<times> 'd out list) res" where
  "print_results_file F smlt dir_exists junk c =
     bindr (foldr_res (\<lambda>i (out, avg, stdv). bindr (rd (cn_rt c) i) (\<lambda>s.
              Inr (out @ [Out_vals ''avg rt, stdv, 95% avg'' [get_avg F s, get_std_dev F s, get_conf_interval F s]],
                   stats_add F avg (get_avg F s), stats_add F stdv (get_std_dev F s))))
            [1..<6] ([], init_stats F junk, init_stats F junk)) (\<lambda>(out, avg, stdv).
       Inr (if dir_exists then None else Some (snprintf F_NAME_LEN (result_dir c)),
            snprintf F_NAME_LEN (result_name smlt c),
            [Out_text (''Algo '' @ dec (unat (cn_algo c)) @ '' algo_below '' @ dec (unat (cn_algo_below c)) @
               '' num_clients '' @ dec (unat (cn_num_clients c))), Out_text hash_line] @ out @
            [Out_text ''avg avg_stdv'', Out_vals ''||'' [get_avg F avg, get_avg F stdv]]))"

subsection \<open>The benchmark client\<close>

text \<open>
  One round of the benchmark loop: a request, during which the measuring thread wakes up
  \<open>wakes\<close> times; \<open>cycles\<close> is the difference of the two time stamps. The time is added to
  the run that is current when the answer has arrived.
\<close>

definition bench_round ::
    "'d fops \<Rightarrow> (nat \<Rightarrow> msg) \<Rightarrow> u64 list \<Rightarrow> nat \<Rightarrow> u64 \<Rightarrow> 'd client \<Rightarrow> ('d client \<times> action list) res" where
  "bench_round F recv pl wakes cycles c =
     bindr (consensus_send_request recv pl c) (\<lambda>(c, acts).
     bindr (foldr_res (\<lambda>i c. bindr (measure_thread F c) (\<lambda>(c, out). Inr c)) [0..<wakes] c) (\<lambda>c.
       if cycles < 500000 then
         bindr (rd (cn_rt c) (unat (cn_current_run c))) (\<lambda>s.
         bindr (wr (cn_rt c) (unat (cn_current_run c)) (stats_add F s (f_int F (uint cycles)))) (\<lambda>rt.
           Inr (c\<lparr>cn_rt := rt\<rparr>, acts)))
       else Inr (c, acts)))"

text \<open>
  The thread: set-up, then a round per element of \<open>rounds\<close> until the measuring thread has
  asked it to stop; the rounds left over are returned.
\<close>

fun bench_rounds ::
    "'d fops \<Rightarrow> (nat \<Rightarrow> msg) \<Rightarrow> u64 list \<Rightarrow> (nat \<times> u64) list \<Rightarrow> 'd client \<Rightarrow>
     ('d client \<times> action list \<times> (nat \<times> u64) list) res" where
  "bench_rounds F recv pl [] c = Inr (c, [], [])"
| "bench_rounds F recv pl ((wakes, cycles) # rounds) c =
     (if cn_exit c then Inr (c, [], (wakes, cycles) # rounds)
      else
        bindr (bench_round F recv pl wakes cycles c) (\<lambda>(c, as).
        bindr (bench_rounds F recv pl rounds c) (\<lambda>(c, bs, rest). Inr (c, as @ bs, rest))))"

definition init_benchmark_client ::
    "'d fops \<Rightarrow> (nat \<Rightarrow> msg) \<Rightarrow> msg \<Rightarrow> (nat \<times> u64) list \<Rightarrow> bench_args \<Rightarrow>
     ('d client \<times> action list \<times> (nat \<times> u64) list) res" where
  "init_benchmark_client F recv buf rounds a =
     bindr (init_consensus_client_bench F recv buf (uint (ba_core a)) (uint (ba_protocol a))
              (uint (ba_protocol_below a)) (uint (ba_num_replicas a)) (uint (ba_num_clients a))
              (uint (ba_topo a)) (uint (ba_recv_from a)) (uint (ba_leader a))) (\<lambda>(c, as, i).
     bindr (measure_print F 0 c) (\<lambda>(c, out).
     bindr (bench_rounds F recv [0, 0, 0] rounds c) (\<lambda>(c, bs, rest). Inr (c, as @ bs, rest))))"

subsection \<open>Properties\<close>

lemma three: "[0..<3] = [0, 1, 2 :: nat]"
  by (simp add: upt_rec)

lemma three_elems: "length xs = 3 \<Longrightarrow> \<exists>x y z. xs = [x, y, z]"
  by (auto simp: length_Suc_conv numeral_3_eq_3)

lemma send_request_eq:
  assumes "wf_msg (cn_msg_buf c)" and "length pl = 3"
  shows "consensus_send_request recv pl c =
    (let m = (request_header c (cn_msg_buf c))[4 := pl ! 0, 5 := pl ! 1, 6 := pl ! 2, 3 := ucast (cn_recv_from c)] in
     Inr (c\<lparr>cn_last_payload := pl, cn_last_rid := cn_request_count c,
            cn_msg_buf := recv (unat (cn_recv_from c)), cn_request_count := cn_request_count c + 1\<rparr>,
          [Send (unat (cn_current_leader c)) m]))"
proof -
  have "length (request_header c' (cn_msg_buf c)) = 7" for c' :: "'b client"
    using assms(1) by (simp add: request_header_def wf_msg_def put_tag_def put_client_id_def put_request_id_def)
  then show ?thesis using assms
    by (simp add: consensus_send_request_def request_header_def Let_def three)
qed

text \<open>
  C28: setting up a client and a replica fit together: the replica answers a set-up message with
  the client's index in its list of clients, the client takes that index as its id, and the
  core the replica will answer requests with that id to is the client's own.
\<close>

theorem client_setup_gives_index:
  assumes "distinct clients" and "k < unat n" and "unat n \<le> length clients"
    and "clients ! k = cn_current_core c" and "\<not> cn_setup_done c" and "wf_msg buf"
  shows "\<exists>m' r' c'. st_setup clients n (r\<lparr>cx_msg := setup_header c buf\<rparr>) = Inr r' \<and>
    cx_acts r' = cx_acts r @ [Send (unat (cn_current_core c)) m'] \<and>
    (recv (unat (cn_current_leader c)) = m' \<longrightarrow>
      init_consensus_client F recv buf c = Inr (c', [Send (unat (cn_current_leader c)) (setup_header c buf)], of_nat k) \<and>
      cn_id c' = of_nat k \<and> cn_setup_done c' \<and>
      clients ! unat (ucast (cn_id c') :: u16) = cn_current_core c)"
proof -
  let ?m = "setup_header c buf" and ?m' = "(setup_header c buf)[4 := of_nat k]"
  have wf: "wf_msg ?m" "wf_msg ?m'" "msg_cid ?m = ucast (cn_current_core c)"
    using assms(6) by (simp_all add: setup_header_def hdr)
  have k: "k < 256" using assms(2) unat_8_less [of n] by linarith
  have "last_client clients (unat n) (msg_cid ?m) = Some k"
    by (rule last_client_distinct [OF assms(1-3)]) (simp add: assms(4) wf(3))
  then have r: "st_setup clients n (r\<lparr>cx_msg := ?m\<rparr>) =
      Inr (r\<lparr>cx_msg := ?m', cx_acts := cx_acts r @ [Send (unat (cn_current_core c)) ?m']\<rparr>)"
    using wf by (simp add: st_setup_eq [OF _ assms(3)] Let_def)
  have i: "rd ?m' 4 = Inr (of_nat k)" using wf(1) by (simp add: wf_msg_def)
  have "unat (of_nat k :: u64) = k" by (rule unat_of_nat_u64) (use k in simp)
  moreover have "take_bit 32 k = k" using k by (simp add: take_bit_nat_eq_self)
  ultimately have "unat (ucast (of_nat k :: u64) :: 32 word) = k" by (simp add: unsigned_ucast_eq)
  moreover have k32: "unat (of_nat k :: 32 word) = k" using k by (simp add: unat_of_nat take_bit_nat_eq_self)
  ultimately have w: "(ucast (of_nat k :: u64) :: 32 word) = of_nat k"
    by (intro word_unat_eq_iff [THEN iffD2]) simp
  from k32 have x: "unat (ucast (of_nat k :: 32 word) :: u16) = k"
    using k by (simp add: unsigned_ucast_eq take_bit_nat_eq_self)
  let ?c1 = "c\<lparr>cn_first := True, cn_exit := False, cn_current_run := 0, cn_id := -1, cn_msg_buf := buf,
      cn_request_count := 0, cn_rt := map (init_stats F) (cn_rt c)\<rparr>"
  let ?c' = "?c1\<lparr>cn_msg_buf := ?m', cn_id := of_nat k, cn_setup_done := True\<rparr>"
  have "recv (unat (cn_current_leader c)) = ?m' \<longrightarrow> init_consensus_client F recv buf c =
      Inr (?c', [Send (unat (cn_current_leader c)) ?m], of_nat k)"
    using assms(5) i w by (simp add: init_consensus_client_def setup_header_def Let_def)
  with r x assms(4) show ?thesis by (intro exI [of _ ?m'] exI [of _ "r\<lparr>cx_msg := ?m', cx_acts := cx_acts r @ [Send (unat (cn_current_core c)) ?m']\<rparr>"]
      exI [of _ ?c']) simp
qed

theorem client_setup_gives_index_witness:
  "\<exists>m' r' c'. st_setup [7, 9] 2 ((start_ctx zero_replica zero_layer)\<lparr>cx_msg :=
      setup_header ((zero_client real_ops)\<lparr>cn_current_core := 9\<rparr>) (replicate 7 0)\<rparr>) = Inr r' \<and>
    cx_acts r' = [Send 9 m'] \<and>
    init_consensus_client real_ops (\<lambda>_. m') (replicate 7 0) ((zero_client real_ops)\<lparr>cn_current_core := 9\<rparr>) =
      Inr (c', [Send 0 (setup_header ((zero_client real_ops)\<lparr>cn_current_core := 9\<rparr>) (replicate 7 0))], 1)"
proof -
  let ?c = "(zero_client real_ops)\<lparr>cn_current_core := 9\<rparr>"
  have c: "cn_current_core ?c = 9" "\<not> cn_setup_done ?c" "cn_current_leader ?c = 0"
    by (simp_all add: zero_client_def)
  have "unat (2 :: u8) = 2" "wf_msg (replicate 7 0)" by (simp_all add: wf_msg_def)
  with client_setup_gives_index [of "[7, 9]" 1 2 ?c "replicate 7 0" "start_ctx zero_replica zero_layer" "\<lambda>_. []" real_ops]
  obtain m' r' where r: "st_setup [7, 9] 2 ((start_ctx zero_replica zero_layer)\<lparr>cx_msg := setup_header ?c (replicate 7 0)\<rparr>) = Inr r'"
    "cx_acts r' = [Send 9 m']" using c by (auto simp: start_ctx_def)
  show ?thesis
    using client_setup_gives_index [of "[7, 9]" 1 2 ?c "replicate 7 0" "start_ctx zero_replica zero_layer" "\<lambda>_. m'" real_ops] r c
    by (auto simp: start_ctx_def wf_msg_def)
qed

text \<open>
  A request carries its tag, the client's id, its number and the command, and in
  \<^verbatim>\<open>data[3]\<close> the core the client waits for; the next request gets the next number.
\<close>

theorem client_request_header:
  assumes "wf_msg (cn_msg_buf c)" and "length pl = 3"
  shows "\<exists>c' m. consensus_send_request recv pl c = Inr (c', [Send (unat (cn_current_leader c)) m]) \<and>
    wf_msg m \<and> msg_tag m = REQ_TAG \<and> msg_cid m = ucast (cn_id c) \<and> msg_rid m = cn_request_count c \<and>
    payload m = pl \<and> m ! 3 = ucast (cn_recv_from c) \<and>
    cn_request_count c' = cn_request_count c + 1 \<and> cn_msg_buf c' = recv (unat (cn_recv_from c))"
proof -
  let ?h = "request_header c (cn_msg_buf c)"
  have h: "wf_msg ?h" "msg_tag ?h = REQ_TAG" "msg_cid ?h = ucast (cn_id c)" "msg_rid ?h = cn_request_count c"
    using assms(1) by (simp_all add: request_header_def hdr)
  obtain x y z where pl: "pl = [x, y, z]" using three_elems [OF assms(2)] by blast
  have "length (drop 4 ?h) = 3" using h(1) by (simp add: wf_msg_def)
  then obtain a b d where "drop 4 ?h = [a, b, d]" using three_elems by blast
  then have "payload (?h[4 := x, 5 := y, 6 := z, 3 := w]) = [x, y, z]" for w
    by (simp add: payload_def drop_update_swap list_update_numeral)
  moreover have "(?h[4 := x, 5 := y, 6 := z, 3 := w]) ! 3 = w" for w
    using h(1) by (simp add: wf_msg_def)
  ultimately show ?thesis using h send_request_eq [OF assms, of recv]
    by (simp add: Let_def pl hdr)
qed

theorem client_request_header_witness:
  "\<exists>c' m. consensus_send_request (\<lambda>_. replicate 7 0) [1, 2, 3] ((zero_client real_ops)\<lparr>cn_msg_buf := replicate 7 0\<rparr>) =
     Inr (c', [Send 0 m]) \<and> msg_tag m = REQ_TAG \<and> payload m = [1, 2, 3]"
  using client_request_header [of "(zero_client real_ops)\<lparr>cn_msg_buf := replicate 7 0\<rparr>" "[1, 2, 3]" "\<lambda>_. replicate 7 0"]
  by (auto simp: wf_msg_def zero_client_def)

text \<open>A client in its \<open>k\<close>-th measurement period.\<close>

definition in_run :: "nat \<Rightarrow> 'd client \<Rightarrow> bool" where
  "in_run k c \<longleftrightarrow> cn_current_run c = of_nat k \<and> length (cn_rt c) = 6 \<and> (cn_exit c \<longleftrightarrow> 6 \<le> k) \<and> \<not> cn_first c"

lemma measure_step:
  assumes "in_run k c" and "k < 6"
  shows "\<exists>c' out. measure_thread F c = Inr (c', out) \<and> in_run (k + 1) c'"
proof -
  have k: "unat (of_nat k :: u8) = k" "unat (of_nat (k + 1) :: u8) = k + 1" by (rule small_word; use assms(2) in simp)+
  have run: "cn_current_run c + 1 = of_nat (k + 1)" using assms(1) by (simp add: in_run_def)
  have six: "5 < (of_nat (k + 1) :: u8) \<longleftrightarrow> 6 \<le> k + 1" unfolding word_less_nat_alt k(2) by auto
  show ?thesis
  proof (cases "6 \<le> k + 1")
    case True
    with assms run six show ?thesis
      by (auto simp: measure_thread_def measure_wake_def Let_def in_run_def simp del: of_nat_add of_nat_Suc)
  next
    case False
    have "(of_nat (k + 1) :: u8) \<noteq> 0" using k(2) by (metis Suc_eq_plus1 nat.distinct(1) unsigned_0)
    with False assms run six k show ?thesis
      by (auto simp: measure_thread_def measure_wake_def measure_print_def Let_def in_run_def simp del: of_nat_add of_nat_Suc)
  qed
qed

lemma measure_steps:
  "in_run k c \<Longrightarrow> k + w \<le> 6 \<Longrightarrow>
   \<exists>c'. foldr_res (\<lambda>i c. bindr (measure_thread F c) (\<lambda>(c, out). Inr c)) [0..<w] c = Inr c' \<and> in_run (k + w) c'"
proof (induction w)
  case 0
  then show ?case by auto
next
  case (Suc w)
  then obtain c1 where c1: "foldr_res (\<lambda>i c. bindr (measure_thread F c) (\<lambda>(c, out). Inr c)) [0..<w] c = Inr c1" "in_run (k + w) c1"
    by auto
  from measure_step [OF c1(2)] Suc.prems(2) obtain c' out where "measure_thread F c1 = Inr (c', out)" "in_run (k + w + 1) c'"
    by force
  with c1(1) show ?case by (auto simp: foldr_res_snoc)
qed

text \<open>
  C36: the benchmark loop records round-trip times inside its array during the first five
  periods; an answer that arrives after the sixth wake-up of the measuring thread and is fast
  enough to be recorded writes past the end of the array, for that wake-up has already moved
  to run 6.
\<close>

theorem client_late_answer_out_of_bounds:
  assumes "in_run k c" and "k < 6" and "k + wakes \<le> 6" and "wf_msg (cn_msg_buf c)" and "length pl = 3"
  shows "if k + wakes = 6 \<and> cycles < 500000 then bench_round F recv pl wakes cycles c = Inl OutOfBounds
    else \<exists>c' as. bench_round F recv pl wakes cycles c = Inr (c', as) \<and> in_run (k + wakes) c'"
proof -
  let ?c1 = "c\<lparr>cn_last_payload := pl, cn_last_rid := cn_request_count c,
      cn_msg_buf := recv (unat (cn_recv_from c)), cn_request_count := cn_request_count c + 1\<rparr>"
  have "in_run k ?c1" using assms(1) by (simp add: in_run_def)
  from measure_steps [OF this assms(3), of F] obtain c2 where
    c2: "foldr_res (\<lambda>i c. bindr (measure_thread F c) (\<lambda>(c, out). Inr c)) [0..<wakes] ?c1 = Inr c2" "in_run (k + wakes) c2"
    by blast
  have run: "unat (cn_current_run c2) = k + wakes" "length (cn_rt c2) = 6"
    using c2(2) assms(3) small_word [of "k + wakes"] by (auto simp: in_run_def simp del: of_nat_add)
  have "in_run (k + wakes) (c2\<lparr>cn_rt := x\<rparr>)" if "length x = 6" for x
    using c2(2) that by (simp add: in_run_def)
  then show ?thesis using c2 run assms(3)
    by (auto simp: bench_round_def send_request_eq [OF assms(4,5)] Let_def)
qed

theorem client_late_answer_out_of_bounds_witness:
  "bench_round real_ops (\<lambda>_. replicate 7 0) [0, 0, 0] 1 1000
     ((zero_client real_ops)\<lparr>cn_msg_buf := replicate 7 0, cn_current_run := 5\<rparr>) = Inl OutOfBounds"
proof -
  let ?c = "(zero_client real_ops)\<lparr>cn_msg_buf := replicate 7 0, cn_current_run := 5\<rparr>"
  have "in_run 5 ?c" by (simp add: in_run_def zero_client_def)
  from client_late_answer_out_of_bounds [OF this, of 1 "[0, 0, 0]" 1000 real_ops "\<lambda>_. replicate 7 0"]
  show ?thesis by (simp add: wf_msg_def)
qed

end
