(* ===== verification/Kvs.thy ===== *)
theory Kvs
  imports Client
begin

text \<open>
  The replicated key-value store: \<^verbatim>\<open>kvs_replica.c\<close>, whose application function writes a pair
  of words per key into the replica's memory, and \<^verbatim>\<open>kvs_client.c\<close>, which sends writes to the
  consensus service and reads a replica's memory directly. \<^verbatim>\<open>kvs_memory\<close> is shared by all
  threads of the process: entry \<open>i\<close> is the memory replica \<open>i\<close> has allocated.
\<close>

definition MAX_REPLICAS :: nat where "MAX_REPLICAS = 64"
definition KVS_MEM_SIZE :: nat where "KVS_MEM_SIZE = 16384"

type_synonym kvs_memory = "u64 list option list"

definition mem_slot :: "kvs_memory \<Rightarrow> 32 word \<Rightarrow> u64 list option res" where
  "mem_slot mem i = (if sint i < 0 then Inl OutOfBounds else rd mem (unat i))"

definition deref_mem :: "u64 list option \<Rightarrow> u64 list res" where
  "deref_mem m = (case m of None \<Rightarrow> Inl NullDeref | Some xs \<Rightarrow> Inr xs)"

subsection \<open>The replica\<close>

text \<open>The thread-local variables of a replica, C \<^verbatim>\<open>int\<close>s.\<close>

record kvs_replica =
  kv_id :: "32 word"
  kv_size :: "32 word"
  kv_max_key :: "32 word"

text \<open>The application function, on the command \<open>pl\<close>.\<close>

definition kvs_exec_fn :: "kvs_replica \<Rightarrow> u64 list \<Rightarrow> kvs_memory \<Rightarrow> (kvs_memory \<times> string list) res" where
  "kvs_exec_fn r pl mem =
     bindr (mem_slot mem (kv_id r)) (\<lambda>slot.
     bindr (rd pl 0) (\<lambda>key.
       if (scast (kv_max_key r) :: u64) < key then Inr (mem, [''Key too large''])
       else
         bindr (rd pl 1) (\<lambda>v1.
         bindr (rd pl 2) (\<lambda>v2.
         bindr (deref_mem slot) (\<lambda>kvs.
         bindr (wr kvs (unat (2 * key)) v1) (\<lambda>kvs.
         bindr (wr kvs (unat (2 * key + 1)) v2) (\<lambda>kvs.
           Inr (mem[unat (kv_id r) := Some kvs], []))))))))"

text \<open>
  \<open>alloc\<close> is the result of \<^verbatim>\<open>numa_alloc_local(kvs_size)\<close> and \<open>fn\<close> the address of the application
  function, which \<^verbatim>\<open>init_replica\<close> finds in the arguments.
\<close>

definition init_kvs_replica ::
    "exec_fn \<Rightarrow> u64 list option \<Rightarrow> cons_args \<Rightarrow> kvs_memory \<Rightarrow> (kvs_replica \<times> cons_args \<times> kvs_memory) res" where
  "init_kvs_replica fn alloc a mem =
     (let r = \<lparr>kv_id = ucast (a_id a), kv_size = of_nat KVS_MEM_SIZE,
            kv_max_key = of_nat (KVS_MEM_SIZE div 16)\<rparr> in
      bindr (wr mem (unat (a_id a)) alloc) (\<lambda>mem.
        if alloc = None then Inl AssertFail
        else Inr (r, a\<lparr>a_exec_func := Some fn\<rparr>, mem)))"

subsection \<open>The client\<close>

text \<open>\<open>kc_local\<close> is the entry of \<^verbatim>\<open>kvs_memory\<close> the pointer \<^verbatim>\<open>local_mem\<close> was taken from.\<close>

record 'd kvs_client =
  kc_id :: "32 word"
  kc_num_clients :: "32 word"
  kc_local :: "32 word"
  kc_run :: "32 word"
  kc_first :: bool
  kc_exit :: bool
  kc_num_reads :: u64
  kc_num_writes :: u64
  kc_num_large :: u64
  kc_w_rt :: "'d incr_stats list"
  kc_r_rt :: "'d incr_stats list"
  kc_r_tp :: "'d incr_stats"
  kc_w_tp :: "'d incr_stats"

definition kvs_get :: "kvs_memory \<Rightarrow> u64 \<Rightarrow> 'd kvs_client \<Rightarrow> (u64 \<times> u64) res" where
  "kvs_get mem key c =
     bindr (bindr (mem_slot mem (kc_local c)) deref_mem) (\<lambda>kvs.
     bindr (rd kvs (unat (key * 2))) (\<lambda>v1.
     bindr (rd kvs (unat (key * 2 + 1))) (\<lambda>v2. Inr (v1, v2))))"

definition kvs_set ::
    "(nat \<Rightarrow> msg) \<Rightarrow> u64 \<Rightarrow> u64 \<times> u64 \<Rightarrow> 'd client \<Rightarrow> ('d client \<times> action list) res" where
  "kvs_set recv key val = consensus_send_request recv [key, fst val, snd val]"

text \<open>\<open>numa\<close> is \<^verbatim>\<open>numa_node_of_cpu(current_core)\<close>, and \<open>junk\<close> what \<^verbatim>\<open>malloc\<close> leaves: \<^verbatim>\<open>run\<close> is not set.\<close>

definition init_kvs_client ::
    "'d fops \<Rightarrow> (nat \<Rightarrow> msg) \<Rightarrow> msg \<Rightarrow> kvs_memory \<Rightarrow> 32 word \<Rightarrow> 'd kvs_client \<Rightarrow>
     int \<Rightarrow> int \<Rightarrow> int \<Rightarrow> int \<Rightarrow> int \<Rightarrow> int \<Rightarrow> int \<Rightarrow> int \<Rightarrow>
     ('d kvs_client \<times> 'd client \<times> action list) res" where
  "init_kvs_client F recv buf mem numa junk current_core algo algo_below num_replicas num_clients topo
       last_replica leader =
     (let k = junk\<lparr>kc_local := numa\<rparr> in
      bindr (if sint numa < 0 then Inl OutOfBounds else rd mem (unat numa)) (\<lambda>m.
        if m = None then Inl AssertFail
        else
          let k = k\<lparr>kc_first := True, kc_exit := False, kc_num_reads := 0, kc_num_large := 0,
                kc_num_writes := 0, kc_num_clients := word_of_int num_clients\<rparr> in
          bindr (init_consensus_client_bench F recv buf current_core algo algo_below num_replicas
                   num_clients topo last_replica leader) (\<lambda>(c, as, i).
            Inr (k\<lparr>kc_id := i\<rparr>, c, as))))"

text \<open>An \<^verbatim>\<open>int\<close> index into an array of statistics.\<close>

definition stat_at :: "'d incr_stats list \<Rightarrow> int \<Rightarrow> 'd incr_stats res" where
  "stat_at xs i = (if i < 0 then Inl OutOfBounds else rd xs (nat i))"

text \<open>One pass of the measuring thread up to its \<^verbatim>\<open>sleep\<close>, and what follows the sleep.\<close>

definition kvs_measure_print :: "'d fops \<Rightarrow> 'd kvs_client \<Rightarrow> ('d kvs_client \<times> 'd out list) res" where
  "kvs_measure_print F c =
     bindr (if kc_first c then Inr (c, [])
       else
         let per_sec = (\<lambda>n :: u64. f_div F (f_int F (uint n)) (f_int F 20)) in
         bindr (stat_at (kc_w_rt c) (sint (kc_run c) - 1)) (\<lambda>w.
         bindr (stat_at (kc_r_rt c) (sint (kc_run c) - 1)) (\<lambda>r.
           Inr (if 1 < sint (kc_run c)
                then c\<lparr>kc_r_tp := stats_add F (kc_r_tp c) (per_sec (kc_num_reads c)),
                       kc_w_tp := stats_add F (kc_w_tp c) (per_sec (kc_num_writes c))\<rparr>
                else c,
                [Out_vals ''w_rt, r_rt, w_tp, r_tp, stdv, large'' [get_avg F w, get_avg F r,
                  per_sec (kc_num_writes c), per_sec (kc_num_reads c), get_std_dev F w, per_sec (kc_num_large c)]] @
                (if kc_id c = 0 then [Out_text hash_line] else []))))) (\<lambda>(c, out).
       Inr (c\<lparr>kc_first := False, kc_run := kc_run c + 1, kc_num_reads := 0, kc_num_writes := 0,
              kc_num_large := 0\<rparr>, out))"

definition kvs_measure_wake :: "'d fops \<Rightarrow> 'd kvs_client \<Rightarrow> ('d kvs_client \<times> 'd out list) res" where
  "kvs_measure_wake F c = (if 5 < sint (kc_run c) then Inr (c\<lparr>kc_exit := True\<rparr>, []) else kvs_measure_print F c)"

definition kvs_file_name :: "bool \<Rightarrow> 'd kvs_client \<Rightarrow> string" where
  "kvs_file_name smlt c = ''results/client_kvs'' @ (if smlt then ''_adaptivetree'' else []) @ ''_id_'' @
     dec_int (kc_id c) @ ''_num_'' @ dec_int (kc_num_clients c)"

definition kvs_print_results_file ::
    "'d fops \<Rightarrow> bool \<Rightarrow> 'd incr_stats \<Rightarrow> 'd kvs_client \<Rightarrow> (string \<times> 'd out list) res" where
  "kvs_print_results_file F smlt junk c =
     (let z = init_stats F junk in
      bindr (foldr_res (\<lambda>i (out, wa, wd, ra, rs).
               bindr (rd (kc_w_rt c) i) (\<lambda>w. bindr (rd (kc_r_rt c) i) (\<lambda>r.
               Inr (out @ [Out_vals ''w_rt stdv, r_rt stdv'' [get_avg F w, get_std_dev F w, get_avg F r, get_std_dev F r]],
                    stats_add F wa (get_avg F w), stats_add F wd (get_std_dev F w),
                    stats_add F ra (get_avg F r), stats_add F rs (get_std_dev F r)))))
             [2..<6] ([], z, z, z, z)) (\<lambda>(out, wa, wd, ra, rs).
        Inr (kvs_file_name smlt c,
             [Out_text (''Client id '' @ dec_int (kc_id c) @ '' num_clients '' @ dec_int (kc_num_clients c)),
              Out_text hash_line] @ out @
             [Out_text ''w_rt stdv w_tp stdv r_rt stdv r_tp stdv'',
              Out_vals ''||'' [get_avg F wa, get_avg F wd, get_avg F (kc_w_tp c), get_std_dev F (kc_w_tp c),
                get_avg F ra, get_avg F rs, get_avg F (kc_r_tp c), get_std_dev F (kc_r_tp c)]])))"

subsection \<open>The benchmark client\<close>

text \<open>Adding a time to the statistics of the current run.\<close>

definition add_run :: "'d fops \<Rightarrow> u64 \<Rightarrow> 32 word \<Rightarrow> 'd incr_stats list \<Rightarrow> 'd incr_stats list res" where
  "add_run F cycles run xs = bindr (stat_at xs (sint run)) (\<lambda>s.
     wr xs (nat (sint run)) (stats_add F s (f_int F (uint cycles))))"

type_synonym 'd kvs_bench = "'d kvs_client \<times> 'd client \<times> action list"

definition timed_set ::
    "'d fops \<Rightarrow> (nat \<Rightarrow> msg) \<Rightarrow> u64 \<Rightarrow> u64 \<times> u64 \<Rightarrow> u64 \<Rightarrow> 'd kvs_bench \<Rightarrow> 'd kvs_bench res" where
  "timed_set F recv key val cycles = (\<lambda>(k, c, as).
     bindr (kvs_set recv key val c) (\<lambda>(c, bs).
       let k = k\<lparr>kc_num_writes := kc_num_writes k + 1\<rparr> in
       if cycles < 500000 then
         bindr (add_run F cycles (kc_run k) (kc_w_rt k)) (\<lambda>w. Inr (k\<lparr>kc_w_rt := w\<rparr>, c, as @ bs))
       else Inr (k\<lparr>kc_num_large := kc_num_large k + 1\<rparr>, c, as @ bs)))"

definition timed_get :: "'d fops \<Rightarrow> kvs_memory \<Rightarrow> u64 \<Rightarrow> u64 \<Rightarrow> 'd kvs_bench \<Rightarrow> 'd kvs_bench res" where
  "timed_get F mem key cycles = (\<lambda>(k, c, as).
     bindr (kvs_get mem key k) (\<lambda>val.
     bindr (add_run F cycles (kc_run k) (kc_r_rt k)) (\<lambda>r.
       Inr (k\<lparr>kc_r_rt := r, kc_num_reads := kc_num_reads k + 1\<rparr>, c, as))))"

text \<open>
  A round for the random number \<open>rnd\<close>: two writes and eight reads of one key; \<open>wc\<close> and \<open>rc\<close>
  are their times, and \<open>mem\<close> the shared memory during the reads.
\<close>

definition kvs_round ::
    "'d fops \<Rightarrow> (nat \<Rightarrow> msg) \<Rightarrow> kvs_memory \<Rightarrow> nat \<Rightarrow> (nat \<Rightarrow> u64) \<Rightarrow> (nat \<Rightarrow> u64) \<Rightarrow> 'd kvs_bench \<Rightarrow> 'd kvs_bench res" where
  "kvs_round F recv mem rnd wc rc b =
     (let key = (of_nat (rnd mod 50) :: u64) in
      bindr (foldr_res (\<lambda>i. timed_set F recv key (key, 22) (wc i)) [0..<2] b)
        (foldr_res (\<lambda>i. timed_get F mem key (rc i)) [0..<8]))"

text \<open>The loop, interleaved with the wake-ups of the measuring thread.\<close>

datatype kvs_event = Round kvs_memory nat "nat \<Rightarrow> u64" "nat \<Rightarrow> u64" | Wake

fun kvs_events ::
    "'d fops \<Rightarrow> (nat \<Rightarrow> msg) \<Rightarrow> kvs_event list \<Rightarrow> 'd kvs_bench \<Rightarrow> ('d kvs_bench \<times> kvs_event list) res" where
  "kvs_events F recv [] b = Inr (b, [])"
| "kvs_events F recv (Wake # es) b = (case b of (k, c, as) \<Rightarrow>
     bindr (kvs_measure_wake F k) (\<lambda>(k, out). kvs_events F recv es (k, c, as)))"
| "kvs_events F recv (Round mem rnd wc rc # es) b =
     (if kc_exit (fst b) then Inr (b, Round mem rnd wc rc # es)
      else bindr (kvs_round F recv mem rnd wc rc b) (kvs_events F recv es))"

definition init_benchmark_kvs_client ::
    "'d fops \<Rightarrow> (nat \<Rightarrow> msg) \<Rightarrow> msg \<Rightarrow> kvs_memory \<Rightarrow> 32 word \<Rightarrow> 'd kvs_client \<Rightarrow> kvs_event list \<Rightarrow> bench_args \<Rightarrow>
     ('d kvs_bench \<times> kvs_event list) res" where
  "init_benchmark_kvs_client F recv buf mem numa junk es a =
     bindr (init_kvs_client F recv buf mem numa junk (uint (ba_core a)) (uint (ba_protocol a))
              (uint (ba_protocol_below a)) (uint (ba_num_replicas a)) (uint (ba_num_clients a))
              (uint (ba_topo a)) (uint (ba_recv_from a)) (uint (ba_leader a))) (\<lambda>(k, c, as).
     bindr (kvs_measure_print F k) (\<lambda>(k, out).
       let k = k\<lparr>kc_r_rt := map (init_stats F) (kc_r_rt k), kc_w_rt := map (init_stats F) (kc_w_rt k),
             kc_r_tp := init_stats F (kc_r_tp k), kc_w_tp := init_stats F (kc_w_tp k)\<rparr> in
       kvs_events F recv es (k, c, as)))"

subsection \<open>The store as a map\<close>

definition kv_replica_of :: "nat \<Rightarrow> kvs_replica" where
  "kv_replica_of i = \<lparr>kv_id = of_nat i, kv_size = 16384, kv_max_key = 1024\<rparr>"

text \<open>Replica \<open>i\<close> has allocated its memory.\<close>

definition has_store :: "nat \<Rightarrow> u64 list \<Rightarrow> kvs_memory \<Rightarrow> bool" where
  "has_store i kvs mem \<longleftrightarrow> i < length mem \<and> length mem = 64 \<and> mem ! i = Some kvs \<and> length kvs = 2048"

definition kv_abs :: "u64 list \<Rightarrow> nat \<Rightarrow> (u64 \<times> u64) option" where
  "kv_abs kvs k = (if k < 1024 then Some (kvs ! (2 * k), kvs ! (2 * k + 1)) else None)"

lemma store_id:
  assumes "has_store i kvs mem"
  shows "i < 64" "unat (of_nat i :: 32 word) = i" "mem_slot mem (of_nat i) = Inr (Some kvs)"
proof -
  show i: "i < 64" using assms by (simp add: has_store_def)
  then show u: "unat (of_nat i :: 32 word) = i" by (simp add: unat_of_nat take_bit_nat_eq_self)
  have "0 \<le> sint (of_nat i :: 32 word)" using i
    by (simp add: signed_of_nat signed_take_bit_int_eq_self)
  with u assms show "mem_slot mem (of_nat i) = Inr (Some kvs)" by (simp add: mem_slot_def has_store_def)
qed

lemma key_words:
  assumes "unat (k :: u64) \<le> 1024"
  shows "unat (2 * k) = 2 * unat k" "unat (2 * k + 1) = 2 * unat k + 1"
  using assms by (simp_all add: unat_word_ariths)

text \<open>A write as the store's abstraction sees it.\<close>

definition put :: "u64 list \<Rightarrow> u64 \<Rightarrow> u64 \<times> u64 \<Rightarrow> u64 list" where
  "put kvs k v = kvs[2 * unat k := fst v, 2 * unat k + 1 := snd v]"

lemma put_abs: "length kvs = 2048 \<Longrightarrow> unat k < 1024 \<Longrightarrow> kv_abs (put kvs k v) = (kv_abs kvs)(unat k \<mapsto> v)"
proof -
  assume len: "length kvs = 2048" and k: "unat k < 1024"
  have "2 * j \<noteq> 2 * unat k + 1" "2 * unat k \<noteq> 2 * j + 1" for j by presburger+
  then show ?thesis using len k by (auto simp: kv_abs_def put_def fun_eq_iff nth_list_update)
qed

lemma put_store: "has_store i kvs mem \<Longrightarrow> has_store i (put kvs k v) (mem[i := Some (put kvs k v)])"
  by (simp add: has_store_def put_def)

lemma unat_eq_1024: "unat (k :: u64) = 1024 \<longleftrightarrow> k = 1024"
  by (simp add: word_unat_eq_iff)

lemma key_limit: "(scast (1024 :: 32 word) :: u64) < k \<longleftrightarrow> 1024 < unat k"
  by (simp add: word_less_nat_alt)

lemma kvs_exec_put:
  assumes "has_store i kvs mem" and "unat k < 1024"
  shows "kvs_exec_fn (kv_replica_of i) [k, fst v, snd v] mem = Inr (mem[i := Some (put kvs k v)], [])"
proof -
  have "unat k \<le> 1024" using assms(2) by simp
  note kw = key_words [OF this] and st = store_id [OF assms(1)]
  have len: "length kvs = 2048" using assms(1) by (simp add: has_store_def)
  have lim: "\<not> (scast (1024 :: 32 word) :: u64) < k" unfolding key_limit using assms(2) by simp
  show ?thesis using lim st len assms(2)
    by (simp add: kvs_exec_fn_def kv_replica_of_def kw deref_mem_def put_def)
qed

subsection \<open>Properties\<close>

text \<open>
  C21: the application function of replica \<open>i\<close> implements the update of a map with the keys
  0 to 1023 and leaves the other replicas' memories alone; key 1024 passes the bounds test
  and is written past the end of the memory; a larger key is refused with a message.
\<close>

theorem kvs_store_refines_map:
  assumes "has_store i kvs mem"
  shows "if unat k < 1024 then
      \<exists>kvs' mem'. kvs_exec_fn (kv_replica_of i) [k, v1, v2] mem = Inr (mem', []) \<and> has_store i kvs' mem' \<and>
        kv_abs kvs' = (kv_abs kvs)(unat k \<mapsto> (v1, v2)) \<and> (\<forall>j. j \<noteq> i \<longrightarrow> mem' ! j = mem ! j)
    else if k = 1024 then kvs_exec_fn (kv_replica_of i) [k, v1, v2] mem = Inl OutOfBounds
    else kvs_exec_fn (kv_replica_of i) [k, v1, v2] mem = Inr (mem, [''Key too large''])"
proof -
  note st = store_id [OF assms]
  have len: "length kvs = 2048" using assms by (simp add: has_store_def)
  consider (small) "unat k < 1024" | (edge) "k = 1024" | (large) "1024 < unat k" "k \<noteq> 1024"
    by (metis linorder_neqE_nat unat_eq_1024)
  then show ?thesis
  proof cases
    case small
    then show ?thesis
      using kvs_exec_put [OF assms small, of "(v1, v2)"] put_store [OF assms, of k "(v1, v2)"] put_abs [OF len small, of "(v1, v2)"]
      by auto
  next
    case edge
    then show ?thesis using st len
      by (simp add: kvs_exec_fn_def kv_replica_of_def deref_mem_def)
  next
    case large
    then have "(1024 :: u64) < k" using key_limit [of k] by simp
    with large st show ?thesis by (simp add: kvs_exec_fn_def kv_replica_of_def)
  qed
qed

theorem kvs_store_refines_map_witness:
  "kvs_exec_fn (kv_replica_of 1) [1024, 7, 8] (replicate 64 (Some (replicate 2048 0))) = Inl OutOfBounds \<and>
   (\<exists>kvs' mem'. kvs_exec_fn (kv_replica_of 1) [1023, 7, 8] (replicate 64 (Some (replicate 2048 0))) = Inr (mem', []) \<and>
      has_store 1 kvs' mem' \<and> kv_abs kvs' 1023 = Some (7, 8))"
proof -
  have h: "has_store 1 (replicate 2048 0) (replicate 64 (Some (replicate 2048 0)))" by (simp add: has_store_def)
  show ?thesis
    using kvs_store_refines_map [OF h, of 1024 7 8] kvs_store_refines_map [OF h, of 1023 7 8] by (auto; fastforce)
qed

text \<open>A sequence of writes, as the protocols execute them at one replica.\<close>

definition exec_writes :: "kvs_replica \<Rightarrow> (u64 \<times> u64 \<times> u64) list \<Rightarrow> kvs_memory \<Rightarrow> kvs_memory res" where
  "exec_writes r ws mem =
     foldr_res (\<lambda>w mem. bindr (kvs_exec_fn r [fst w, fst (snd w), snd (snd w)] mem) (\<lambda>(mem, out). Inr mem)) ws mem"

lemma exec_writes_abs:
  "has_store i kvs mem \<Longrightarrow> (\<And>w. w \<in> set ws \<Longrightarrow> unat (fst w) < 1024) \<Longrightarrow>
   \<exists>kvs' mem'. exec_writes (kv_replica_of i) ws mem = Inr mem' \<and> has_store i kvs' mem' \<and>
     kv_abs kvs' = fold (\<lambda>w m. m(unat (fst w) \<mapsto> snd w)) ws (kv_abs kvs)"
proof (induction ws arbitrary: kvs mem)
  case Nil
  then show ?case by (auto simp: exec_writes_def)
next
  case (Cons w ws)
  have w: "unat (fst w) < 1024" using Cons.prems(2) by simp
  have len: "length kvs = 2048" using Cons.prems(1) by (simp add: has_store_def)
  have "has_store i (put kvs (fst w) (snd w)) (mem[i := Some (put kvs (fst w) (snd w))])"
    by (rule put_store [OF Cons.prems(1)])
  from Cons.IH [OF this] Cons.prems(2) kvs_exec_put [OF Cons.prems(1) w] show ?case
    by (simp add: exec_writes_def put_abs [OF len w])
qed

lemma get_abs:
  assumes "has_store i kvs mem" and "kc_local c = of_nat i" and "unat key < 1024"
  shows "kv_abs kvs (unat key) = Some v \<longleftrightarrow> kvs_get mem key c = Inr v"
    and "kvs_get mem (key + 2 ^ 63) c = kvs_get mem key c"
proof -
  have k: "unat key \<le> 1024" using assms(3) by simp
  have len: "length kvs = 2048" using assms(1) by (simp add: has_store_def)
  have kw: "unat (key * 2) = 2 * unat key" "unat (key * 2 + 1) = 2 * unat key + 1"
    using key_words [OF k] by (simp_all add: mult.commute)
  then show "kv_abs kvs (unat key) = Some v \<longleftrightarrow> kvs_get mem key c = Inr v"
    using assms len store_id [OF assms(1)] by (simp add: kvs_get_def kv_abs_def deref_mem_def)
  have "(key + 2 ^ 63) * 2 = key * 2" by (simp add: distrib_right)
  then show "kvs_get mem (key + 2 ^ 63) c = kvs_get mem key c" by (simp only: kvs_get_def)
qed

text \<open>
  C30: after a sequence of writes has been executed at a replica, a client that reads this
  replica's memory gets, for every key that was written, the value written last; the key is
  not tested, and its doubling wraps, so the key plus \<open>2^63\<close> reads the same value.
\<close>

theorem kvs_get_reads_last_write:
  assumes "has_store i kvs mem" and "kc_local c = of_nat i"
    and "\<forall>w \<in> set (ws @ w # ws'). unat (fst w) < 1024" and "\<forall>u \<in> set ws'. fst u \<noteq> fst w"
  shows "\<exists>mem'. exec_writes (kv_replica_of i) (ws @ w # ws') mem = Inr mem' \<and>
    kvs_get mem' (fst w) c = Inr (snd w) \<and> kvs_get mem' (fst w + 2 ^ 63) c = Inr (snd w)"
proof -
  from exec_writes_abs [OF assms(1), of "ws @ w # ws'"] assms(3) obtain kvs' mem' where
    e: "exec_writes (kv_replica_of i) (ws @ w # ws') mem = Inr mem'" "has_store i kvs' mem'"
    "kv_abs kvs' = fold (\<lambda>w m. m(unat (fst w) \<mapsto> snd w)) (ws @ w # ws') (kv_abs kvs)" by auto
  have "fold (\<lambda>w m. m(unat (fst w) \<mapsto> snd w)) us m (unat (fst w)) = m (unat (fst w))"
    if "\<forall>u \<in> set us. fst u \<noteq> fst w" for us and m :: "nat \<Rightarrow> (u64 \<times> u64) option"
    using that by (induction us arbitrary: m) (auto simp: word_unat_eq_iff)
  with assms(4) e(3) have "kv_abs kvs' (unat (fst w)) = Some (snd w)" by simp
  with e get_abs [OF e(2) assms(2)] assms(3) show ?thesis by auto
qed

theorem kvs_get_reads_last_write_witness:
  "\<exists>mem'. exec_writes (kv_replica_of 1) [(5, 1, 2), (5, 3, 4), (6, 0, 0)] (replicate 64 (Some (replicate 2048 0))) = Inr mem' \<and>
     kvs_get mem' 5 (undefined\<lparr>kc_local := 1\<rparr>) = Inr (3, 4)"
proof -
  have "has_store 1 (replicate 2048 0) (replicate 64 (Some (replicate 2048 0)))" by (simp add: has_store_def)
  from kvs_get_reads_last_write [OF this, of "undefined\<lparr>kc_local := 1\<rparr>" "[(5, 1, 2)]" "(5, 3, 4)" "[(6, 0, 0)]"]
  show ?thesis by auto
qed

end
