(* ===== verification/Replica.thy ===== *)
theory Replica
  imports Chain Broadcast Tpc Onepaxos Raft Kvs
begin

text \<open>
  \<^verbatim>\<open>replica.c\<close>: the entry point of a replica thread. It selects the protocol by the argument
  \<^verbatim>\<open>algo\<close>, initialises it, remembers its message loop in a function pointer, and starts the
  loop. The thread-local variables of the protocol files, of which one thread uses one, are
  fields of the thread's state.
\<close>

datatype loop_fn = Loop_tpc | Loop_onepaxos | Loop_broadcast | Loop_chain | Loop_raft

record replica_vars =
  rv_exec_func :: "exec_fn option"
  rv_algorithm :: u8
  rv_lvl :: u8
  rv_id_d :: u8
  rv_loop :: "loop_fn option"
  rv_tpc :: tpc_replica
  rv_one :: one_replica
  rv_broad :: replica
  rv_chain :: chain_replica
  rv_raft :: raft_replica
  rv_com :: com_thread

text \<open>
  What a thread gets from its environment: the build flag \<^verbatim>\<open>SMLT\<close>, the contents of the
  memory \<^verbatim>\<open>malloc\<close> returns to the protocols, the time stamp counter, and the node-level
  shared memory buffer.
\<close>

record init_env =
  ie_smlt :: bool
  ie_counters :: "u8 list \<times> u8 list"
  ie_dead :: "bool list"
  ie_tsc :: u64
  ie_shm_buf :: shm_mem

text \<open>The loop a thread ends up in: a protocol's message loop or the queue reader's polling.\<close>

datatype running = Running loop_fn | Polling

definition call_loop :: "loop_fn option \<Rightarrow> running res" where
  "call_loop f = (case f of None \<Rightarrow> Inl NullCall | Some l \<Rightarrow> Inr (Running l))"

definition start_handler_loop :: "replica_vars \<Rightarrow> running res" where
  "start_handler_loop t =
     (if rv_algorithm t = ALG_SHM then
        if rv_lvl t = NODE_LEVEL then
          if rv_id_d t = 0 then call_loop (rv_loop t) else Inr Polling
        else Inr Polling
      else call_loop (rv_loop t))"

text \<open>\<^verbatim>\<open>set_execution_fn\<close>, for a function that is not null, and its diagnostic messages.\<close>

definition set_execution_fn :: "exec_fn \<Rightarrow> replica_vars \<Rightarrow> replica_vars \<times> string list" where
  "set_execution_fn f t =
     (let t = t\<lparr>rv_exec_func := Some f\<rparr>; alg = rv_algorithm t in
      if alg = ALG_TPC then (t\<lparr>rv_tpc := set_execution_fn_tpc (Some f) (rv_tpc t)\<rparr>, [])
      else if alg = ALG_1PAXOS then (t\<lparr>rv_one := set_execution_fn_onepaxos (Some f) (rv_one t)\<rparr>, [])
      else if alg = ALG_BROAD then (t\<lparr>rv_broad := set_execution_fn_broadcast (Some f) (rv_broad t)\<rparr>, [])
      else if alg = ALG_CHAIN then (t\<lparr>rv_chain := set_execution_fn_chain (Some f) (rv_chain t)\<rparr>, [])
      else if alg = ALG_RAFT then (t\<lparr>rv_raft := set_execution_fn_raft (Some f) (rv_raft t)\<rparr>, [])
      else if alg = ALG_SHM then
        (t\<lparr>rv_com := (rv_com t)\<lparr>ct_shm := set_execution_fn_shm f (ct_shm (rv_com t))\<rparr>\<rparr>, [])
      else (t, [''init_replica: unknown protocol'']))"

text \<open>
  \<^verbatim>\<open>init_replica\<close>: the state of the thread when it enters its loop, the nodes it has started
  below it, whether it has started a throughput thread, and the loop.
\<close>

definition init_replica ::
    "init_env \<Rightarrow> cons_args \<Rightarrow> replica_vars \<Rightarrow> (replica_vars \<times> start list \<times> bool \<times> running) res" where
  "init_replica env a t =
     (let t = t\<lparr>rv_exec_func := a_exec_func a, rv_algorithm := a_algo a, rv_lvl := a_level a,
            rv_id_d := a_id a\<rparr>;
          alg = rv_algorithm t;
          shm = (\<lambda>q. Inr (t\<lparr>rv_com := (rv_com t)\<lparr>ct_shm := q\<rparr>\<rparr>, [], False)) in
      bindr
       (if alg = ALG_TPC then
          bindr (init_replica_tpc (a_id a) (a_current_core a) (a_num_clients a) (a_num_replicas a)
                  (a_level a) (a_alg_below a) (a_node_size a) (a_started_from a) (a_cores a) (a_clients a)
                  (a_replicas a) (a_exec_func a) (ie_counters env) (rv_tpc t) (rv_com t)) (\<lambda>(r, com, ss, m).
            Inr (t\<lparr>rv_loop := Some Loop_tpc, rv_tpc := r, rv_com := com\<rparr>, ss, m))
        else if alg = ALG_1PAXOS then
          bindr (init_replica_onepaxos (ie_smlt env) (a_id a) (a_current_core a) (a_num_clients a) (a_num_replicas a)
                  (a_level a) (a_alg_below a) (a_node_size a) (a_started_from a) (a_cores a) (a_clients a)
                  (a_replicas a) (a_exec_func a) (ie_dead env) (ie_tsc env) (rv_one t) (rv_com t)) (\<lambda>(r, com, ss, m).
            Inr (t\<lparr>rv_loop := Some Loop_onepaxos, rv_one := r, rv_com := com\<rparr>, ss, m))
        else if alg = ALG_BROAD then
          bindr (init_replica_broadcast (a_id a) (a_current_core a) (a_num_clients a) (a_num_replicas a)
                  (a_level a) (a_alg_below a) (a_node_size a) (a_started_from a) (a_cores a) (a_clients a)
                  (a_replicas a) (a_exec_func a) (rv_broad t) (rv_com t)) (\<lambda>(r, com, ss, m).
            Inr (t\<lparr>rv_loop := Some Loop_broadcast, rv_broad := r, rv_com := com\<rparr>, ss, m))
        else if alg = ALG_CHAIN then
          bindr (init_replica_chain (a_id a) (a_current_core a) (a_num_clients a) (a_num_replicas a)
                  (a_level a) (a_alg_below a) (a_node_size a) (a_started_from a) (a_cores a) (a_clients a)
                  (a_replicas a) (a_exec_func a) (rv_chain t) (rv_com t)) (\<lambda>(r, com, ss, m).
            Inr (t\<lparr>rv_loop := Some Loop_chain, rv_chain := r, rv_com := com\<rparr>, ss, m))
        else if alg = ALG_RAFT then
          bindr (init_replica_raft (a_id a) (a_current_core a) (a_num_clients a) (a_num_replicas a) 0
                  (a_level a) (a_alg_below a) (a_node_size a) (a_started_from a) (a_cores a) (a_clients a)
                  (a_replicas a) (a_exec_func a) (ie_tsc env) (rv_raft t)) (\<lambda>(r, m).
            Inr (t\<lparr>rv_loop := Some Loop_raft, rv_raft := r\<rparr>, [], m))
        else if alg = ALG_SHM then
          if rv_lvl t = NODE_LEVEL then
            if a_id a = 0 then
              bindr (init_shm_writer 0 (a_num_replicas a) 24 (a_exec_func a) (ct_shm (rv_com t)) (ie_shm_buf env))
                (\<lambda>(q, buf). shm q)
            else bindr (init_shm_reader (rv_id_d t) (a_num_replicas a) 24 True 0 (a_exec_func a) (ct_shm (rv_com t))) shm
          else bindr (init_shm_reader (rv_id_d t) (a_num_replicas a) 24 False (a_started_from a) (a_exec_func a)
                        (ct_shm (rv_com t))) shm
        else Inr (t, [], False))
       (\<lambda>(t, ss, m). bindr (start_handler_loop t) (\<lambda>run. Inr (t, ss, m, run))))"

text \<open>A key-value store replica sets up its memory and its application function first.\<close>

definition run_kvs_replica ::
    "init_env \<Rightarrow> exec_fn \<Rightarrow> u64 list option \<Rightarrow> cons_args \<Rightarrow> kvs_memory \<Rightarrow> replica_vars \<Rightarrow>
     (kvs_replica \<times> kvs_memory \<times> replica_vars \<times> start list \<times> bool \<times> running) res" where
  "run_kvs_replica env fn alloc a mem t =
     bindr (init_kvs_replica fn alloc a mem) (\<lambda>(k, a, mem).
     bindr (init_replica env a t) (\<lambda>r. Inr (k, mem, r)))"

text \<open>The zero-initialised variables of a fresh thread.\<close>

definition fresh_vars :: "(nat \<Rightarrow> log_entry) \<Rightarrow> replica_vars" where
  "fresh_vars junk = \<lparr>rv_exec_func = None, rv_algorithm = 0, rv_lvl = 0, rv_id_d = 0, rv_loop = None,
     rv_tpc = zero_tpc, rv_one = zero_onepaxos, rv_broad = zero_replica, rv_chain = zero_chain,
     rv_raft = zero_raft junk, rv_com = replica_thread\<rparr>"

subsection \<open>Properties\<close>

text \<open>The common part of the selected protocol's state, and its application function.\<close>

definition protocol_state :: "replica_vars \<Rightarrow> replica" where
  "protocol_state t = (let alg = rv_algorithm t in
     if alg = ALG_TPC then replica.truncate (rv_tpc t) else if alg = ALG_1PAXOS then replica.truncate (rv_one t)
     else if alg = ALG_BROAD then rv_broad t else if alg = ALG_CHAIN then replica.truncate (rv_chain t)
     else replica.truncate (rv_raft t))"

definition protocol_exec :: "replica_vars \<Rightarrow> exec_fn option" where
  "protocol_exec t = (if rv_algorithm t = ALG_SHM then Some (sq_execute (ct_shm (rv_com t)))
     else r_exec (protocol_state t))"

definition loop_of :: "u8 \<Rightarrow> loop_fn" where
  "loop_of alg = (if alg = ALG_TPC then Loop_tpc else if alg = ALG_1PAXOS then Loop_onepaxos
     else if alg = ALG_BROAD then Loop_broadcast else if alg = ALG_CHAIN then Loop_chain else Loop_raft)"

definition started_as :: "cons_args \<Rightarrow> replica_vars \<Rightarrow> bool" where
  "started_as a t \<longleftrightarrow> rv_algorithm t = a_algo a \<and> r_id (protocol_state t) = a_id a \<and>
     r_current_core (protocol_state t) = a_current_core a \<and> r_num_replicas (protocol_state t) = a_num_replicas a \<and>
     r_replicas (protocol_state t) = a_replicas a \<and> r_clients (protocol_state t) = a_clients a"

lemma zero_exts:
  "rv_raft (fresh_vars junk) = zero_raft junk" "rv_tpc (fresh_vars junk) = zero_tpc"
  "rv_one (fresh_vars junk) = zero_onepaxos" "rv_chain (fresh_vars junk) = zero_chain"
  "rv_broad (fresh_vars junk) = zero_replica" "rv_com (fresh_vars junk) = replica_thread"
  "rv_loop (fresh_vars junk) = None"
  by (simp_all add: fresh_vars_def)

lemma raft_init_first_entry:
  "\<exists>q h. append_entry init_entry (log_queue_init (rf_queue (zero_raft junk)), rf_heap (zero_raft junk)) = Inr (q, h)"
proof -
  let ?q = "\<lparr>lq_size = 0, lq_head = None, lq_tail = None\<rparr>" and ?h = "\<lparr>lh_cells = [], lh_junk = junk\<rparr>"
  have "log_holds_at (?q, ?h) []" "le_next (init_entry (lh_junk ?h (lh_fresh ?h))) = le_next (lh_junk ?h (lh_fresh ?h))"
    by (simp_all add: log_holds_at_def init_entry_def lh_fresh_def)
  from append_at [of ?q ?h "[]" init_entry, OF this] show ?thesis
    by (auto simp: zero_raft_def replica.defs raft_replica.defs log_queue_init_def)
qed

text \<open>What the five message protocols have in common when there is no core level.\<close>

lemma init_message_protocol:
  assumes "a_algo a < 5" and "a_alg_below a = ALG_NONE" and "unat (a_num_replicas a) \<le> 64"
  shows "\<exists>t m. init_replica env a (fresh_vars junk) = Inr (t, [], m, Running (loop_of (a_algo a))) \<and>
    started_as a t \<and> protocol_exec t = Some (choose_exec (a_exec_func a))"
proof -
  obtain q h where raft: "append_entry init_entry (log_queue_init (rf_queue (zero_raft junk)), rf_heap (zero_raft junk)) = Inr (q, h)"
    using raft_init_first_entry by blast
  have len: "length (rf_next_index (zero_raft junk)) = 64" "length (rf_match_index (zero_raft junk)) = 64"
    by (simp_all add: zero_raft_def replica.defs raft_replica.defs)
  have five: "w = 0 \<or> w = 1 \<or> w = 2 \<or> w = 3 \<or> w = 4" if "w < 5" for w :: u8
    using that by uint_arith
  note alg = five [OF assms(1)]
  note d = init_replica_def zero_exts algs start_handler_loop_def call_loop_def started_as_def protocol_state_def
    protocol_exec_def loop_of_def Let_def replica.defs
  have below: "a_alg_below a = 6" using assms(2) by (simp add: ALG_NONE_def)
  from alg show ?thesis
  proof (elim disjE)
    assume "a_algo a = 0"
    then show ?thesis using below by (simp add: d init_replica_onepaxos_def)
  next
    assume "a_algo a = 1"
    then show ?thesis using below by (simp add: d init_replica_tpc_def)
  next
    assume "a_algo a = 2"
    then show ?thesis using below by (simp add: d init_replica_broadcast_def)
  next
    assume "a_algo a = 3"
    then show ?thesis using below by (simp add: d init_replica_chain_def)
  next
    assume "a_algo a = 4"
    then show ?thesis using below raft assms(3) len by (simp add: d init_replica_raft_def wr_range)
  qed
qed

text \<open>A reader of the shared memory queue polls, at either level.\<close>

lemma init_shm:
  assumes "a_algo a = ALG_SHM" and "a_level a \<noteq> NODE_LEVEL \<or> a_id a \<noteq> 0"
  shows "\<exists>t. init_replica env a (fresh_vars junk) = Inr (t, [], False, Polling) \<and>
    protocol_exec t = Some (choose_exec (a_exec_func a)) \<and> sq_shm_id (ct_shm (rv_com t)) = a_id a \<and>
    sq_num_readers (ct_shm (rv_com t)) = a_num_replicas a"
  using assms
  by (auto simp: init_replica_def zero_exts algs start_handler_loop_def protocol_exec_def Let_def
      init_shm_reader_def setup_memory_def slots_for_def)

text \<open>
  C29: a replica thread that is asked for one of the five message-passing protocols, without a
  core level below, initialises that protocol with its arguments and enters that protocol's
  loop; a shared-memory reader enters the polling loop; but the node-level writer of the
  shared memory queue, and a thread asked for an unknown protocol, call a loop function
  that was never set.
\<close>

theorem replica_starts_its_protocol:
  assumes "a_alg_below a = ALG_NONE" and "unat (a_num_replicas a) \<le> 64" and "ie_shm_buf env \<noteq> []"
  shows "if a_algo a < 5 then
      \<exists>t m. init_replica env a (fresh_vars junk) = Inr (t, [], m, Running (loop_of (a_algo a))) \<and>
        started_as a t \<and> protocol_exec t = Some (choose_exec (a_exec_func a))
    else if a_algo a = ALG_SHM \<and> (a_level a \<noteq> NODE_LEVEL \<or> a_id a \<noteq> 0) then
      \<exists>t. init_replica env a (fresh_vars junk) = Inr (t, [], False, Polling) \<and>
        protocol_exec t = Some (choose_exec (a_exec_func a))
    else init_replica env a (fresh_vars junk) = Inl NullCall"
proof -
  have "init_replica env a (fresh_vars junk) = Inl NullCall"
    if "\<not> a_algo a < 5" "\<not> (a_algo a = ALG_SHM \<and> (a_level a \<noteq> NODE_LEVEL \<or> a_id a \<noteq> 0))"
  proof -
    have "a_algo a \<noteq> 0 \<and> a_algo a \<noteq> 1 \<and> a_algo a \<noteq> 2 \<and> a_algo a \<noteq> 3 \<and> a_algo a \<noteq> 4"
      using that(1) by auto
    with that(2) assms(3) show ?thesis
      by (auto simp: init_replica_def zero_exts algs start_handler_loop_def call_loop_def Let_def
          init_shm_writer_def setup_memory_def slots_for_def)
  qed
  with init_message_protocol [OF _ assms(1,2)] init_shm show ?thesis by (simp; blast)
qed

definition example_env :: init_env where
  "example_env = \<lparr>ie_smlt = False, ie_counters = ([], []), ie_dead = [], ie_tsc = 0, ie_shm_buf = replicate 512 0\<rparr>"

definition example_args :: "u8 \<Rightarrow> u8 \<Rightarrow> cons_args" where
  "example_args algo i = zero_args\<lparr>a_id := i, a_num_replicas := 3, a_algo := algo, a_level := NODE_LEVEL,
     a_alg_below := ALG_NONE, a_replicas := [4, 5, 6]\<rparr>"

theorem replica_starts_its_protocol_witness:
  "(\<exists>t m. init_replica example_env (example_args ALG_RAFT 2) (fresh_vars (\<lambda>_. undefined)) =
       Inr (t, [], m, Running Loop_raft)) \<and>
   init_replica example_env (example_args ALG_SHM 0) (fresh_vars (\<lambda>_. undefined)) = Inl NullCall"
proof -
  have h: "a_alg_below (example_args g i) = ALG_NONE" "unat (a_num_replicas (example_args g i)) \<le> 64"
    "ie_shm_buf example_env \<noteq> []" "a_algo (example_args g i) = g" "a_id (example_args g i) = i"
    "a_level (example_args g i) = NODE_LEVEL" for g i
    by (simp_all add: example_args_def example_env_def)
  show ?thesis
    using replica_starts_its_protocol [OF h(1,2,3), of ALG_RAFT 2 "\<lambda>_. undefined"]
      replica_starts_its_protocol [OF h(1,2,3), of ALG_SHM 0 "\<lambda>_. undefined"]
    by (auto simp: h algs loop_of_def)
qed

text \<open>
  Changing the application function reaches the protocol the thread runs: after
  \<^verbatim>\<open>set_execution_fn\<close> the selected protocol executes the new function, and nothing else
  of its common state changes.
\<close>

theorem set_execution_fn_reaches_protocol:
  assumes "set_execution_fn f t = (t', out)" and "rv_algorithm t < 6"
  shows "protocol_exec t' = Some f \<and> rv_exec_func t' = Some f \<and> out = [] \<and>
    (rv_algorithm t \<noteq> ALG_SHM \<longrightarrow> protocol_state t' = (protocol_state t)\<lparr>r_exec := Some f\<rparr>)"
proof -
  have six: "w = 0 \<or> w = 1 \<or> w = 2 \<or> w = 3 \<or> w = 4 \<or> w = 5" if "w < 6" for w :: u8
    using that by uint_arith
  note d = set_execution_fn_def set_execution_fn_tpc_def set_execution_fn_onepaxos_def
    set_execution_fn_broadcast_def set_execution_fn_chain_def set_execution_fn_raft_def set_execution_fn_shm_def
    protocol_exec_def protocol_state_def Let_def algs replica.defs
  from six [OF assms(2)] show ?thesis
    by (elim disjE) (use assms(1) in \<open>auto simp: d\<close>)
qed

theorem set_execution_fn_reaches_protocol_witness:
  "protocol_exec (fst (set_execution_fn (App_exec_fn 1) ((fresh_vars (\<lambda>_. undefined))\<lparr>rv_algorithm := ALG_CHAIN\<rparr>))) =
     Some (App_exec_fn 1)"
  using set_execution_fn_reaches_protocol [of "App_exec_fn 1" "(fresh_vars (\<lambda>_. undefined))\<lparr>rv_algorithm := ALG_CHAIN\<rparr>"]
  by (cases "set_execution_fn (App_exec_fn 1) ((fresh_vars (\<lambda>_. undefined))\<lparr>rv_algorithm := ALG_CHAIN\<rparr>)")
    (simp add: ALG_CHAIN_def)

end
