(* ===== verification/Bench.thy ===== *)
theory Bench
  imports Replica
begin

text \<open>
  \<^verbatim>\<open>bench/main.c\<close>: the benchmark program. It takes the two protocols from its arguments and the
  cores of replicas and clients from a configuration file, starts the node level with
  \<^verbatim>\<open>consensus_init\<close> and then the clients. What it prints is left out.
\<close>

subsection \<open>Numbers of the C library\<close>

definition is_space :: "char \<Rightarrow> bool" where
  "is_space c \<longleftrightarrow> c = CHR '' '' \<or> (9 \<le> (of_char c :: nat) \<and> (of_char c :: nat) \<le> 13)"

definition is_digit :: "char \<Rightarrow> bool" where
  "is_digit c \<longleftrightarrow> 48 \<le> (of_char c :: nat) \<and> (of_char c :: nat) \<le> 57"

fun digits :: "int \<Rightarrow> string \<Rightarrow> int \<times> string" where
  "digits n [] = (n, [])"
| "digits n (c # cs) = (if is_digit c then digits (10 * n + (of_char c - 48)) cs else (n, c # cs))"

text \<open>\<^verbatim>\<open>atol\<close>: white space, an optional sign, digits; 0 when there is none.\<close>

definition atol :: "string \<Rightarrow> int" where
  "atol s = (case dropWhile is_space s of
       [] \<Rightarrow> 0
     | c # cs \<Rightarrow> if c = CHR ''-'' then - fst (digits 0 cs)
         else if c = CHR ''+'' then fst (digits 0 cs) else fst (digits 0 (c # cs)))"

text \<open>
  \<^verbatim>\<open>fscanf\<close> of \<^verbatim>\<open>%d\<close>, with white space in the format after it when \<open>skip\<close> holds: on a
  mismatch the variable keeps its value.
\<close>

definition scan_digits :: "(int \<Rightarrow> int) \<Rightarrow> string \<Rightarrow> int option \<times> string" where
  "scan_digits sign s = (case s of [] \<Rightarrow> (None, [])
     | c # cs \<Rightarrow> if is_digit c then let (n, r) = digits 0 s in (Some (sign n), r) else (None, s))"

definition scan_d :: "string \<Rightarrow> int option \<times> string" where
  "scan_d s = (case dropWhile is_space s of
       [] \<Rightarrow> (None, [])
     | c # cs \<Rightarrow> if c = CHR ''-'' then scan_digits uminus cs
         else if c = CHR ''+'' then scan_digits (\<lambda>n. n) cs else scan_digits (\<lambda>n. n) (c # cs))"

definition fscanf_d :: "bool \<Rightarrow> string \<times> 32 word \<Rightarrow> string \<times> 32 word" where
  "fscanf_d skip = (\<lambda>(s, v). case scan_d s of
       (None, r) \<Rightarrow> (r, v)
     | (Some n, r) \<Rightarrow> (if skip then dropWhile is_space r else r, word_of_int n))"

subsection \<open>The configuration file\<close>

text \<open>An array whose length is an \<^verbatim>\<open>int\<close>, cleared with \<^verbatim>\<open>memset\<close>: the length must be positive.\<close>

definition cleared_array :: "int \<Rightarrow> u8 list res" where
  "cleared_array n = (if n \<le> 0 then Inl OutOfBounds else Inr (replicate (nat n) 0))"

type_synonym scan_state = "string \<times> 32 word \<times> u8 list \<times> u8 list"

definition read_core :: "nat \<Rightarrow> nat \<Rightarrow> nat \<Rightarrow> scan_state \<Rightarrow> scan_state res" where
  "read_core node_size i j = (\<lambda>(s, tmp, cores, cores2).
     if j = 0 then
       let (s, tmp) = fscanf_d False (s, tmp) in
       bindr (wr cores i (ucast tmp)) (\<lambda>cores. Inr (s, tmp, cores, cores2))
     else
       let (s, tmp) = fscanf_d True (s, tmp) in
       bindr (wr cores2 (node_size * i + (j - 1)) (ucast tmp)) (\<lambda>cores2. Inr (s, tmp, cores, cores2)))"

definition read_client :: "nat \<Rightarrow> string \<times> 32 word \<times> u8 list \<Rightarrow> (string \<times> 32 word \<times> u8 list) res" where
  "read_client i = (\<lambda>(s, tmp, cs).
     let (s, tmp) = fscanf_d True (s, tmp) in
     bindr (wr cs i (ucast tmp)) (\<lambda>cs. Inr (s, tmp, cs)))"

record bench_config =
  bc_num_cores :: "32 word"
  bc_num_replicas :: "32 word"
  bc_node_size :: "32 word"
  bc_num_clients :: "32 word"
  bc_cores :: "u8 list"
  bc_cores2 :: "u8 list"
  bc_client_cores :: "u8 list"

text \<open>\<open>junk\<close> is what the uninitialised local variables hold.\<close>

definition read_counts :: "(nat \<Rightarrow> 32 word) \<Rightarrow> string \<Rightarrow> string \<times> 32 word \<times> 32 word \<times> 32 word \<times> 32 word" where
  "read_counts junk s =
     (let (s, num_cores) = fscanf_d True (s, junk 0);
          (s, num_replicas) = fscanf_d True (s, junk 1);
          (s, node_size) = fscanf_d True (s, junk 2);
          (s, num_clients) = fscanf_d True (s, junk 3) in
      (s, num_cores, num_replicas, node_size, num_clients))"

definition read_cores :: "int \<Rightarrow> int \<Rightarrow> string \<times> 32 word \<Rightarrow> scan_state res" where
  "read_cores num_replicas node_size = (\<lambda>(s, tmp).
     bindr (cleared_array num_replicas) (\<lambda>cores.
     bindr (cleared_array (num_replicas * node_size)) (\<lambda>cores2.
     foldr_res (\<lambda>i. foldr_res (read_core (nat node_size) i) [0..<nat node_size]) [0..<nat num_replicas]
       (s, tmp, cores, cores2))))"

definition read_clients :: "int \<Rightarrow> string \<times> 32 word \<Rightarrow> (string \<times> 32 word \<times> u8 list) res" where
  "read_clients num_clients = (\<lambda>(s, tmp).
     bindr (cleared_array num_clients) (\<lambda>client_cores.
     foldr_res read_client [0..<nat num_clients] (s, tmp, client_cores)))"

definition read_config :: "(nat \<Rightarrow> 32 word) \<Rightarrow> string \<Rightarrow> bench_config res" where
  "read_config junk s = (case read_counts junk s of (s, num_cores, num_replicas, node_size, num_clients) \<Rightarrow>
     bindr (read_cores (sint num_replicas) (sint node_size) (s, junk 4)) (\<lambda>(s, tmp, cores, cores2).
     bindr (read_clients (sint num_clients) (s, tmp)) (\<lambda>(s, tmp, client_cores).
       Inr \<lparr>bc_num_cores = num_cores, bc_num_replicas = num_replicas, bc_node_size = node_size,
            bc_num_clients = num_clients, bc_cores = cores, bc_cores2 = cores2,
            bc_client_cores = client_cores\<rparr>)))"

subsection \<open>What the program prints\<close>

definition line :: "string \<Rightarrow> string" where "line s = s @ [CHR 0x0A]"

definition sharps :: string where "sharps = line (replicate 47 CHR ''#'' @ '' '')"

definition tier1_name :: "32 word \<Rightarrow> string" where
  "tier1_name algo = line
     (if algo = ucast ALG_1PAXOS then ''Protocol tier1 1Paxos ''
      else if algo = ucast ALG_TPC then ''Protocol tier1 TPC ''
      else if algo = ucast ALG_BROAD then ''Protocol tier1 BROAD ''
      else if algo = ucast ALG_CHAIN then ''Protocol tier1 CHAIN ''
      else if algo = ucast ALG_RAFT then ''Protocol tier1 RAFT ''
      else ''Unkown Protocol tier1 '')"

definition tier2_name :: "32 word \<Rightarrow> string" where
  "tier2_name algo_below = line
     (if algo_below = ucast ALG_1PAXOS then ''Protocol tier2 1Paxos ''
      else if algo_below = ucast ALG_TPC then ''Protocol tier2 TPC ''
      else if algo_below = ucast ALG_BROAD then ''Protocol tier2 BROAD ''
      else if algo_below = ucast ALG_SHM then ''Protocol tier2 SHM ''
      else if algo_below = ucast ALG_NONE then ''Protocol tier2 NONE ''
      else ''Unkown Protocol tier2 '')"

definition banner :: "32 word \<Rightarrow> 32 word \<Rightarrow> bench_config \<Rightarrow> string" where
  "banner algo algo_below b =
     sharps @ line ''Starting Benchmark '' @ tier1_name algo @ tier2_name algo_below @
     line (dec_int (bc_num_replicas b) @ '' top level replicas '') @
     line (dec_int (bc_node_size b) @ '' node size '') @
     line (dec_int (bc_num_clients b) @ '' clients '') @ sharps"

definition number :: "u8 \<Rightarrow> string" where "number x = dec (unat x) @ '' ''"

text \<open>The rows of \<^verbatim>\<open>cores2\<close>, each without its last entry, on a line of their own.\<close>

definition core_listing :: "bench_config \<Rightarrow> string" where
  "core_listing b =
     (let ns = nat (sint (bc_node_size b)); n = nat (sint (bc_num_replicas b)) * ns in
      sharps @ line ''Tier1 Cores '' @ concat (map number (bc_cores b)) @ line [] @
      (if 1 < ns then
         line ''Tier2 Cores '' @
         concat (map (\<lambda>i. if i mod ns = 0 \<and> i \<noteq> 0 then line [] @ number (bc_cores2 b ! i)
                          else if i mod ns = ns - 1 then [] else number (bc_cores2 b ! i)) [0..<n]) @ line []
       else []) @ sharps @ sharps)"

definition client_listing :: "bench_config \<Rightarrow> string" where
  "client_listing b = line ''Client on cores: '' @ concat (map number (bc_client_cores b)) @ line [] @ sharps"

subsection \<open>The main function\<close>

datatype main_result =
    Exit_failure string
  | Exit_unsupported string
  | Started string com_thread "start list" "bench_args list"

definition default_path :: string where "default_path = ''config.txt''"

text \<open>The protocols, the path of the configuration file, the topology index, and what is printed.\<close>

definition read_arguments :: "string list \<Rightarrow> 32 word \<times> 32 word \<times> string \<times> 32 word \<times> string" where
  "read_arguments argv =
     (if 3 \<le> length argv then
        (word_of_int (atol (argv ! 1)), word_of_int (atol (argv ! 2)),
         if 3 < length argv then argv ! 3 else default_path,
         if 4 < length argv then word_of_int (atol (argv ! 4)) else 0, [])
      else (ucast ALG_1PAXOS, ucast ALG_SHM, default_path, 0, line ''Taking default Protocols ''))"

text \<open>
  \<open>files\<close> gives the contents of the files that can be opened, \<open>fn\<close> is the address of the
  empty \<^verbatim>\<open>exec_fn\<close>; the other parameters are those of \<^verbatim>\<open>consensus_init\<close> and
  \<^verbatim>\<open>consensus_bench_clients_init\<close>. The sleep time of the clients is 0.
\<close>

definition bench_main ::
    "bool \<Rightarrow> bool \<Rightarrow> bool \<Rightarrow> (u8 \<Rightarrow> nat) \<Rightarrow> (string \<Rightarrow> string option) \<Rightarrow> (nat \<Rightarrow> 32 word) \<Rightarrow> exec_fn \<Rightarrow>
     string list \<Rightarrow> com_thread \<Rightarrow> main_result res" where
  "bench_main smlt kvs smelt_ok numa files junk fn argv t =
     (let (algo, algo_below, config_path, topo, out) = read_arguments argv;
          out = out @ line (''Using config path: '' @ config_path) in
      case files config_path of None \<Rightarrow> Inr (Exit_failure (out @ line ''No config.txt file found -> exit''))
      | Some s \<Rightarrow>
          bindr (read_config junk s) (\<lambda>b.
          let out = out @ banner algo algo_below b @ core_listing b @ client_listing b in
          if smlt \<and> algo_below \<noteq> ucast ALG_NONE then
            Inr (Exit_unsupported (out @ line ''Cant not start with SMLT and an protocol on the lower layer ''))
          else
            bindr (consensus_init kvs smelt_ok (ucast algo) (bc_cores b) (ucast (bc_num_replicas b))
                     (ucast (bc_num_clients b)) (ucast algo_below) (ucast (bc_node_size b)) (bc_cores2 b)
                     (bc_client_cores b) (Some fn) t) (\<lambda>(t, ss).
            bindr (consensus_bench_clients_init smlt kvs numa (ucast (bc_num_cores b)) (bc_client_cores b)
                     (ucast (bc_num_clients b)) (ucast (bc_num_replicas b)) 0 (ucast algo) (ucast algo_below)
                     (ucast topo) (bc_cores b)) (\<lambda>clients.
              Inr (Started (out @ line ''Exit '') t ss clients)))))"

subsection \<open>Printing and scanning\<close>

lemma digit_char: "k < 10 \<Longrightarrow> is_digit (char_of (48 + k)) \<and> (of_char (char_of (48 + k) :: char) :: nat) = 48 + k"
  by (simp add: is_digit_def)

lemma digits_dec: "\<exists>m. \<forall>a s. digits a (dec k @ s) = digits (a * m + int k) s"
proof (induction k rule: dec.induct)
  case (1 n)
  have step: "digits a (char_of (48 + d) # s) = digits (10 * a + int d) s" if "d < 10" for a d s
  proof -
    have "(of_char (char_of (48 + d) :: char) :: int) = int (of_char (char_of (48 + d) :: char) :: nat)"
      by (simp only: of_nat_of_char)
    also have "\<dots> = 48 + int d" using digit_char [OF that] by simp
    finally show ?thesis using digit_char [OF that] by simp
  qed
  show ?case
  proof (cases "n < 10")
    case True
    then have "digits a (dec n @ s) = digits (a * 10 + int n) s" for a s
      using step [of n a s] by (subst dec.simps) (simp add: mult.commute)
    then show ?thesis by blast
  next
    case False
    from 1 [OF this] obtain m where m: "\<And>a s. digits a (dec (n div 10) @ s) = digits (a * m + int (n div 10)) s"
      by auto
    have "digits a (dec n @ s) = digits (a * (10 * m) + int n) s" for a s
    proof -
      have "digits a (dec n @ s) = digits (a * m + int (n div 10)) (char_of (48 + n mod 10) # s)"
        using False by (subst dec.simps) (simp add: m)
      also have "\<dots> = digits (10 * (a * m + int (n div 10)) + int (n mod 10)) s" by (rule step) simp
      also have "10 * (a * m + int (n div 10)) + int (n mod 10) = a * (10 * m) + int n"
        by (simp add: zdiv_int zmod_int algebra_simps)
      finally show ?thesis .
    qed
    then show ?thesis by blast
  qed
qed

lemma dec_first: "\<exists>c cs. dec k = c # cs \<and> is_digit c"
proof (induction k rule: dec.induct)
  case (1 n)
  then show ?case using digit_char [of n] by (cases "n < 10") (subst dec.simps, force)+
qed

text \<open>
  A text that spells the numbers \<open>ns\<close>: any white space, then each number followed by
  white space, however it is broken into lines.
\<close>

definition blank :: "string \<Rightarrow> bool" where
  "blank w \<longleftrightarrow> (\<forall>c \<in> set w. is_space c)"

definition spells :: "nat list \<Rightarrow> string \<Rightarrow> bool" where
  "spells ns s \<longleftrightarrow> (\<exists>sp ws. blank sp \<and> length ws = length ns \<and> (\<forall>w \<in> set ws. blank w \<and> w \<noteq> []) \<and>
     s = sp @ concat (map2 (\<lambda>n w. dec n @ w) ns ws))"

lemma spells_Cons:
  "spells (n # ns) s \<longleftrightarrow> (\<exists>sp w s'. blank sp \<and> blank w \<and> w \<noteq> [] \<and> s = sp @ dec n @ w @ s' \<and>
     spells ns s' \<and> dropWhile is_space s' = s')"
proof
  assume "spells (n # ns) s"
  then obtain sp ws where w: "blank sp" "length ws = Suc (length ns)" "\<forall>w \<in> set ws. blank w \<and> w \<noteq> []"
    "s = sp @ concat (map2 (\<lambda>n w. dec n @ w) (n # ns) ws)" by (auto simp: spells_def)
  then obtain w ws' where ws: "ws = w # ws'" by (cases ws) auto
  let ?s = "concat (map2 (\<lambda>n w. dec n @ w) ns ws')"
  have "dropWhile is_space ?s = ?s"
  proof (cases ns)
    case (Cons k ks)
    with w(2) ws obtain v vs where v: "ws' = v # vs" by (cases ws') auto
    obtain c cs where c: "dec k = c # cs" "is_digit c" using dec_first by blast
    then have "\<not> is_space c" by (auto simp: is_space_def is_digit_def)
    with c v Cons show ?thesis by simp
  qed simp
  moreover have "spells ns ?s" using w ws unfolding spells_def by (intro exI [of _ "[]"] exI [of _ ws']) (auto simp: blank_def)
  ultimately show "\<exists>sp w s'. blank sp \<and> blank w \<and> w \<noteq> [] \<and> s = sp @ dec n @ w @ s' \<and> spells ns s' \<and> dropWhile is_space s' = s'"
    using w ws by (intro exI [of _ sp] exI [of _ w] exI [of _ ?s]) simp
next
  assume "\<exists>sp w s'. blank sp \<and> blank w \<and> w \<noteq> [] \<and> s = sp @ dec n @ w @ s' \<and> spells ns s' \<and> dropWhile is_space s' = s'"
  then obtain sp w s' sp' ws where "blank sp" "blank w" "w \<noteq> []" "s = sp @ dec n @ w @ s'"
    "blank sp'" "length ws = length ns" "\<forall>w \<in> set ws. blank w \<and> w \<noteq> []" "s' = sp' @ concat (map2 (\<lambda>n w. dec n @ w) ns ws)"
    by (auto simp: spells_def)
  then show "spells (n # ns) s" unfolding spells_def
    by (intro exI [of _ sp] exI [of _ "(w @ sp') # ws"]) (auto simp: blank_def)
qed

lemma dropWhile_blank: "blank w \<Longrightarrow> dropWhile is_space (w @ s) = dropWhile is_space s"
  by (induction w) (simp_all add: blank_def)

lemma blank_spells: "blank w \<Longrightarrow> spells ns s \<Longrightarrow> spells ns (w @ s)"
  unfolding spells_def by (elim exE conjE) (rule_tac x = "w @ sp" in exI, auto simp: blank_def)

lemma fscanf_spelled:
  assumes "spells (n # ns) s"
  shows "\<exists>s'. fscanf_d skip (s, v) = (s', of_nat n) \<and> spells ns s'"
proof -
  obtain sp w s' where d: "blank sp" "blank w" "w \<noteq> []" "s = sp @ dec n @ w @ s'" "spells ns s'" "dropWhile is_space s' = s'"
    using assms unfolding spells_Cons by blast
  obtain c cs where c: "dec n = c # cs" "is_digit c" using dec_first by blast
  then have nc: "\<not> is_space c" "c \<noteq> CHR ''-''" "c \<noteq> CHR ''+''" by (auto simp: is_space_def is_digit_def)
  obtain x xs where x: "w = x # xs" "is_space x" using d(2,3) by (cases w) (auto simp: blank_def)
  then have nx: "\<not> is_digit x" by (auto simp: is_space_def is_digit_def)
  obtain m where m: "\<And>a s. digits a (dec n @ s) = digits (a * m + int n) s" using digits_dec by blast
  have "dropWhile is_space s = dec n @ w @ s'" using d(1,4) c nc(1) by (simp add: dropWhile_blank)
  moreover have "digits 0 (dec n @ w @ s') = (int n, w @ s')" unfolding m using x nx by simp
  ultimately have "scan_d s = (Some (int n), w @ s')" using c nc by (simp add: scan_d_def scan_digits_def)
  then have "fscanf_d skip (s, v) = (if skip then s' else w @ s', of_nat n)"
    using d(2,6) by (simp add: fscanf_d_def dropWhile_blank)
  then show ?thesis using d(5) blank_spells [OF d(2,5)] by auto
qed

subsection \<open>Reading a configuration\<close>

text \<open>
  A configuration: for every node the replica's core and the cores below it, and the cores
  of the clients. \<open>spelled_config\<close> are the numbers of its file, in order.
\<close>

definition config_numbers :: "nat \<Rightarrow> nat \<Rightarrow> nat list list \<Rightarrow> nat list \<Rightarrow> nat list" where
  "config_numbers num_cores k nodes clients =
     [num_cores, length nodes, k, length clients] @ concat nodes @ clients"

definition small_config :: "nat \<Rightarrow> nat \<Rightarrow> nat list list \<Rightarrow> nat list \<Rightarrow> bool" where
  "small_config num_cores k nodes clients \<longleftrightarrow> nodes \<noteq> [] \<and> length nodes < 256 \<and> 0 < k \<and> k < 256 \<and>
     clients \<noteq> [] \<and> length clients < 256 \<and> num_cores < 256 \<and> (\<forall>n \<in> set nodes. length n = k)"

text \<open>The row of \<^verbatim>\<open>cores2\<close> for a node: its cores below the first, and an entry that stays 0.\<close>

definition row :: "nat list \<Rightarrow> u8 list" where
  "row n = map of_nat (tl n) @ [0]"

lemma ucast_of_nat: "ucast (of_nat n :: 32 word) = (of_nat n :: u8)"
  by (intro word_unat_eq_iff [THEN iffD2]) (simp add: unsigned_ucast_eq unat_of_nat take_bit_eq_mod mod_mod_cancel)

lemma read_node:
  assumes "length P = Suc (length ns) * length C" and "spells (n # ns @ rest) s" and "j \<le> length ns"
  shows "\<exists>s' tmp'. foldr_res (read_core (Suc (length ns)) (length C)) [0..<Suc j]
        (s, tmp, C @ 0 # D, P @ replicate (Suc (length ns)) 0 @ E) =
      Inr (s', tmp', C @ of_nat n # D, P @ map of_nat (take j ns) @ replicate (Suc (length ns) - j) 0 @ E) \<and>
    spells (drop j ns @ rest) s'"
  using assms(2,3)
proof (induction j)
  case 0
  from fscanf_spelled [OF 0(1), of False tmp] show ?case
    by (auto simp: read_core_def ucast_of_nat)
next
  case (Suc j)
  then obtain s1 tmp1 where s1: "foldr_res (read_core (Suc (length ns)) (length C)) [0..<Suc j]
        (s, tmp, C @ 0 # D, P @ replicate (Suc (length ns)) 0 @ E) =
      Inr (s1, tmp1, C @ of_nat n # D, P @ map of_nat (take j ns) @ replicate (Suc (length ns) - j) 0 @ E)"
    "spells (drop j ns @ rest) s1" by auto
  have j: "j < length ns" using Suc.prems(2) by simp
  then have d: "drop j ns = ns ! j # drop (Suc j) ns" by (simp add: Cons_nth_drop_Suc)
  obtain s2 where s2: "fscanf_d True (s1, tmp1) = (s2, of_nat (ns ! j))" "spells (drop (Suc j) ns @ rest) s2"
    using fscanf_spelled [of "ns ! j" "drop (Suc j) ns @ rest" s1 True tmp1] s1(2) d by auto
  have "Suc (length ns) - j = Suc (Suc (length ns) - Suc j)" using j by simp
  then have "(P @ map of_nat (take j ns) @ replicate (Suc (length ns) - j) 0 @ E)[Suc (length ns) * length C + j := of_nat (ns ! j)]
      = P @ map of_nat (take (Suc j) ns) @ replicate (Suc (length ns) - Suc j) (0 :: u8) @ E"
    using assms(1) j by (simp add: list_update_append take_Suc_conv_app_nth)
  moreover have "Suc (length ns) * length C + j < length (P @ map of_nat (take j ns) @ replicate (Suc (length ns) - j) (0 :: u8) @ E)"
    using assms(1) j by simp
  ultimately have "read_core (Suc (length ns)) (length C) (Suc j)
      (s1, tmp1, C @ of_nat n # D, P @ map of_nat (take j ns) @ replicate (Suc (length ns) - j) 0 @ E) =
      Inr (s2, of_nat (ns ! j), C @ of_nat n # D, P @ map of_nat (take (Suc j) ns) @ replicate (Suc (length ns) - Suc j) 0 @ E)"
    using s2(1) by (simp add: read_core_def ucast_of_nat del: replicate_Suc)
  moreover have "[0..<Suc (Suc j)] = [0..<Suc j] @ [Suc j]" by simp
  ultimately show ?case using s1(1) s2(2) by (auto simp: foldr_res_snoc simp del: upt_Suc replicate_Suc)
qed

lemma read_nodes:
  assumes "spells (concat nodes @ rest) s" and "\<forall>n \<in> set nodes. length n = k" and "0 < k" and "m \<le> length nodes"
  shows "\<exists>s' tmp'. foldr_res (\<lambda>i. foldr_res (read_core k i) [0..<k]) [0..<m]
        (s, tmp, replicate (length nodes) 0, replicate (length nodes * k) 0) =
      Inr (s', tmp', map (\<lambda>n. of_nat (hd n)) (take m nodes) @ replicate (length nodes - m) 0,
           concat (map row (take m nodes)) @ replicate ((length nodes - m) * k) 0) \<and>
    spells (concat (drop m nodes) @ rest) s'"
  using assms(4)
proof (induction m)
  case 0
  then show ?case using assms(1) by simp
next
  case (Suc m)
  let ?N = "length nodes"
  from Suc obtain s1 tmp1 where s1: "foldr_res (\<lambda>i. foldr_res (read_core k i) [0..<k]) [0..<m]
        (s, tmp, replicate ?N 0, replicate (?N * k) 0) =
      Inr (s1, tmp1, map (\<lambda>n. of_nat (hd n)) (take m nodes) @ replicate (?N - m) 0,
           concat (map row (take m nodes)) @ replicate ((?N - m) * k) 0)"
    "spells (concat (drop m nodes) @ rest) s1" by auto
  have m: "m < ?N" using Suc.prems by simp
  then have in_set: "nodes ! m \<in> set nodes" by simp
  with assms(2,3) obtain n ns where n: "nodes ! m = n # ns" "k = Suc (length ns)"
    by (cases "nodes ! m") fastforce+
  have d: "drop m nodes = nodes ! m # drop (Suc m) nodes" using m by (simp add: Cons_nth_drop_Suc)
  let ?C = "map (\<lambda>n. of_nat (hd n)) (take m nodes) :: u8 list" and ?P = "concat (map row (take m nodes))"
  have "map (\<lambda>n. length (row n)) (take m nodes) = replicate m k"
    using assms(2,3) m by (intro nth_equalityI) (auto simp: row_def)
  then have P: "length ?P = k * m"
    by (simp add: length_concat comp_def sum_list_replicate mult.commute del: map_replicate_const)
  have N: "?N - m = Suc (?N - Suc m)" using m by simp
  have sp: "spells (n # ns @ concat (drop (Suc m) nodes) @ rest) s1" using s1(2) d n by simp
  from read_node [OF _ sp, of ?P ?C "length ns" tmp1 "replicate (?N - Suc m) 0" "replicate ((?N - Suc m) * k) 0"] P m n(2)
  obtain s2 tmp2 where s2: "foldr_res (read_core k m) [0..<k] (s1, tmp1, ?C @ 0 # replicate (?N - Suc m) 0,
        ?P @ replicate k 0 @ replicate ((?N - Suc m) * k) 0) =
      Inr (s2, tmp2, ?C @ of_nat n # replicate (?N - Suc m) 0,
        ?P @ map of_nat ns @ 0 # replicate ((?N - Suc m) * k) 0)" "spells (concat (drop (Suc m) nodes) @ rest) s2"
    by (auto simp del: upt_Suc)
  have "replicate ((?N - m) * k) (0 :: u8) = replicate k 0 @ replicate ((?N - Suc m) * k) 0"
    by (simp add: N replicate_add [symmetric])
  moreover have "replicate (?N - m) (0 :: u8) = 0 # replicate (?N - Suc m) 0" by (simp add: N)
  moreover have "take (Suc m) nodes = take m nodes @ [n # ns]" using m n(1) by (simp add: take_Suc_conv_app_nth)
  moreover have "row (n # ns) = map of_nat ns @ [0]" by (simp add: row_def)
  ultimately show ?case using s1(1) s2 by (auto simp: foldr_res_snoc)
qed

lemma read_clients_loop:
  assumes "spells clients s" and "m \<le> length clients"
  shows "\<exists>s' tmp'. foldr_res read_client [0..<m] (s, tmp, replicate (length clients) 0) =
      Inr (s', tmp', map of_nat (take m clients) @ replicate (length clients - m) 0) \<and> spells (drop m clients) s'"
  using assms(2)
proof (induction m)
  case 0
  then show ?case using assms(1) by simp
next
  case (Suc m)
  let ?N = "length clients"
  from Suc obtain s1 tmp1 where s1: "foldr_res read_client [0..<m] (s, tmp, replicate ?N 0) =
      Inr (s1, tmp1, map of_nat (take m clients) @ replicate (?N - m) 0)" "spells (drop m clients) s1" by auto
  have m: "m < ?N" using Suc.prems by simp
  then have "drop m clients = clients ! m # drop (Suc m) clients" by (simp add: Cons_nth_drop_Suc)
  then obtain s2 where s2: "fscanf_d True (s1, tmp1) = (s2, of_nat (clients ! m))" "spells (drop (Suc m) clients) s2"
    using fscanf_spelled [of "clients ! m" "drop (Suc m) clients" s1 True tmp1] s1(2) by auto
  have "?N - m = Suc (?N - Suc m)" using m by simp
  then have "(map of_nat (take m clients) @ replicate (?N - m) (0 :: u8))[m := of_nat (clients ! m)] =
      map of_nat (take (Suc m) clients) @ replicate (?N - Suc m) 0"
    using m by (simp add: list_update_append take_Suc_conv_app_nth)
  then have "read_client m (s1, tmp1, map of_nat (take m clients) @ replicate (?N - m) 0) =
      Inr (s2, of_nat (clients ! m), map of_nat (take (Suc m) clients) @ replicate (?N - Suc m) 0)"
    using s2(1) m by (simp add: read_client_def ucast_of_nat)
  with s1(1) s2(2) show ?case by (auto simp: foldr_res_snoc)
qed

lemma small_int: "n < 256 \<Longrightarrow> sint (of_nat n :: 32 word) = int n"
  by (simp add: signed_of_nat signed_take_bit_int_eq_self)

lemma read_config_eq:
  assumes "small_config num_cores k nodes clients" and "spells (config_numbers num_cores k nodes clients) s"
  shows "read_config junk s = Inr \<lparr>bc_num_cores = of_nat num_cores, bc_num_replicas = of_nat (length nodes),
    bc_node_size = of_nat k, bc_num_clients = of_nat (length clients), bc_cores = map (\<lambda>n. of_nat (hd n)) nodes,
    bc_cores2 = concat (map row nodes), bc_client_cores = map of_nat clients\<rparr>"
proof -
  note c = assms(1) [unfolded small_config_def]
  from fscanf_spelled [of num_cores _ s True "junk 0"] assms(2) obtain s0 where
    s0: "fscanf_d True (s, junk 0) = (s0, of_nat num_cores)"
    "spells (length nodes # k # length clients # concat nodes @ clients) s0"
    by (auto simp: config_numbers_def)
  from fscanf_spelled [OF s0(2), of True "junk 1"] obtain s1 where
    s1: "fscanf_d True (s0, junk 1) = (s1, of_nat (length nodes))" "spells (k # length clients # concat nodes @ clients) s1" by auto
  from fscanf_spelled [OF s1(2), of True "junk 2"] obtain s2 where
    s2: "fscanf_d True (s1, junk 2) = (s2, of_nat k)" "spells (length clients # concat nodes @ clients) s2" by auto
  from fscanf_spelled [OF s2(2), of True "junk 3"] obtain s3 where
    s3: "fscanf_d True (s2, junk 3) = (s3, of_nat (length clients))" "spells (concat nodes @ clients) s3" by auto
  from read_nodes [OF s3(2), of k "length nodes" "junk 4"] c obtain s4 tmp4 where
    s4: "foldr_res (\<lambda>i. foldr_res (read_core k i) [0..<k]) [0..<length nodes]
        (s3, junk 4, replicate (length nodes) 0, replicate (length nodes * k) 0) =
      Inr (s4, tmp4, map (\<lambda>n. of_nat (hd n)) nodes, concat (map row nodes))" "spells clients s4" by auto
  from read_clients_loop [OF s4(2), of "length clients" tmp4] obtain s5 tmp5 where
    s5: "foldr_res read_client [0..<length clients] (s4, tmp4, replicate (length clients) 0) = Inr (s5, tmp5, map of_nat clients)"
    by auto
  have i: "sint (of_nat (length nodes) :: 32 word) = int (length nodes)" "sint (of_nat k :: 32 word) = int k"
    "sint (of_nat (length clients) :: 32 word) = int (length clients)"
    using c by (simp_all add: small_int)
  have "nat (int (length nodes) * int k) = length nodes * k" by (simp add: nat_mult_distrib)
  moreover have "\<not> int (length nodes) * int k \<le> 0" using c by (simp add: mult_le_0_iff)
  ultimately show ?thesis using s0(1) s1(1) s2(1) s3(1) s4(1) s5 i c
    by (simp add: read_config_def read_counts_def read_cores_def read_clients_def cleared_array_def)
qed

subsection \<open>Starting the node level\<close>

lemma start_node_replicas_succeed:
  "\<forall>i \<in> set is. i < length (cl_cores (ct_node t)) \<and> i < length (ct_args t) \<and>
     (\<exists>cs. node_cores_of (ct_node t) i = Inr cs) \<Longrightarrow>
   \<exists>t' ss'. foldr_res (start_node_replica alg) is (t, ss) = Inr (t', ss')"
proof (induction "is" arbitrary: t ss)
  case Nil
  then show ?case by simp
next
  case (Cons x xs)
  then obtain cs where cs: "node_cores_of (ct_node t) x = Inr cs" "x < length (cl_cores (ct_node t))" "x < length (ct_args t)"
    by auto
  let ?t = "t\<lparr>ct_args := (ct_args t)[x := node_args (ct_node t) alg x cs (cl_cores (ct_node t) ! x) (ct_args t ! x)]\<rparr>"
  have "start_node_replica alg x (t, ss) = Inr (?t, ss @ [Start_node (cl_cores (ct_node t) ! x) (ct_replica_fn t) (Thr_args x)])"
    using cs by (simp add: start_node_replica_eq)
  moreover have "\<forall>i \<in> set xs. i < length (cl_cores (ct_node ?t)) \<and> i < length (ct_args ?t) \<and>
     (\<exists>cs. node_cores_of (ct_node ?t) i = Inr cs)" using Cons.prems by simp
  ultimately show ?case using Cons.IH [of ?t] by simp
qed

lemma node_level_starts:
  assumes "0 < n" and "n = unat (cl_num_cores (ct_node t))"
    and "\<forall>i < n. i < length (cl_cores (ct_node t)) \<and> i < length (ct_args t) \<and> (\<exists>cs. node_cores_of (ct_node t) i = Inr cs)"
  shows "\<exists>t'. init_protocol_node alg t = Inr (t', starts_of (ct_replica_fn t) (cl_cores (ct_node t)) [0..<n]) \<and>
    (\<forall>i < n. \<exists>cs. deref_args t' (Thr_args i) =
       Inr (node_args (ct_node t) alg i cs (cl_cores (ct_node t) ! i) (ct_args t ! i)))"
proof -
  have "\<forall>i \<in> set [0..<n]. i < length (cl_cores (ct_node t)) \<and> i < length (ct_args t) \<and>
      (\<exists>cs. node_cores_of (ct_node t) i = Inr cs)" using assms(3) by simp
  from start_node_replicas_succeed [OF this, of alg "[]"]
  obtain t2 ss where all: "foldr_res (start_node_replica alg) [0..<n] (t, []) = Inr (t2, ss)" by blast
  note st = start_node_replicas [OF all distinct_upt]
  have split: "[0..<n] = 0 # [1..<n]" using assms(1) by (simp add: upt_conv_Cons)
  from all obtain ts where ts: "start_node_replica alg 0 (t, []) = Inr ts" "foldr_res (start_node_replica alg) [1..<n] ts = Inr (t2, ss)"
    unfolding split by (auto simp: bindr_eq_Inr)
  have "ct_node (fst ts) = ct_node t" using ts(1) by (cases ts) (auto simp: start_node_replica_eq)
  with ts assms(2) have "init_protocol_node alg t = Inr (t2\<lparr>ct_node := (ct_node t2)\<lparr>cl_init_done := True\<rparr>\<rparr>, ss)"
    by (simp add: init_protocol_node_def)
  moreover have ss: "ss = starts_of (ct_replica_fn t) (cl_cores (ct_node t)) [0..<n]" using st by simp
  moreover have "\<exists>cs. ct_args t2 ! i = node_args (ct_node t) alg i cs (cl_cores (ct_node t) ! i) (ct_args t ! i) \<and>
      i < length (ct_args t2)" if "i < n" for i
  proof -
    have "i \<in> set [0..<n]" using that by simp
    with st show ?thesis by metis
  qed
  then have "\<forall>i < n. \<exists>cs. deref_args (t2\<lparr>ct_node := (ct_node t2)\<lparr>cl_init_done := True\<rparr>\<rparr>) (Thr_args i) =
      Inr (node_args (ct_node t) alg i cs (cl_cores (ct_node t) ! i) (ct_args t ! i))" by simp
  ultimately show ?thesis
    by (intro exI [of _ "t2\<lparr>ct_node := (ct_node t2)\<lparr>cl_init_done := True\<rparr>\<rparr>"]) simp
qed

lemma peers_found:
  assumes "nodes \<noteq> []" and "length nodes < 256"
  shows "\<exists>p. bench_peers False False numa protocol (of_nat (length nodes)) (map f nodes) core = Inr p"
proof -
  have "unat (of_nat (length nodes) :: u8) = length nodes" using assms(2) by (rule small_word)
  moreover have "(of_nat (length nodes) :: u8) \<noteq> 0"
    using calculation assms(1) by (metis length_0_conv unsigned_0)
  ultimately show ?thesis using assms by (auto simp: bench_peers_def)
qed

lemma clients_start:
  assumes "nodes \<noteq> []" and "length nodes < 256" and "length clients \<le> 64"
  shows "\<exists>bs. consensus_bench_clients_init False False numa num_cores clients (of_nat (length clients))
    (of_nat (length nodes)) 0 protocol below topo (map f nodes) = Inr bs \<and> length bs = length clients \<and>
    (\<forall>i < length clients. ba_core (bs ! i) = clients ! i \<and> ba_protocol (bs ! i) = protocol)"
proof -
  have n: "unat (of_nat (length clients) :: u8) = length clients" using assms(3) by (intro small_word) simp
  let ?f = "bench_client_args False False numa num_cores clients (of_nat (length clients))
    (of_nat (length nodes)) 0 protocol below topo (map f nodes)"
  have each: "\<exists>b. ?f i = Inr b \<and> ba_core b = clients ! i \<and> ba_protocol b = protocol" if "i < length clients" for i
    using peers_found [OF assms(1,2), of numa protocol f "clients ! i"] that assms(3)
    by (auto simp: bench_client_args_def)
  then obtain g where g: "\<And>i. i < length clients \<Longrightarrow> ?f i = Inr (g i) \<and> ba_core (g i) = clients ! i \<and> ba_protocol (g i) = protocol"
    by metis
  then have "mapr ?f [0..<length clients] = Inr (map g [0..<length clients])" by (intro mapr_all_Inr) simp
  with g n show ?thesis by (simp add: consensus_bench_clients_init_def)
qed

lemma rows_length:
  "\<forall>n \<in> set nodes. length n = k \<Longrightarrow> 0 < k \<Longrightarrow> length (concat (map row nodes)) = length nodes * k"
  by (induction nodes) (auto simp: row_def)

lemma arguments_none:
  "alg < 10 \<Longrightarrow> read_arguments [prog, dec alg, ''6'', cfg] = (of_nat alg, 6, cfg, 0, [])"
proof -
  assume a: "alg < 10"
  then have d: "dec alg = [char_of (48 + alg)]" by (subst dec.simps) simp
  obtain m where m: "\<And>a s. digits a (dec alg @ s) = digits (a * m + int alg) s" using digits_dec by blast
  have "is_digit (char_of (48 + alg))" using digit_char [OF a] by simp
  then have nd: "\<not> is_space (char_of (48 + alg))" "char_of (48 + alg) \<noteq> CHR ''-''" "char_of (48 + alg) \<noteq> CHR ''+''"
    by (auto simp: is_space_def is_digit_def simp del: of_char_of)
  have "fst (digits 0 (dec alg)) = int alg" using m [of 0 "[]"] by simp
  with d nd have "atol (dec alg) = int alg" by (simp add: atol_def)
  moreover have "atol ''6'' = 6" by code_simp
  ultimately show ?thesis by (simp add: read_arguments_def)
qed

subsection \<open>Properties\<close>

text \<open>
  C25: the configuration reader inverts the format of the README: from any text that spells the
  numbers of a configuration, with any white space between them, it reads the four counts,
  the first core of each node as the replica's, the others of the node as a row of
  \<^verbatim>\<open>cores2\<close> whose last entry stays 0, and the clients' cores.
\<close>

theorem bench_reads_config:
  assumes "small_config num_cores k nodes clients" and "spells (config_numbers num_cores k nodes clients) s"
  shows "read_config junk s = Inr \<lparr>bc_num_cores = of_nat num_cores, bc_num_replicas = of_nat (length nodes),
    bc_node_size = of_nat k, bc_num_clients = of_nat (length clients), bc_cores = map (\<lambda>n. of_nat (hd n)) nodes,
    bc_cores2 = concat (map row nodes), bc_client_cores = map of_nat clients\<rparr>"
  by (rule read_config_eq [OF assms])

theorem bench_reads_config_witness:
  "read_config (\<lambda>_. 7) ''9 2 3 1 
0 1 2 
3 4 5 
8 '' = Inr \<lparr>bc_num_cores = 9, bc_num_replicas = 2, bc_node_size = 3, bc_num_clients = 1, bc_cores = [0, 3],
    bc_cores2 = [1, 2, 0, 4, 5, 0], bc_client_cores = [8]\<rparr>"
proof -
  have "config_numbers 9 3 [[0, 1, 2], [3, 4, 5]] [8] = [9, 2, 3, 1, 0, 1, 2, 3, 4, 5, 8]"
    by (simp add: config_numbers_def)
  moreover have "spells [9, 2, 3, 1, 0, 1, 2, 3, 4, 5, 8] ''9 2 3 1 
0 1 2 
3 4 5 
8 ''"
    unfolding spells_def
    by (intro exI [of _ "[]"] exI [of _ "['' '', '' '', '' '', '' 
'', '' '', '' '', '' 
'', '' '', '' '', '' 
'', '' '']"]) code_simp
  ultimately show ?thesis
    using bench_reads_config [of 9 3 "[[0, 1, 2], [3, 4, 5]]" "[8]" "''9 2 3 1 
0 1 2 
3 4 5 
8 ''" "\<lambda>_. 7"]
    by (simp add: small_config_def row_def)
qed

text \<open>The node-level part of the layer that the benchmark sets up, and the benchmark up to the start of the threads.\<close>

definition bench_node :: "nat \<Rightarrow> nat \<Rightarrow> nat list list \<Rightarrow> nat list \<Rightarrow> exec_fn \<Rightarrow> com_layer" where
  "bench_node alg k nodes clients fn = (ct_node (fresh_thread Null_fn Null_fn))\<lparr>cl_algorithm := of_nat alg,
      cl_cores := map (\<lambda>n. of_nat (hd n)) nodes, cl_node_cores := concat (map row nodes),
      cl_num_cores := of_nat (length nodes), cl_alg_below := 6, cl_node_size := of_nat k,
      cl_num_clients := of_nat (length clients), cl_exec_func := Some fn, cl_client_cores := map of_nat clients\<rparr>"

lemma bench_main_starts:
  assumes "small_config num_cores k nodes clients" and "spells (config_numbers num_cores k nodes clients) s"
    and "length nodes \<le> 64" and "length clients \<le> 64" and "k \<le> length nodes"
    and "alg < 5" and "files cfg = Some s"
  shows "\<exists>out t' bs. bench_main False False True numa files junk fn [prog, dec alg, ''6'', cfg] (fresh_thread Null_fn Null_fn) =
      Inr (Started out t' (starts_of Init_replica (map (\<lambda>n. of_nat (hd n)) nodes) [0..<length nodes]) bs) \<and>
    length bs = length clients \<and> (\<forall>i < length clients. ba_core (bs ! i) = of_nat (clients ! i)) \<and>
    (\<forall>i < length nodes. \<exists>cs. deref_args t' (Thr_args i) = Inr (node_args (bench_node alg k nodes clients fn) (of_nat alg) i cs
       (map (\<lambda>n. of_nat (hd n)) nodes ! i) zero_args))"
proof -
  note c = assms(1) [unfolded small_config_def]
  let ?cores = "map (\<lambda>n. of_nat (hd n)) nodes :: u8 list" and ?cores2 = "concat (map row nodes)"
  let ?N = "length nodes" and ?t0 = "fresh_thread Null_fn Null_fn"
  let ?node = "(ct_node ?t0)\<lparr>cl_algorithm := of_nat alg, cl_cores := ?cores, cl_node_cores := ?cores2,
      cl_num_cores := of_nat ?N, cl_alg_below := 6, cl_node_size := of_nat k, cl_num_clients := of_nat (length clients),
      cl_exec_func := Some fn, cl_client_cores := map of_nat clients\<rparr>"
  let ?t1 = "?t0\<lparr>ct_replica_fn := Init_replica, ct_client_fn := Init_benchmark_client, ct_node := ?node\<rparr>"
  have N: "unat (of_nat ?N :: u8) = ?N" "unat (of_nat k :: u8) = k" using c by (simp_all add: small_word)
  have alg8: "unat (of_nat alg :: u8) = alg" using assms(6) by (simp add: small_word)
  then have alg: "(of_nat alg :: u8) < 5" "(of_nat alg :: u8) < 7" "(of_nat alg :: u8) \<noteq> ALG_SHM"
    using assms(6) by (auto simp: word_less_nat_alt ALG_SHM_def)
  have cores: "\<exists>cs. node_cores_of ?node i = Inr cs" if "i < ?N" for i
  proof -
    have "i * k + k \<le> ?N * k" using mult_le_mono1 [of "Suc i" ?N k] that by simp
    moreover have "length ?cores2 = ?N * k" using c by (simp add: rows_length)
    ultimately show ?thesis using N assms(5) by (simp add: node_cores_of_def core_tmp_eq Let_def)
  qed
  have "0 < ?N" "?N = unat (cl_num_cores (ct_node ?t1))" using c N by simp_all
  moreover have "\<forall>i < ?N. i < length (cl_cores (ct_node ?t1)) \<and> i < length (ct_args ?t1) \<and>
      (\<exists>cs. node_cores_of (ct_node ?t1) i = Inr cs)"
    using cores assms(3) by (simp add: fresh_thread_def)
  ultimately obtain t' where t': "init_protocol_node (of_nat alg) ?t1 = Inr (t', starts_of Init_replica ?cores [0..<?N])"
    "\<forall>i < ?N. \<exists>cs. deref_args t' (Thr_args i) = Inr (node_args ?node (of_nat alg) i cs (?cores ! i) zero_args)"
    using node_level_starts [of ?N ?t1 "of_nat alg"] assms(3) by (auto simp: fresh_thread_def)
  have u: "ucast (of_nat n :: 32 word) = (of_nat n :: u8)" for n by (rule ucast_of_nat)
  obtain bs where bs: "consensus_bench_clients_init False False numa (of_nat num_cores) (map of_nat clients)
      (of_nat (length clients)) (of_nat ?N) 0 (of_nat alg) 6 0 ?cores = Inr bs" "length bs = length clients"
    "\<forall>i < length clients. ba_core (bs ! i) = map of_nat clients ! i"
    using clients_start [of nodes "map of_nat clients" numa "of_nat num_cores" "of_nat alg" 6 0 "\<lambda>n. of_nat (hd n)"]
      c assms(4) by (auto simp del: map_map)
  have "\<exists>out. bench_main False False True numa files junk fn [prog, dec alg, ''6'', cfg] ?t0 =
      Inr (Started out t' (starts_of Init_replica ?cores [0..<?N]) bs)"
    using t'(1) bs(1) assms(6,7) alg arguments_none [of alg prog cfg]
    by (simp add: bench_main_def read_config_eq [OF assms(1,2)] u consensus_init_def)
  with bs(2,3) t'(2) show ?thesis unfolding bench_node_def by auto
qed

text \<open>
  C24: started with a message-passing protocol and no core level, the benchmark starts one node
  per line of the configuration, on the line's first core; each finds its own arguments, and
  with them runs the loop of the chosen protocol with its index as its id, all replicas of the
  configuration, and the application function of the program; and it starts one client per
  client core.
\<close>

theorem bench_starts_replicas:
  assumes "small_config num_cores k nodes clients" and "spells (config_numbers num_cores k nodes clients) s"
    and "length nodes \<le> 64" and "length clients \<le> 64" and "k \<le> length nodes"
    and "alg < 5" and "files cfg = Some s"
  shows "\<exists>out t' ss bs. bench_main False False True numa files junk fn [prog, dec alg, ''6'', cfg]
        (fresh_thread Null_fn Null_fn) = Inr (Started out t' ss bs) \<and>
    length ss = length nodes \<and> length bs = length clients \<and>
    (\<forall>i < length nodes. \<exists>a t m. ss ! i = Start_node (of_nat (hd (nodes ! i))) Init_replica (Thr_args i) \<and>
       deref_args t' (Thr_args i) = Inr a \<and>
       init_replica env a (fresh_vars junk') = Inr (t, [], m, Running (loop_of (of_nat alg))) \<and>
       r_id (protocol_state t) = of_nat i \<and> r_replicas (protocol_state t) = map (\<lambda>n. of_nat (hd n)) nodes \<and>
       protocol_exec t = Some fn) \<and>
    (\<forall>i < length clients. ba_core (bs ! i) = of_nat (clients ! i))"
proof -
  let ?cores = "map (\<lambda>n. of_nat (hd n)) nodes :: u8 list" and ?N = "length nodes"
  obtain out t' bs where main: "bench_main False False True numa files junk fn [prog, dec alg, ''6'', cfg]
        (fresh_thread Null_fn Null_fn) = Inr (Started out t' (starts_of Init_replica ?cores [0..<?N]) bs)"
    "length bs = length clients" "\<forall>i < length clients. ba_core (bs ! i) = of_nat (clients ! i)"
    and args: "\<forall>i < ?N. \<exists>cs. deref_args t' (Thr_args i) =
       Inr (node_args (bench_node alg k nodes clients fn) (of_nat alg) i cs (?cores ! i) zero_args)"
    using bench_main_starts [where files = files and cfg = cfg, OF assms] by blast
  have N: "unat (of_nat ?N :: u8) = ?N" using assms(3) by (simp add: small_word)
  have "unat (of_nat alg :: u8) = alg" using assms(6) by (simp add: small_word)
  then have alg: "(of_nat alg :: u8) < 5" using assms(6) by (simp add: word_less_nat_alt)
  have each: "\<forall>i < ?N. \<exists>a t m. starts_of Init_replica ?cores [0..<?N] ! i =
      Start_node (of_nat (hd (nodes ! i))) Init_replica (Thr_args i) \<and> deref_args t' (Thr_args i) = Inr a \<and>
      init_replica env a (fresh_vars junk') = Inr (t, [], m, Running (loop_of (of_nat alg))) \<and>
      r_id (protocol_state t) = of_nat i \<and> r_replicas (protocol_state t) = ?cores \<and> protocol_exec t = Some fn"
  proof (intro allI impI)
    fix i assume i: "i < ?N"
    with args obtain cs where a: "deref_args t' (Thr_args i) =
        Inr (node_args (bench_node alg k nodes clients fn) (of_nat alg) i cs (?cores ! i) zero_args)" by blast
    from init_message_protocol [of "node_args (bench_node alg k nodes clients fn) (of_nat alg) i cs (?cores ! i) zero_args" env junk']
      alg N assms(3) a i
    show "\<exists>a t m. starts_of Init_replica ?cores [0..<?N] ! i =
      Start_node (of_nat (hd (nodes ! i))) Init_replica (Thr_args i) \<and> deref_args t' (Thr_args i) = Inr a \<and>
      init_replica env a (fresh_vars junk') = Inr (t, [], m, Running (loop_of (of_nat alg))) \<and>
      r_id (protocol_state t) = of_nat i \<and> r_replicas (protocol_state t) = ?cores \<and> protocol_exec t = Some fn"
      by (auto simp: node_args_def started_as_def ALG_NONE_def choose_exec_def bench_node_def starts_of_def)
  qed
  have "length (starts_of Init_replica ?cores [0..<?N]) = ?N" by (simp add: starts_of_def)
  with main each show ?thesis by blast
qed

theorem bench_starts_replicas_witness:
  "\<exists>out t' ss bs. bench_main False False True (\<lambda>_. 0) (\<lambda>_. Some ''6 2 1 1 0 3 5 '') (\<lambda>_. 7) (App_exec_fn 0)
       [''bench'', dec 3, ''6'', ''c''] (fresh_thread Null_fn Null_fn) = Inr (Started out t' ss bs) \<and> length ss = 2"
proof -
  have "config_numbers 6 1 [[0], [3]] [5] = [6, 2, 1, 1, 0, 3, 5]" by (simp add: config_numbers_def)
  moreover have "spells [6, 2, 1, 1, 0, 3, 5] ''6 2 1 1 0 3 5 ''"
    unfolding spells_def by (intro exI [of _ "[]"] exI [of _ "replicate 7 '' ''"]) code_simp
  ultimately have sp: "spells (config_numbers 6 1 [[0], [3]] [5]) ''6 2 1 1 0 3 5 ''" by simp
  have h: "small_config 6 1 [[0], [3]] [5]" "length [[0 :: nat], [3]] \<le> 64" "length [5 :: nat] \<le> 64"
    "1 \<le> length [[0 :: nat], [3]]" "3 < (5 :: nat)"
    by (simp_all add: small_config_def)
  have two: "length [[0 :: nat], [3]] = 2" by simp
  note r = bench_starts_replicas [OF h(1) sp h(2-5), where files = "\<lambda>_. Some ''6 2 1 1 0 3 5 ''" and cfg = "''c''",
      unfolded two, OF refl, of "\<lambda>_. 0" "\<lambda>_. 7" "App_exec_fn 0" "''bench''" example_env "\<lambda>_. undefined"]
  show ?thesis by (insert r, elim exE conjE, intro exI conjI, assumption+)
qed

end
