(* ===== verification/Tpc_Smlt.thy ===== *)
theory Tpc_Smlt
  imports Tpc
begin

text \<open>
  Two-phase commit in the build with Smelt's collectives: the leader broadcasts prepares and
  commits, a follower answers a prepare with its contribution to a reduction, and the leader
  commits what the reduction gives it. The broadcast is that of \<open>Network\<close>: once to every other replica, in an
  order that is Smelt's. What a
  reduction gives the leader, and when, is left open: it is among the messages that may arrive
  from outside the replicas at any time.
\<close>

text \<open>The body of the two loops, as a handler of one message.\<close>

definition tpc_smlt_handler :: "tpc_replica ctx \<Rightarrow> tpc_replica ctx res" where
  "tpc_smlt_handler c =
     (if r_id (cx_rep c) = 0 then message_handler_tpc True c else follower_loop_smlt (cx_msg c) c)"

definition tpc_smlt_proto :: "u8 list \<times> u8 list \<Rightarrow> conf \<Rightarrow> tpc_replica proto" where
  "tpc_smlt_proto heap C = (tpc_proto heap C)\<lparr>p_handler := \<lambda>c. delivered C (tpc_smlt_handler c)\<rparr>"

lemma tpc_smlt_proto_simps [simp]:
  "p_start (tpc_smlt_proto heap C) = tpc_start heap C"
  "0 < i \<Longrightarrow> p_polls (tpc_smlt_proto heap C) i q \<longleftrightarrow> q = core_of C 0"
  by (simp_all add: tpc_smlt_proto_def tpc_proto_def)

lemma smlt_request_Inr:
  assumes "handle_request_tpc True c = Inr c'"
  shows "same_config (cx_rep c) (cx_rep c') \<and>
    (if r_id (cx_rep c) = 0 then cx_acts c' = cx_acts c @ [Bcast (put_tag 0 TPC_PREP (cx_msg c))]
     else \<exists>d. cx_acts c' = cx_acts c @ [Send d (cx_msg c)])"
  using assms
  by (cases "r_id (cx_rep c) = 0")
    (auto simp: handle_request_tpc_def Let_def res_simps reset_counters_def stmts)

lemma smlt_ready_Inr:
  assumes "handle_ready_smlt c = Inr c'" and wf: "wf_msg (cx_msg c)"
  shows "same_config (cx_rep c) (cx_rep c') \<and>
    (if r_id (cx_rep c) \<noteq> 0 then \<exists>s. cx_acts c' = cx_acts c @ [Print s]
     else \<exists>f m' m''. wf_msg m' \<and> msg_tag m' = TPC_COM \<and> payload m' = payload (cx_msg c) \<and>
       wf_msg m'' \<and> msg_tag m'' = RESP_TAG \<and> payload m'' = payload (cx_msg c) \<and>
       unat (msg_cid m'') < length (r_clients (cx_rep c)) \<and>
       cx_acts c' = cx_acts c @ [Bcast m', Exec f (payload (cx_msg c)),
         Send (unat (r_clients (cx_rep c) ! unat (msg_cid m''))) m''])"
proof (cases "r_id (cx_rep c) = 0")
  case False
  then show ?thesis using assms(1) by (auto simp: handle_ready_smlt_def Let_def stmts)
next
  case True
  let ?m = "(put_tag 0 TPC_COM (cx_msg c))[3 := t_index (cx_rep c)]"
  let ?n = "put_tag 0 RESP_TAG ?m"
  obtain f where c': "cx_rep c' = (cx_rep c)\<lparr>t_index := t_index (cx_rep c) + 1\<rparr>"
    "unat (msg_cid ?n) < length (r_clients (cx_rep c))"
    "cx_acts c' = cx_acts c @ [Bcast ?m, Exec f (payload ?m), Send (unat (r_clients (cx_rep c) ! unat (msg_cid ?n))) ?n]"
    using assms(1) True
    by (auto simp: handle_ready_smlt_def Let_def res_simps next_index_def put_index_def stmts update_value_tpc_def
        split: option.splits)
  have m: "wf_msg ?m" "msg_tag ?m = TPC_COM" "payload ?m = payload (cx_msg c)" using wf by (simp_all add: hdr)
  then have n: "wf_msg ?n" "msg_tag ?n = RESP_TAG" "payload ?n = payload (cx_msg c)" by (simp_all add: hdr)
  have "if r_id (cx_rep c) \<noteq> 0 then \<exists>s. cx_acts c' = cx_acts c @ [Print s] else
       \<exists>f m' m''. wf_msg m' \<and> msg_tag m' = TPC_COM \<and> payload m' = payload (cx_msg c) \<and>
       wf_msg m'' \<and> msg_tag m'' = RESP_TAG \<and> payload m'' = payload (cx_msg c) \<and>
       unat (msg_cid m'') < length (r_clients (cx_rep c)) \<and>
       cx_acts c' = cx_acts c @ [Bcast m', Exec f (payload (cx_msg c)),
         Send (unat (r_clients (cx_rep c) ! unat (msg_cid m''))) m'']"
    unfolding if_not_P [OF not_not [THEN iffD2, OF True]]
    by (rule exI [of _ f], rule exI [of _ ?m], rule exI [of _ ?n]) (use m n c'(2,3) in simp)
  with c'(1) show ?thesis by simp
qed

lemma follower_body: "follower_loop_smlt (cx_msg c) c = (if msg_tag (cx_msg c) = TPC_PREP
    then bindr (st_tag TPC_RDY c) (\<lambda>c. st_act (Reduce (cx_msg c)) c) else message_handler_tpc True c)"
  by (simp add: follower_loop_smlt_def)

text \<open>With the broadcasts delivered, both roles do what two-phase commit does.\<close>

lemma smlt_request_does:
  assumes loc: "tpc_local C i c" and run: "handle_request_tpc True (c\<lparr>cx_msg := m, cx_acts := []\<rparr>) = Inr c0"
    and tag: "msg_tag m = REQ_TAG"
  shows "tpc_does C i m c (c0\<lparr>cx_acts := spread C (cx_acts c0)\<rparr>)"
proof -
  note l = local_fields [OF loc] and rq = smlt_request_Inr [OF run]
  show ?thesis
  proof (cases "i = 0")
    case True
    with rq l(1) have "same_config (cx_rep c) (cx_rep c0)"
      "spread C (cx_acts c0) = map (\<lambda>d. Send (unat d) (put_tag 0 TPC_PREP m)) (bcast_order C (put_tag 0 TPC_PREP m))"
      by simp_all
    with True tag show ?thesis using prepares_does [OF _ tag bcast_order_each] by simp
  next
    case False
    with rq l(1) obtain d where "cx_acts c0 = [Send d (put_tag 0 REQ_TAG m)]" "same_config (cx_rep c) (cx_rep c0)"
      by (auto simp: put_tag_same [OF tag])
    with False tag show ?thesis by (auto simp: tpc_does_def)
  qed
qed

lemma smlt_ready_does:
  assumes loc: "tpc_local C i c" and wf: "wf_msg m" and run: "handle_ready_smlt (c\<lparr>cx_msg := m, cx_acts := []\<rparr>) = Inr c0"
    and tag: "msg_tag m = TPC_RDY"
  shows "tpc_does C i m c (c0\<lparr>cx_acts := spread C (cx_acts c0)\<rparr>)"
proof -
  note l = local_fields [OF loc]
  have "wf_msg (cx_msg (c\<lparr>cx_msg := m, cx_acts := []\<rparr>))" using wf by simp
  note rd = smlt_ready_Inr [OF run this]
  show ?thesis
  proof (cases "i = 0")
    case True
    with rd l obtain f m' m'' where r: "wf_msg m'" "msg_tag m' = TPC_COM" "payload m' = payload m" "wf_msg m''"
      "msg_tag m'' = RESP_TAG" "payload m'' = payload m" "unat (msg_cid m'') < length (cf_clients C)"
      "cx_acts c0 = [Bcast m', Exec f (payload m), Send (unat (cf_clients C ! unat (msg_cid m''))) m'']"
      by auto
    have "tpc_commits C m (spread C (cx_acts c0))"
      unfolding tpc_commits_def
      by (rule exI [of _ f], rule exI [of _ "[]"], rule exI [of _ m'], rule exI [of _ m''],
          rule exI [of _ "bcast_order C m'"]) (use r in \<open>simp add: silent_def\<close>)
    with True tag rd show ?thesis by (simp add: tpc_does_def)
  next
    case False
    with rd l(1) tag show ?thesis by (auto simp: tpc_does_def)
  qed
qed

lemma tpc_smlt_does:
  assumes C: "conf_wf C" and i: "i < length (cf_cores C)" and loc: "tpc_local C i c"
    and wf: "wf_msg m" and run: "run_on (tpc_smlt_proto heap C) c m = Inr c'"
  shows "tpc_does C i m c c'"
proof -
  let ?c = "c\<lparr>cx_msg := m, cx_acts := []\<rparr>"
  obtain c0 where c0: "tpc_smlt_handler ?c = Inr c0" and c': "c' = c0\<lparr>cx_acts := spread C (cx_acts c0)\<rparr>"
    using run by (auto simp: run_on_def tpc_smlt_proto_def delivered_def res_simps)
  have h: "tpc_smlt_handler ?c = (if 0 < i \<and> msg_tag m = TPC_PREP
      then bindr (st_tag TPC_RDY ?c) (\<lambda>c. st_act (Reduce (cx_msg c)) c) else message_handler_tpc True ?c)"
    using local_fields(1) [OF loc] follower_body [of ?c] by (simp add: tpc_smlt_handler_def)
  consider (reduce) "0 < i" "msg_tag m = TPC_PREP" "\<exists>x. cx_acts c0 = [Reduce x]" "cx_rep c0 = cx_rep c"
    | (req) "msg_tag m = REQ_TAG" "handle_request_tpc True ?c = Inr c0"
    | (ready) "msg_tag m = TPC_RDY" "handle_ready_smlt ?c = Inr c0"
    | (other) "msg_tag m \<noteq> REQ_TAG" "msg_tag m \<noteq> TPC_RDY" "message_handler_tpc True ?c = Inr c0"
    using c0 unfolding h
    by (auto simp: message_handler_tpc_def Let_def stmts tpc_tags [symmetric] split: if_splits)
  then show ?thesis
  proof cases
    case reduce
    then obtain x where "cx_acts c0 = [Reduce x]" by blast
    then have "cx_acts c' = [Reduce x]" by (simp add: c' spread_none)
    with reduce show ?thesis by (simp add: tpc_does_def c')
  next
    case req
    with smlt_request_does [OF loc] show ?thesis by (simp add: c')
  next
    case ready
    with smlt_ready_does [OF loc wf] show ?thesis by (simp add: c')
  next
    case other
    with alike_does [OF loc wf other(3,1,2)] show ?thesis by (simp add: c')
  qed
qed

interpretation tpc_smlt_log: valid_replication "tpc_smlt_proto heap" "\<lambda>_. 0" TPC_COM tpc_local for heap
proof (unfold_locales, goal_cases)
  case (1 i)
  then show ?case by simp
next
  case (2 C i c)
  then show ?case by (simp add: tpc_start_local)
next
  case (3 C i c m c')
  show ?case by (rule does_local [OF tpc_smlt_does [OF 3] 3(3)])
next
  case (4 C i c m c' m' d)
  show ?case using does_sends [OF tpc_smlt_does [OF 4(1-5)] 4(4,6)] by blast
next
  case (5 C i q)
  then show ?case by simp
next
  case (6 C i c m c')
  show ?case by (rule does_child [OF tpc_smlt_does [OF 6(1,3-6)] 6(2)])
next
  case (7 C i c m c')
  have "0 < length (cf_cores C)" using 7(3) by linarith
  from does_parent [OF tpc_smlt_does [OF 7(1) this 7(4-6)] 7(1-3,5)] show ?case .
next
  case (8 C i c m c' m' d)
  show ?case using does_sends [OF tpc_smlt_does [OF 8(1-5)] 8(4,6)] by blast
next
  case (9 C i c m c' p)
  show ?case using does_exec [OF tpc_smlt_does [OF 9(1-5)] 9(6)] by blast
qed

subsection \<open>Property\<close>

text \<open>
  C5: two-phase commit agrees in the build with Smelt's broadcast and reduction: whatever the
  reductions deliver to the leader and whenever they do, of the command sequences any two
  replicas have executed one is a prefix of the other; they are equal once nothing is pending
  or in transit; and they hold only commands that reached the leader from outside.
\<close>

theorem tpc_smlt_agreement:
  assumes "conf_wf C" and "net_reach C (tpc_smlt_proto heap C) s"
    and "i < length (cf_cores C)" and "j < length (cf_cores C)"
  shows "(prefix (n_log s i) (n_log s j) \<or> prefix (n_log s j) (n_log s i)) \<and> set (n_log s i) \<subseteq> set (n_sent s) \<and>
    (tpc_smlt_log.quiet C s \<longrightarrow> n_log s i = n_log s j)"
  using tpc_smlt_log.agreement [OF assms] tpc_smlt_log.validity [OF assms(1-3)]
    tpc_smlt_log.quiet_same [OF assms(1,2) _ assms(3)] tpc_smlt_log.quiet_same [OF assms(1,2) _ assms(4)] by simp

subsection \<open>Witness\<close>

definition tpc_smlt_choices :: "choice list" where
  "tpc_smlt_choices = [Client_send 5 0 example_request, Receive 0 5, Act 0, Act 0, Receive 1 0, Act 1, Receive 2 0, Act 2,
     Client_send 5 0 (put_tag 0 TPC_RDY example_request), Receive 0 5, Act 0, Act 0, Act 0, Receive 2 0, Act 2]"

lemma tpc_smlt_run:
  "case net_run example_conf (tpc_smlt_proto example_heap example_conf) tpc_smlt_choices (empty_net tpc_example) of
     None \<Rightarrow> False
   | Some s \<Rightarrow> n_log s 0 = [[11, 12, 13]] \<and> n_log s 1 = [] \<and> n_log s 2 = [[11, 12, 13]]"
  by code_simp

theorem tpc_smlt_agreement_witness:
  "\<exists>s. net_reach example_conf (tpc_smlt_proto example_heap example_conf) s \<and> n_log s 1 = [] \<and>
     n_log s 2 = [[11, 12, 13]] \<and> set (n_log s 2) \<subseteq> set (n_sent s)"
proof -
  obtain s where s: "net_run example_conf (tpc_smlt_proto example_heap example_conf) tpc_smlt_choices
      (empty_net tpc_example) = Some s" and l: "n_log s 1 = []" "n_log s 2 = [[11, 12, 13]]"
    using tpc_smlt_run by (auto split: option.splits)
  have r: "net_reach example_conf (tpc_smlt_proto example_heap example_conf) s"
    by (rule example_reach [OF _ s]) (simp add: tpc_example_start)
  with tpc_smlt_agreement [OF example_conf_wf r, of 2 1] l show ?thesis by auto
qed

end
