(* ===== verification/Tpc_Live.thy ===== *)
theory Tpc_Live
  imports Tpc Progress
begin

text \<open>
  Progress of two-phase commit in the build without Smelt's collectives. A request resets the
  counter of ready messages of its client, so progress needs clients that wait for the answer
  before they send the next request, as the client library does; \<open>client_run\<close> is a run with such
  clients. What makes the leader commit is a balance: the prepare and ready messages of a
  client that are on their way and those the leader has counted are one for every follower.
\<close>

subsection \<open>What a replica does, exactly\<close>

definition tpc_fit :: "conf \<Rightarrow> nat \<Rightarrow> tpc_replica ctx \<Rightarrow> bool" where
  "tpc_fit C i c \<longleftrightarrow> tpc_local C i c \<and> r_alg_below (cx_rep c) = ALG_NONE \<and>
     (i = 0 \<longrightarrow> length (cf_clients C) \<le> length (ready_counter (cx_rep c)) \<and>
        length (cf_clients C) \<le> length (ack_counter (cx_rep c)))"

text \<open>The actions that a message leads to, and the counters after it.\<close>

definition tpc_makes :: "conf \<Rightarrow> nat \<Rightarrow> tpc_replica ctx \<Rightarrow> msg \<Rightarrow> action list \<Rightarrow> u8 list \<Rightarrow> bool" where
  "tpc_makes C i c m as rc \<longleftrightarrow> (\<exists>c'. message_handler_tpc False (c\<lparr>cx_msg := m, cx_acts := []\<rparr>) = Inr c' \<and>
     tpc_fit C i c' \<and> cx_acts c' = as \<and> ready_counter (cx_rep c') = rc)"

lemma fit_fields:
  assumes "tpc_fit C i c"
  shows "unat (r_id (cx_rep c)) = i" "r_replicas (cx_rep c) = cf_cores C" "r_clients (cx_rep c) = cf_clients C"
    "unat (r_num_replicas (cx_rep c)) = length (cf_cores C)" "r_level (cx_rep c) = NODE_LEVEL"
    "r_exec (cx_rep c) = Some (choose_exec (cf_exec C))" "r_alg_below (cx_rep c) = ALG_NONE" "r_id (cx_rep c) = 0 \<longleftrightarrow> i = 0"
  using assms by (auto simp: tpc_fit_def tpc_local_def Let_def unat_eq_0)

lemma fit_same:
  assumes "tpc_fit C i c" and "same_config (cx_rep c) (cx_rep c')" and "length (ack_counter (cx_rep c')) = length (ack_counter (cx_rep c))"
  shows "tpc_fit C i c'"
  using assms same_config_fields [OF assms(2)] by (simp add: tpc_fit_def tpc_local_def Let_def)

lemma makes_setup:
  assumes "tpc_fit C i c" and "wf_msg m" and "msg_tag m = SETUP_TAG" and "cf_clients C \<noteq> []"
  shows "\<exists>x. msg_tag x = SETUP_TAG \<and> tpc_makes C i c m [Send (unat (msg_cid m)) x] (ready_counter (cx_rep c))"
proof -
  have "unat (r_num_clients (cx_rep c)) \<le> length (r_clients (cx_rep c))"
    using assms(1,4) by (cases "cf_clients C") (auto simp: tpc_fit_def tpc_local_def Let_def)
  from setup_answers [of "c\<lparr>cx_msg := m, cx_acts := []\<rparr>", OF _ this] assms(2,3) obtain c' x where
    "message_handler_tpc False (c\<lparr>cx_msg := m, cx_acts := []\<rparr>) = Inr c'" "cx_rep c' = cx_rep c"
    "cx_acts c' = [Send (unat (msg_cid m)) x]" "msg_tag x = SETUP_TAG"
    by (auto simp: message_handler_tpc_def handle_setup_tpc_def)
  with fit_same [OF assms(1), of c'] show ?thesis unfolding tpc_makes_def by auto
qed

lemma makes_prepares:
  assumes "tpc_fit C 0 c" and "msg_tag m = REQ_TAG" and "unat (msg_cid m) < length (cf_clients C)"
  shows "tpc_makes C 0 c m (map (\<lambda>d. Send (unat d) (put_tag 0 TPC_PREP m)) (drop 1 (cf_cores C)))
    ((ready_counter (cx_rep c))[unat (msg_cid m) := 0])"
proof -
  note f = fit_fields [OF assms(1)]
  let ?k = "unat (msg_cid m)"
  have len: "?k < length (ready_counter (cx_rep c))" "?k < length (ack_counter (cx_rep c))"
    using assms(1,3) by (auto simp: tpc_fit_def)
  obtain c' where c': "message_handler_tpc False (c\<lparr>cx_msg := m, cx_acts := []\<rparr>) = Inr c'"
    "cx_acts c' = map (\<lambda>d. Send (unat d) (put_tag 0 TPC_PREP m)) (drop 1 (cf_cores C))"
    "cx_rep c' = (cx_rep c)\<lparr>ready_counter := (ready_counter (cx_rep c))[?k := 0], ack_counter := (ack_counter (cx_rep c))[?k := 0]\<rparr>"
    using f assms(2) len
    by (simp add: message_handler_tpc_def Let_def handle_request_tpc_def reset_counters_def stmts st_send_others_eq)
  then have "tpc_fit C 0 c'" by (intro fit_same [OF assms(1)]) simp_all
  with c' show ?thesis by (simp add: tpc_makes_def)
qed

lemma makes_ready:
  assumes "tpc_fit C i c" and "0 < i" and "i < length (cf_cores C)" and "msg_tag m = TPC_PREP"
  shows "tpc_makes C i c m [Send (core_of C 0) (put_tag 0 TPC_RDY m)] (ready_counter (cx_rep c))"
proof -
  have "0 < length (cf_cores C)" using assms(3) by linarith
  then obtain c' where "message_handler_tpc False (c\<lparr>cx_msg := m, cx_acts := []\<rparr>) = Inr c'"
    "cx_acts c' = [Send (core_of C 0) (put_tag 0 TPC_RDY m)]" "cx_rep c' = cx_rep c"
    using fit_fields [OF assms(1)] assms(2,4)
    by (auto simp: message_handler_tpc_def Let_def handle_prepare_tpc_def stmts core_of_def rd_def)
  with fit_same [OF assms(1), of c'] show ?thesis by (auto simp: tpc_makes_def)
qed

lemma makes_executed:
  assumes "tpc_fit C i c" and "0 < i" and "msg_tag m = TPC_COM" and "wf_msg m"
  shows "tpc_makes C i c m [Exec (choose_exec (cf_exec C)) (payload m)] (ready_counter (cx_rep c))"
proof -
  obtain c' where "message_handler_tpc False (c\<lparr>cx_msg := m, cx_acts := []\<rparr>) = Inr c'"
    "cx_acts c' = [Exec (choose_exec (cf_exec C)) (payload m)]" "cx_rep c' = cx_rep c"
    using fit_fields [OF assms(1)] assms(2-4)
    by (auto simp: message_handler_tpc_def Let_def handle_commit_tpc_def update_value_tpc_def stmts st_when_def)
  with fit_same [OF assms(1), of c'] show ?thesis by (auto simp: tpc_makes_def)
qed

text \<open>What the leader does when it commits: \<open>x\<close> is the commit message, \<open>y\<close> the answer.\<close>

definition commit_acts :: "conf \<Rightarrow> msg \<Rightarrow> msg \<Rightarrow> msg \<Rightarrow> action list" where
  "commit_acts C m x y = map (\<lambda>d. Send (unat d) x) (drop 1 (cf_cores C)) @
     [Exec (choose_exec (cf_exec C)) (payload m), Send (unat (cf_clients C ! unat (msg_cid m))) y]"

definition commit_pair :: "msg \<Rightarrow> msg \<Rightarrow> msg \<Rightarrow> bool" where
  "commit_pair m x y \<longleftrightarrow> wf_msg x \<and> msg_tag x = TPC_COM \<and> msg_cid x = msg_cid m \<and> msg_tag y = RESP_TAG \<and> msg_cid y = msg_cid m"

lemma makes_counted:
  assumes "tpc_fit C 0 c" and "msg_tag m = TPC_RDY" and "unat (msg_cid m) < length (cf_clients C)" and "wf_msg m"
  shows "\<exists>as. tpc_makes C 0 c m as ((ready_counter (cx_rep c))[unat (msg_cid m) := ready_counter (cx_rep c) ! unat (msg_cid m) + 1]) \<and>
    (if length (cf_cores C) \<le> unat (ready_counter (cx_rep c) ! unat (msg_cid m) + 1) + 1
     then \<exists>x y. as = commit_acts C m x y \<and> commit_pair m x y
     else as = [])"
proof -
  note f = fit_fields [OF assms(1)]
  let ?k = "unat (msg_cid m)" and ?r = "cx_rep c"
  let ?rc = "(ready_counter ?r)[?k := ready_counter ?r ! ?k + 1]"
  have len: "?k < length (ready_counter ?r)" using assms(1,3) by (auto simp: tpc_fit_def)
  show ?thesis
  proof (cases "length (cf_cores C) \<le> unat (ready_counter ?r ! ?k + 1) + 1")
    case True
    let ?x = "(put_tag 0 TPC_COM m)[3 := t_index ?r + 1]"
    obtain c' where c': "message_handler_tpc False (c\<lparr>cx_msg := m, cx_acts := []\<rparr>) = Inr c'"
      "cx_acts c' = commit_acts C m ?x (put_tag 0 RESP_TAG ?x)" "cx_rep c' = ?r\<lparr>ready_counter := ?rc, t_index := t_index ?r + 1\<rparr>"
      using f assms(2-4) len True
      by (simp add: message_handler_tpc_def Let_def handle_ready_tpc_def count_ready_def commit_tpc_def next_index_def
          put_index_def st_send_others_eq update_value_tpc_def stmts st_when_def hdr commit_acts_def)
    then have "tpc_fit C 0 c'" by (intro fit_same [OF assms(1)]) simp_all
    moreover have "commit_pair m ?x (put_tag 0 RESP_TAG ?x)" using assms(4) by (simp add: commit_pair_def hdr)
    ultimately show ?thesis using c' True unfolding tpc_makes_def
      by (intro exI [of _ "commit_acts C m ?x (put_tag 0 RESP_TAG ?x)"]) auto
  next
    case False
    then obtain c' where c': "message_handler_tpc False (c\<lparr>cx_msg := m, cx_acts := []\<rparr>) = Inr c'"
      "cx_acts c' = []" "cx_rep c' = ?r\<lparr>ready_counter := ?rc\<rparr>"
      using f assms(2-4) len
      by (simp add: message_handler_tpc_def Let_def handle_ready_tpc_def count_ready_def)
    then have "tpc_fit C 0 c'" by (intro fit_same [OF assms(1)]) simp_all
    with c' False show ?thesis unfolding tpc_makes_def by auto
  qed
qed

subsection \<open>Messages on their way\<close>

text \<open>The messages from replica \<open>p\<close> to core \<open>d\<close>, those in the channel and those still to be sent.\<close>

definition transit :: "conf \<Rightarrow> 'r net \<Rightarrow> nat \<Rightarrow> nat \<Rightarrow> msg list" where
  "transit C s p d = n_chan s (core_of C p) d @ sends_to d (n_pend s p)"

lemma transit_perform:
  assumes "conf_wf C" and "k < length (cf_cores C)" and "p < length (cf_cores C)" and "n_pend s k = a # as"
  shows "transit C (perform C k a (s\<lparr>n_pend := (n_pend s)(k := as)\<rparr>)) p d = transit C s p d"
  using core_of_inject [OF assms(1,2,3)] assms(4) by (cases a) (auto simp: transit_def)

lemma transit_receive:
  assumes "conf_wf C" and "k < length (cf_cores C)" and "p < length (cf_cores C)" and "n_pend s k = []" and "q \<noteq> core_of C k"
    and "n_chan s q (core_of C k) = m # ms"
  shows "transit C (set_chan q (core_of C k) ms (s\<lparr>n_st := st, n_pend := (n_pend s)(k := as)\<rparr>)) p d =
    (if p = k then transit C s k d @ sends_to d as
     else if core_of C p = q \<and> d = core_of C k then tl (transit C s p d) else transit C s p d)"
  using assms core_of_inject [OF assms(1,2,3)] by (auto simp: transit_def)

definition named :: "u16 \<Rightarrow> nat \<Rightarrow> msg \<Rightarrow> bool" where
  "named t j m \<longleftrightarrow> msg_tag m = t \<and> unat (msg_cid m) = j"

definition count_of :: "u16 \<Rightarrow> nat \<Rightarrow> msg list \<Rightarrow> nat" where
  "count_of t j ms = length (filter (named t j) ms)"

lemma count_of_simps [simp]:
  "count_of t j [] = 0" "count_of t j (m # ms) = (if named t j m then 1 else 0) + count_of t j ms"
  "count_of t j (ms @ ns) = count_of t j ms + count_of t j ns"
  by (simp_all add: count_of_def)

lemma count_of_0: "count_of t j ms = 0 \<longleftrightarrow> (\<forall>m \<in> set ms. \<not> named t j m)"
  by (auto simp: count_of_def filter_empty_conv)

text \<open>The requests of a client, its prepare and ready messages for one follower and for all, and its answers.\<close>

definition asking :: "conf \<Rightarrow> 'r net \<Rightarrow> nat \<Rightarrow> nat" where
  "asking C s j = count_of REQ_TAG j (n_chan s (unat (cf_clients C ! j)) (core_of C 0))"

definition token :: "conf \<Rightarrow> 'r net \<Rightarrow> nat \<Rightarrow> nat \<Rightarrow> nat" where
  "token C s j i = count_of TPC_PREP j (transit C s 0 (core_of C i)) + count_of TPC_RDY j (transit C s i (core_of C 0))"

definition tokens :: "conf \<Rightarrow> 'r net \<Rightarrow> nat \<Rightarrow> nat" where
  "tokens C s j = (\<Sum>i\<in>{1..<length (cf_cores C)}. token C s j i)"

definition replies :: "conf \<Rightarrow> 'r net \<Rightarrow> nat \<Rightarrow> nat" where
  "replies C s j = count_of RESP_TAG j (transit C s 0 (unat (cf_clients C ! j)))"

definition counted :: "tpc_replica net \<Rightarrow> nat \<Rightarrow> nat" where
  "counted s j = unat (ready_counter (cx_rep (n_st s 0)) ! j)"

lemma tokens_0: "tokens C s j = 0 \<longleftrightarrow> (\<forall>i \<in> {1..<length (cf_cores C)}. token C s j i = 0)"
  by (simp add: tokens_def)

lemma tokens_same:
  "(\<And>i. 0 < i \<Longrightarrow> i < length (cf_cores C) \<Longrightarrow> token C s' j i = token C s j i) \<Longrightarrow> tokens C s' j = tokens C s j"
  unfolding tokens_def by (intro sum.cong) auto

lemma tokens_change:
  assumes "0 < i" and "i < length (cf_cores C)"
    and "\<And>l. 0 < l \<Longrightarrow> l < length (cf_cores C) \<Longrightarrow> l \<noteq> i \<Longrightarrow> token C s' j l = token C s j l"
  shows "tokens C s' j + token C s j i = tokens C s j + token C s' j i"
  unfolding tokens_def by (rule sum_change) (use assms in auto)

lemma tokens_all:
  assumes "\<And>i. 0 < i \<Longrightarrow> i < length (cf_cores C) \<Longrightarrow> token C s' j i = token C s j i + 1"
  shows "tokens C s' j = tokens C s j + (length (cf_cores C) - 1)"
proof -
  have "tokens C s' j = (\<Sum>i\<in>{1..<length (cf_cores C)}. token C s j i + 1)"
    unfolding tokens_def by (intro sum.cong) (use assms in auto)
  also have "\<dots> = (\<Sum>i\<in>{1..<length (cf_cores C)}. token C s j i) + (length (cf_cores C) - 1)"
    by (subst sum.distrib) simp
  finally show ?thesis by (simp only: tokens_def)
qed

subsection \<open>The invariant\<close>

text \<open>
  The messages that may be on their way; \<open>cmd j\<close> is the command of the last request of client \<open>j\<close>.
\<close>

definition from_replica :: "conf \<Rightarrow> (nat \<Rightarrow> u64 list) \<Rightarrow> nat \<Rightarrow> nat \<Rightarrow> msg \<Rightarrow> bool" where
  "from_replica C cmd p d m \<longleftrightarrow>
     (if d \<in> unat ` set (cf_clients C)
      then p = 0 \<and> (msg_tag m = RESP_TAG \<longrightarrow> unat (msg_cid m) < length (cf_clients C) \<and> d = unat (cf_clients C ! unat (msg_cid m)))
      else wf_msg m \<and> unat (msg_cid m) < length (cf_clients C) \<and>
        (p = 0 \<and> d \<in> core_of C ` {1..<length (cf_cores C)} \<and>
           (msg_tag m = TPC_COM \<or> msg_tag m = TPC_PREP \<and> payload m = cmd (unat (msg_cid m))) \<or>
         0 < p \<and> d = core_of C 0 \<and> msg_tag m = TPC_RDY \<and> payload m = cmd (unat (msg_cid m))))"

definition from_client :: "conf \<Rightarrow> (nat \<Rightarrow> u64 list) \<Rightarrow> nat \<Rightarrow> msg \<Rightarrow> bool" where
  "from_client C cmd q m \<longleftrightarrow> wf_msg m \<and>
     (msg_tag m = SETUP_TAG \<and> unat (msg_cid m) \<in> unat ` set (cf_clients C) \<or>
      msg_tag m = REQ_TAG \<and> unat (msg_cid m) < length (cf_clients C) \<and>
        q = unat (cf_clients C ! unat (msg_cid m)) \<and> payload m = cmd (unat (msg_cid m)))"

definition in_place :: "conf \<Rightarrow> (nat \<Rightarrow> u64 list) \<Rightarrow> 'r net \<Rightarrow> bool" where
  "in_place C cmd s \<longleftrightarrow>
     (\<forall>p < length (cf_cores C). \<forall>d. \<forall>m \<in> set (transit C s p d). from_replica C cmd p d m) \<and>
     (\<forall>q \<in> unat ` set (cf_clients C). \<forall>m \<in> set (n_chan s q (core_of C 0)). from_client C cmd q m)"

text \<open>
  A client that waits has its request on the way, or as many prepare and ready messages as the
  leader has still to count, or its answer; a client that does not wait has nothing on the way.
\<close>

definition undecided :: "conf \<Rightarrow> tpc_replica net \<Rightarrow> nat \<Rightarrow> bool" where
  "undecided C s j \<longleftrightarrow> replies C s j = 0 \<and>
     (asking C s j = 1 \<and> tokens C s j = 0 \<or>
      asking C s j = 0 \<and> 0 < tokens C s j \<and> tokens C s j + counted s j + 1 = length (cf_cores C))"

definition stage :: "conf \<Rightarrow> nat set \<Rightarrow> tpc_replica net \<Rightarrow> nat \<Rightarrow> bool" where
  "stage C W s j \<longleftrightarrow> (if j \<in> W then undecided C s j \<or> asking C s j = 0 \<and> tokens C s j = 0 \<and> replies C s j = 1
     else asking C s j = 0 \<and> tokens C s j = 0 \<and> replies C s j = 0)"

definition owed :: "conf \<Rightarrow> (nat \<Rightarrow> u64 list) \<Rightarrow> nat set \<Rightarrow> tpc_replica net \<Rightarrow> u64 list multiset" where
  "owed C cmd W s = (\<Sum>j<length (cf_clients C). if j \<in> W \<and> replies C s j = 0 then {#cmd j#} else {#})"

definition tpc_inv :: "conf \<Rightarrow> (nat \<Rightarrow> u64 list) \<Rightarrow> nat set \<Rightarrow> u64 list multiset \<Rightarrow> tpc_replica net \<Rightarrow> bool" where
  "tpc_inv C cmd W A s \<longleftrightarrow> (\<forall>i < length (cf_cores C). tpc_fit C i (n_st s i)) \<and> in_place C cmd s \<and>
     (\<forall>j < length (cf_clients C). stage C W s j) \<and> mset (upto s 0) + owed C cmd W s = A"

text \<open>The invariant depends on a state only through these.\<close>

lemma stage_cong:
  assumes "asking C s' j = asking C s j" and "tokens C s' j = tokens C s j" and "replies C s' j = replies C s j"
    and "counted s' j = counted s j"
  shows "stage C W s' j = stage C W s j"
  using assms by (simp add: stage_def undecided_def)

lemma owed_cong: "(\<And>j. j < length (cf_clients C) \<Longrightarrow> replies C s' j = replies C s j) \<Longrightarrow> owed C cmd W s' = owed C cmd W s"
  unfolding owed_def by (intro sum.cong) auto

lemma in_place_step:
  assumes "in_place C cmd s"
    and t: "\<And>p d. p < length (cf_cores C) \<Longrightarrow>
      set (transit C s' p d) \<subseteq> set (transit C s p d) \<union> (if p = k then set (sends_to d as) else {})"
    and new: "\<And>d x. x \<in> set (sends_to d as) \<Longrightarrow> from_replica C cmd k d x"
    and q: "\<And>q. q \<in> unat ` set (cf_clients C) \<Longrightarrow> set (n_chan s' q (core_of C 0)) \<subseteq> set (n_chan s q (core_of C 0))"
  shows "in_place C cmd s'"
  unfolding in_place_def
proof (intro conjI allI impI ballI)
  show "from_replica C cmd p d m" if p: "p < length (cf_cores C)" and m: "m \<in> set (transit C s' p d)" for p d m
  proof -
    from t [OF p, of d] m consider "m \<in> set (transit C s p d)" | "p = k" "m \<in> set (sends_to d as)"
      by (auto split: if_splits)
    then show ?thesis
    proof cases
      case 1
      then show ?thesis using assms(1) p unfolding in_place_def by blast
    next
      case 2
      then show ?thesis using new by blast
    qed
  qed
  show "from_client C cmd p m" if "p \<in> unat ` set (cf_clients C)" "m \<in> set (n_chan s' p (core_of C 0))" for p m
    using assms(1) q [OF that(1)] that unfolding in_place_def by blast
qed

lemma drop_cores: "unat ` set (drop 1 (cf_cores C)) = core_of C ` {1..<length (cf_cores C)}"
proof -
  have "drop 1 (cf_cores C) = map ((!) (cf_cores C)) [1..<length (cf_cores C)]"
    by (rule nth_equalityI) simp_all
  then show ?thesis by (simp add: image_image core_of_def)
qed

lemma client_not_follower:
  assumes "conf_wf C" and "d \<in> unat ` set (cf_clients C)"
  shows "d \<notin> core_of C ` {1..<length (cf_cores C)}"
proof
  assume "d \<in> core_of C ` {1..<length (cf_cores C)}"
  then obtain i where "d = core_of C i" "i < length (cf_cores C)" by auto
  with core_not_client [OF assms(1), of i] assms(2) show False by simp
qed

lemma inv_cong:
  assumes inv: "tpc_inv C cmd W A s" and "0 < length (cf_cores C)"
    and t: "\<And>p d. p < length (cf_cores C) \<Longrightarrow> transit C s' p d = transit C s p d"
    and q: "\<And>q. q \<in> unat ` set (cf_clients C) \<Longrightarrow> n_chan s' q (core_of C 0) = n_chan s q (core_of C 0)"
    and st: "n_st s' = n_st s" and u: "upto s' 0 = upto s 0"
  shows "tpc_inv C cmd W A s'"
proof -
  have same: "asking C s' j = asking C s j" "tokens C s' j = tokens C s j" "replies C s' j = replies C s j"
    "counted s' j = counted s j" if "j < length (cf_clients C)" for j
    using that assms(2) by (auto simp: asking_def q token_def t replies_def counted_def st intro!: tokens_same)
  have "in_place C cmd s'" using inv t q by (simp add: tpc_inv_def in_place_def)
  moreover have "owed C cmd W s' = owed C cmd W s" by (rule owed_cong) (rule same(3))
  ultimately show ?thesis using inv by (simp add: tpc_inv_def st u stage_cong [OF same])
qed

lemma client_core: "j < length (cf_clients C) \<Longrightarrow> unat (cf_clients C ! j) \<in> unat ` set (cf_clients C)"
  by simp

lemma act_keeps:
  assumes C: "conf_wf C" and inv: "tpc_inv C cmd W A s" and st: "net_do C P (Act k) s = Some s'"
  shows "tpc_inv C cmd W A s'"
proof -
  from st obtain a as where k: "k < length (cf_cores C)" and pend: "n_pend s k = a # as"
    and s': "s' = perform C k a (s\<lparr>n_pend := (n_pend s)(k := as)\<rparr>)"
    by (rule actE) blast
  have "0 < length (cf_cores C)" using k by linarith
  moreover have "n_chan s' q (core_of C 0) = n_chan s q (core_of C 0)" if "q \<in> unat ` set (cf_clients C)" for q
  proof -
    have "core_of C k \<noteq> q" using core_not_client [OF C k] that by metis
    then show ?thesis by (cases a) (auto simp: s')
  qed
  ultimately show ?thesis
    by (intro inv_cong [OF inv]) (simp_all add: s' transit_perform [OF C k _ pend] perform_upto [OF pend])
qed

text \<open>A follower turns a prepare message into a ready message, and a commit message into nothing.\<close>

lemma follower_keeps:
  assumes C: "conf_wf C" and inv: "tpc_inv C cmd W A s" and k: "0 < k" "k < length (cf_cores C)"
    and pend: "n_pend s k = []" and chan: "n_chan s (core_of C 0) (core_of C k) = m # ms" and fit: "tpc_fit C k c"
    and out: "\<And>d. sends_to d as = (if d = core_of C 0 then out else [])"
    and ok: "\<forall>x \<in> set out. from_replica C cmd k (core_of C 0) x" "\<And>j. count_of TPC_RDY j out = count_of TPC_PREP j [m]"
  shows "tpc_inv C cmd W A (set_chan (core_of C 0) (core_of C k) ms (s\<lparr>n_st := (n_st s)(k := c), n_pend := (n_pend s)(k := as)\<rparr>))"
proof -
  let ?s = "set_chan (core_of C 0) (core_of C k) ms (s\<lparr>n_st := (n_st s)(k := c), n_pend := (n_pend s)(k := as)\<rparr>)"
  have n: "0 < length (cf_cores C)" using k by linarith
  have ne: "core_of C i = core_of C k \<longleftrightarrow> i = k" "core_of C i = core_of C 0 \<longleftrightarrow> i = 0" if "i < length (cf_cores C)" for i
    using core_of_inject [OF C that k(2)] core_of_inject [OF C that n] by blast+
  have cl: "core_of C 0 \<notin> unat ` set (cf_clients C)" "core_of C k \<notin> unat ` set (cf_clients C)"
    using core_not_client [OF C n] core_not_client [OF C k(2)] by blast+
  have ne0: "core_of C 0 \<noteq> core_of C k" using ne(1) [OF n] k(1) by simp
  have t: "transit C ?s p d = (if p = k then transit C s k d @ (if d = core_of C 0 then out else [])
      else if p = 0 \<and> d = core_of C k then tl (transit C s 0 (core_of C k)) else transit C s p d)" if "p < length (cf_cores C)" for p d
    using transit_receive [OF C k(2) that pend ne0 chan] ne(2) [OF that] by (auto simp: out)
  have head: "transit C s 0 (core_of C k) = m # tl (transit C s 0 (core_of C k))" by (simp add: transit_def chan)
  have q: "n_chan ?s q (core_of C 0) = n_chan s q (core_of C 0)" if "q \<in> unat ` set (cf_clients C)" for q
  proof -
    have "q \<noteq> core_of C 0" using that cl(1) by metis
    then show ?thesis by simp
  qed
  have same: "asking C ?s j = asking C s j" "replies C ?s j = replies C s j" "counted ?s j = counted s j"
    if "j < length (cf_clients C)" for j
    using client_core [OF that] cl n k(1) by (auto simp: asking_def q replies_def t counted_def)
  have "token C ?s j i = token C s j i" if "0 < i" "i < length (cf_cores C)" for j i
  proof (cases "i = k")
    case True
    have "count_of TPC_PREP j (transit C s 0 (core_of C k)) =
        count_of TPC_PREP j [m] + count_of TPC_PREP j (tl (transit C s 0 (core_of C k)))"
      by (subst head) simp
    with True that n k(1) ok(2) [of j] show ?thesis by (simp add: token_def t)
  next
    case False
    with that n k(1) ne(1) [OF that(2)] show ?thesis by (simp add: token_def t)
  qed
  then have toks: "tokens C ?s j = tokens C s j" for j by (rule tokens_same)
  have "set (tl (transit C s 0 (core_of C k))) \<subseteq> set (transit C s 0 (core_of C k))" by (subst (2) head) auto
  moreover have "from_replica C cmd k d x" if "x \<in> set (sends_to d as)" for d x
    using that ok(1) by (auto simp: out split: if_splits)
  ultimately have "in_place C cmd ?s"
    using inv q by (intro in_place_step [of C cmd s ?s k as]) (auto simp: t out tpc_inv_def)
  moreover have "owed C cmd W ?s = owed C cmd W s" by (rule owed_cong) (rule same(2))
  moreover have "upto ?s 0 = upto s 0" using k(1) by (simp add: upto_def)
  ultimately show ?thesis using inv fit by (simp add: tpc_inv_def stage_cong [OF same(1) toks same(2,3)])
qed

text \<open>The leader receives from a client.\<close>

lemma leader_from_client:
  assumes C: "conf_wf C" and n: "0 < length (cf_cores C)" and pend: "n_pend s 0 = []" and q: "q \<in> unat ` set (cf_clients C)"
    and chan: "n_chan s q (core_of C 0) = m # ms" and m: "from_client C cmd q m"
    and s': "s' = set_chan q (core_of C 0) ms (s\<lparr>n_st := (n_st s)(0 := c), n_pend := (n_pend s)(0 := as)\<rparr>)"
  shows "p < length (cf_cores C) \<Longrightarrow>
      transit C s' p d = (if p = 0 then transit C s 0 d @ sends_to d as else transit C s p d)"
    and "j < length (cf_clients C) \<Longrightarrow> asking C s j = asking C s' j + count_of REQ_TAG j [m]"
    and "set (n_chan s' q' (core_of C 0)) \<subseteq> set (n_chan s q' (core_of C 0))"
    and "upto s' 0 = upto s 0 @ execs as" and "counted s' j = unat (ready_counter (cx_rep c) ! j)"
    and "n_st s' = (n_st s)(0 := c)"
proof -
  have ne: "core_of C p \<noteq> q" if "p < length (cf_cores C)" for p
    using core_not_client [OF C that] q by metis
  show "p < length (cf_cores C) \<Longrightarrow>
      transit C s' p d = (if p = 0 then transit C s 0 d @ sends_to d as else transit C s p d)"
    using transit_receive [OF C n _ pend _ chan] ne [OF n] ne by (auto simp: s')
  show "asking C s j = asking C s' j + count_of REQ_TAG j [m]" if "j < length (cf_clients C)"
  proof (cases "q = unat (cf_clients C ! j)")
    case True
    then show ?thesis using chan by (simp add: asking_def s')
  next
    case False
    then have "\<not> named REQ_TAG j m" using m by (auto simp: from_client_def named_def)
    with False show ?thesis by (simp add: asking_def s')
  qed
  show "set (n_chan s' q' (core_of C 0)) \<subseteq> set (n_chan s q' (core_of C 0))" using chan by (auto simp: s')
qed (simp_all add: s' upto_def pend counted_def)

lemma setup_keeps:
  assumes C: "conf_wf C" and n: "0 < length (cf_cores C)" and inv: "tpc_inv C cmd W A s" and pend: "n_pend s 0 = []"
    and q: "q \<in> unat ` set (cf_clients C)" and chan: "n_chan s q (core_of C 0) = m # ms"
    and fit: "tpc_fit C 0 c" and rc: "ready_counter (cx_rep c) = ready_counter (cx_rep (n_st s 0))"
    and m: "msg_tag m = SETUP_TAG" and d: "d \<in> unat ` set (cf_clients C)" and x: "msg_tag x = SETUP_TAG"
  shows "tpc_inv C cmd W A (set_chan q (core_of C 0) ms (s\<lparr>n_st := (n_st s)(0 := c), n_pend := (n_pend s)(0 := [Send d x])\<rparr>))"
proof -
  let ?s = "set_chan q (core_of C 0) ms (s\<lparr>n_st := (n_st s)(0 := c), n_pend := (n_pend s)(0 := [Send d x])\<rparr>)"
  have leg: "from_client C cmd q m" using inv q chan unfolding tpc_inv_def in_place_def by (metis list.set_intros(1))
  note v = leader_from_client [OF C n pend q chan leg refl, where c = c and as = "[Send d x]"]
  have tags: "\<not> named REQ_TAG j m" "\<not> named RESP_TAG j x" for j using m x by (auto simp: named_def)
  have d_ne: "d \<noteq> core_of C i" if "i < length (cf_cores C)" for i using core_not_client [OF C that] d by metis
  have same: "asking C ?s j = asking C s j" "replies C ?s j = replies C s j" "counted ?s j = counted s j"
    if "j < length (cf_clients C)" for j
    using that n v(2) [OF that] tags by (simp_all add: replies_def v(1,5) rc counted_def)
  have toks: "tokens C ?s j = tokens C s j" for j
    by (rule tokens_same) (use d_ne n in \<open>simp add: token_def v(1)\<close>)
  have "from_replica C cmd 0 d' y" if "y \<in> set (sends_to d' [Send d x])" for d' y
    using that d x by (auto simp: from_replica_def split: if_splits)
  then have "in_place C cmd ?s"
    using inv v(3) by (intro in_place_step [of C cmd s ?s 0 "[Send d x]"]) (auto simp: v(1) tpc_inv_def)
  moreover have "owed C cmd W ?s = owed C cmd W s" by (rule owed_cong) (rule same(2))
  ultimately show ?thesis
    using inv fit by (simp add: tpc_inv_def stage_cong [OF same(1) toks same(2,3)] v(4,6))
qed

lemma follower_sends:
  assumes "conf_wf C"
  shows "0 < l \<Longrightarrow> l < length (cf_cores C) \<Longrightarrow> sends_to (core_of C l) (map (\<lambda>d. Send (unat d) x) (drop 1 (cf_cores C))) = [x]"
    and "d \<in> unat ` set (cf_clients C) \<Longrightarrow> sends_to d (map (\<lambda>d. Send (unat d) x) (drop 1 (cf_cores C))) = []"
    and "z \<in> set (sends_to d (map (\<lambda>d. Send (unat d) x) (drop 1 (cf_cores C)))) \<Longrightarrow>
      z = x \<and> d \<in> core_of C ` {1..<length (cf_cores C)} \<and> d \<notin> unat ` set (cf_clients C)"
proof -
  let ?as = "map (\<lambda>d. Send (unat d) x) (drop 1 (cf_cores C))"
  show "0 < l \<Longrightarrow> l < length (cf_cores C) \<Longrightarrow> sends_to (core_of C l) ?as = [x]" by (rule send_others_one [OF assms])
  have to: "z = x \<and> d \<in> core_of C ` {1..<length (cf_cores C)}" if "z \<in> set (sends_to d ?as)" for d z
    using that sends_to_map_in [of z d unat x] sends_to_map_target [of z d unat x] unfolding drop_cores [symmetric] by blast
  then show none: "sends_to d ?as = []" if "d \<in> unat ` set (cf_clients C)" for d
    using client_not_follower [OF assms that] by (metis ex_in_conv set_empty)
  show "z \<in> set (sends_to d ?as) \<Longrightarrow>
      z = x \<and> d \<in> core_of C ` {1..<length (cf_cores C)} \<and> d \<notin> unat ` set (cf_clients C)"
    using to none [of d] by fastforce
qed

lemma request_keeps:
  assumes C: "conf_wf C" and n: "1 < length (cf_cores C)" and inv: "tpc_inv C cmd W A s" and pend: "n_pend s 0 = []"
    and q: "q \<in> unat ` set (cf_clients C)" and chan: "n_chan s q (core_of C 0) = m # ms"
    and fit: "tpc_fit C 0 c" and rc: "ready_counter (cx_rep c) = (ready_counter (cx_rep (n_st s 0)))[unat (msg_cid m) := 0]"
    and m: "msg_tag m = REQ_TAG" and as: "as = map (\<lambda>d. Send (unat d) (put_tag 0 TPC_PREP m)) (drop 1 (cf_cores C))"
  shows "tpc_inv C cmd W A (set_chan q (core_of C 0) ms (s\<lparr>n_st := (n_st s)(0 := c), n_pend := (n_pend s)(0 := as)\<rparr>))"
    (is "tpc_inv C cmd W A ?s")
proof -
  let ?x = "put_tag 0 TPC_PREP m" and ?k = "unat (msg_cid m)"
  have n0: "0 < length (cf_cores C)" using n by linarith
  have leg: "from_client C cmd q m" using inv q chan unfolding tpc_inv_def in_place_def by (metis list.set_intros(1))
  then have k: "?k < length (cf_clients C)" and wf: "wf_msg m" and pm: "payload m = cmd ?k"
    using m by (auto simp: from_client_def)
  note v = leader_from_client [OF C n0 pend q chan leg refl, where c = c and as = as]
  note sends = follower_sends [OF C, where x = "put_tag 0 TPC_PREP m", folded as]
  have x: "named TPC_PREP j ?x \<longleftrightarrow> j = ?k" "named REQ_TAG j m \<longleftrightarrow> j = ?k" for j
    using wf m by (auto simp: named_def hdr)
  have ans: "replies C ?s j = replies C s j" if "j < length (cf_clients C)" for j
    using that n0 sends(2) [OF client_core [OF that]] by (simp add: replies_def v(1))
  have tok: "token C ?s j i = token C s j i + (if j = ?k then 1 else 0)" if "0 < i" "i < length (cf_cores C)" for j i
    using that n0 x by (simp add: token_def v(1) sends(1))
  have st: "stage C W ?s j" if j: "j < length (cf_clients C)" for j
  proof (cases "j = ?k")
    case True
    have "stage C W s ?k" "asking C s ?k = asking C ?s ?k + 1"
      using inv k v(2) [OF k] x by (simp_all add: tpc_inv_def)
    then have w: "?k \<in> W" "asking C ?s ?k = 0" "tokens C s ?k = 0" "replies C s ?k = 0"
      by (auto simp: stage_def undecided_def split: if_splits)
    moreover have "tokens C ?s ?k = tokens C s ?k + (length (cf_cores C) - 1)" by (rule tokens_all) (simp add: tok)
    moreover have "counted ?s ?k = 0"
      using inv fit k n0 by (auto simp: v(5) rc tpc_inv_def tpc_fit_def)
    ultimately show ?thesis using True n ans [OF k] by (simp add: stage_def undecided_def)
  next
    case False
    have "tokens C ?s j = tokens C s j" using False by (intro tokens_same) (simp add: tok)
    moreover have "asking C ?s j = asking C s j" using v(2) [OF j] x False by simp
    moreover have "counted ?s j = counted s j" using False by (simp add: v(5) rc counted_def)
    ultimately have "stage C W ?s j = stage C W s j" by (intro stage_cong ans j)
    then show ?thesis using inv j by (simp add: tpc_inv_def)
  qed
  have new: "from_replica C cmd 0 d y" if "y \<in> set (sends_to d as)" for d y
    using sends(3) [OF that] wf k pm by (simp add: from_replica_def hdr)
  have no_exec: "execs as = []" by (simp add: as)
  have "in_place C cmd ?s"
    using inv new v(3) by (intro in_place_step [of C cmd s ?s 0 as]) (auto simp: v(1) tpc_inv_def)
  moreover have "owed C cmd W ?s = owed C cmd W s" by (rule owed_cong) (rule ans)
  ultimately show ?thesis using inv fit st by (simp add: tpc_inv_def v(4,6) no_exec)
qed

text \<open>The leader receives a ready message; with the last one it commits.\<close>

lemma owed_paid:
  assumes "k < length (cf_clients C)" and "k \<in> W" and "replies C s k = 0" and "replies C s' k \<noteq> 0"
    and "\<And>j. j < length (cf_clients C) \<Longrightarrow> j \<noteq> k \<Longrightarrow> replies C s' j = replies C s j"
  shows "owed C cmd W s = owed C cmd W s' + {#cmd k#}"
proof -
  have "owed C cmd W s' + (if k \<in> W \<and> replies C s k = 0 then {#cmd k#} else {#}) =
      owed C cmd W s + (if k \<in> W \<and> replies C s' k = 0 then {#cmd k#} else {#})"
    unfolding owed_def by (rule sum_change) (use assms in auto)
  with assms(2-4) show ?thesis by simp
qed

lemma commit_acts_sends:
  assumes "conf_wf C" and "unat (msg_cid m) < length (cf_clients C)"
  shows "0 < l \<Longrightarrow> l < length (cf_cores C) \<Longrightarrow> sends_to (core_of C l) (commit_acts C m x y) = [x]"
    and "d \<in> unat ` set (cf_clients C) \<Longrightarrow>
      sends_to d (commit_acts C m x y) = (if d = unat (cf_clients C ! unat (msg_cid m)) then [y] else [])"
    and "commit_pair m x y \<Longrightarrow> z \<in> set (sends_to d (commit_acts C m x y)) \<Longrightarrow> from_replica C cmd 0 d z"
proof -
  let ?c = "unat (cf_clients C ! unat (msg_cid m))"
  note sends = follower_sends [OF assms(1), where x = x]
  show "0 < l \<Longrightarrow> l < length (cf_cores C) \<Longrightarrow> sends_to (core_of C l) (commit_acts C m x y) = [x]"
    using sends(1) [of l] not_client_core [OF assms(1) _ assms(2)] by (simp add: commit_acts_def)
  show client: "d \<in> unat ` set (cf_clients C) \<Longrightarrow> sends_to d (commit_acts C m x y) = (if d = ?c then [y] else [])" for d
    using sends(2) by (simp add: commit_acts_def)
  show "from_replica C cmd 0 d z" if p: "commit_pair m x y" and z: "z \<in> set (sends_to d (commit_acts C m x y))"
  proof (cases "d \<in> unat ` set (cf_clients C)")
    case True
    with z client [OF True] p assms(2) show ?thesis by (auto simp: from_replica_def commit_pair_def split: if_splits)
  next
    case False
    then have "d \<noteq> ?c" using client_core [OF assms(2)] by metis
    with z have "z \<in> set (sends_to d (map (\<lambda>d. Send (unat d) x) (drop 1 (cf_cores C))))" by (simp add: commit_acts_def)
    from sends(3) [OF this] False p assms(2) show ?thesis by (simp add: from_replica_def commit_pair_def)
  qed
qed

lemma leader_from_follower:
  assumes C: "conf_wf C" and i: "0 < i" "i < length (cf_cores C)" and pend: "n_pend s 0 = []"
    and chan: "n_chan s (core_of C i) (core_of C 0) = m # ms" and m: "msg_tag m = TPC_RDY"
    and no_prep: "\<forall>j l. 0 < l \<and> l < length (cf_cores C) \<longrightarrow> count_of TPC_PREP j (sends_to (core_of C l) as) = 0"
    and s': "s' = set_chan (core_of C i) (core_of C 0) ms (s\<lparr>n_st := (n_st s)(0 := c), n_pend := (n_pend s)(0 := as)\<rparr>)"
  shows "transit C s' 0 d = transit C s 0 d @ sends_to d as"
    and "p < length (cf_cores C) \<Longrightarrow>
      set (transit C s' p d) \<subseteq> set (transit C s p d) \<union> (if p = 0 then set (sends_to d as) else {})"
    and "q \<in> unat ` set (cf_clients C) \<Longrightarrow> n_chan s' q (core_of C 0) = n_chan s q (core_of C 0)"
    and "tokens C s j = tokens C s' j + (if j = unat (msg_cid m) then 1 else 0)"
proof -
  let ?n = "length (cf_cores C)"
  have n: "0 < ?n" using i by linarith
  have ne: "core_of C p = core_of C i \<longleftrightarrow> p = i" "core_of C p = core_of C 0 \<longleftrightarrow> p = 0" if "p < ?n" for p
    using core_of_inject [OF C that i(2)] core_of_inject [OF C that n] by blast+
  have t: "transit C s' p d = (if p = 0 then transit C s 0 d @ sends_to d as
      else if p = i \<and> d = core_of C 0 then tl (transit C s i (core_of C 0)) else transit C s p d)" if "p < ?n" for p d
    using transit_receive [OF C n that pend _ chan] ne [OF that] ne(2) [OF i(2)] i(1) by (auto simp: s')
  have head: "transit C s i (core_of C 0) = m # tl (transit C s i (core_of C 0))" by (simp add: transit_def chan)
  then have "set (tl (transit C s i (core_of C 0))) \<subseteq> set (transit C s i (core_of C 0))" by (metis set_subset_Cons)
  then show "set (transit C s' p d) \<subseteq> set (transit C s p d) \<union> (if p = 0 then set (sends_to d as) else {})" if "p < ?n"
    using that by (auto simp: t)
  show "transit C s' 0 d = transit C s 0 d @ sends_to d as" using t [OF n] by simp
  show "n_chan s' q (core_of C 0) = n_chan s q (core_of C 0)" if "q \<in> unat ` set (cf_clients C)"
  proof -
    have "q \<noteq> core_of C i" using that core_not_client [OF C i(2)] by metis
    then show ?thesis by (simp add: s')
  qed
  have RDY: "count_of TPC_RDY j (transit C s i (core_of C 0)) =
      (if j = unat (msg_cid m) then 1 else 0) + count_of TPC_RDY j (tl (transit C s i (core_of C 0)))" for j
    by (subst head) (auto simp: named_def m)
  have tok: "token C s j l = token C s' j l + (if l = i \<and> j = unat (msg_cid m) then 1 else 0)" if "0 < l" "l < ?n" for j l
    using that n i(2) no_prep by (cases "l = i") (simp_all add: token_def t RDY)
  have "tokens C s' j + token C s j i = tokens C s j + token C s' j i"
    by (rule tokens_change [OF i]) (simp add: tok)
  then show "tokens C s j = tokens C s' j + (if j = unat (msg_cid m) then 1 else 0)" using tok [OF i] by auto
qed

lemma counter_step:
  assumes "conf_wf C" and "0 < length (cf_cores C)" and "tpc_inv C cmd W A s" and "k < length (cf_clients C)" and "0 < tokens C s k"
  shows "k \<in> W" "replies C s k = 0" "asking C s k = 0" "tokens C s k + counted s k + 1 = length (cf_cores C)"
    and "unat (ready_counter (cx_rep (n_st s 0)) ! k + 1) = counted s k + 1"
    and "k < length (ready_counter (cx_rep (n_st s 0)))"
proof -
  have "stage C W s k" using assms(3,4) by (simp add: tpc_inv_def)
  then show k: "k \<in> W" "replies C s k = 0" "asking C s k = 0" "tokens C s k + counted s k + 1 = length (cf_cores C)"
    using assms(5) by (auto simp: stage_def undecided_def split: if_splits)
  have "counted s k < 64" using k(4) assms(1) by (simp add: conf_wf_def)
  then show "unat (ready_counter (cx_rep (n_st s 0)) ! k + 1) = counted s k + 1" by (simp add: counted_def unat_word_ariths)
  show "k < length (ready_counter (cx_rep (n_st s 0)))" using assms(2-4) by (auto simp: tpc_inv_def tpc_fit_def)
qed

lemma ready_keeps:
  assumes C: "conf_wf C" and i: "0 < i" "i < length (cf_cores C)" and inv: "tpc_inv C cmd W A s" and pend: "n_pend s 0 = []"
    and chan: "n_chan s (core_of C i) (core_of C 0) = m # ms" and fit: "tpc_fit C 0 c"
    and rc: "ready_counter (cx_rep c) = (ready_counter (cx_rep (n_st s 0)))
      [unat (msg_cid m) := ready_counter (cx_rep (n_st s 0)) ! unat (msg_cid m) + 1]"
    and as: "if length (cf_cores C) \<le> unat (ready_counter (cx_rep (n_st s 0)) ! unat (msg_cid m) + 1) + 1
      then \<exists>x y. as = commit_acts C m x y \<and> commit_pair m x y else as = []"
  shows "tpc_inv C cmd W A (set_chan (core_of C i) (core_of C 0) ms (s\<lparr>n_st := (n_st s)(0 := c), n_pend := (n_pend s)(0 := as)\<rparr>))"
    (is "tpc_inv C cmd W A ?s")
proof -
  let ?k = "unat (msg_cid m)" and ?n = "length (cf_cores C)"
  have n: "0 < ?n" using i by linarith
  have "m \<in> set (transit C s i (core_of C 0))" by (simp add: transit_def chan)
  then have "from_replica C cmd i (core_of C 0) m" using inv i(2) by (auto simp: tpc_inv_def in_place_def)
  then have m: "?k < length (cf_clients C)" "msg_tag m = TPC_RDY" "payload m = cmd ?k"
    using core_not_client [OF C n] i(1) by (auto simp: from_replica_def)
  note sends = commit_acts_sends [OF C m(1)]
  have "\<forall>j l. 0 < l \<and> l < ?n \<longrightarrow> count_of TPC_PREP j (sends_to (core_of C l) as) = 0"
    using as sends(1) by (auto simp: commit_pair_def named_def split: if_splits)
  note v = leader_from_follower [OF C i pend chan m(2) this refl, where c = c]
  have "from_replica C cmd 0 d z" if "z \<in> set (sends_to d as)" for d z
    using as sends(3) that by (auto split: if_splits)
  then have place: "in_place C cmd ?s"
    using inv v(2,3) by (intro in_place_step [of C cmd s ?s 0 as]) (simp_all add: tpc_inv_def)
  have asks: "asking C ?s j = asking C s j" if "j < length (cf_clients C)" for j
    using v(3) [OF client_core [OF that]] by (simp add: asking_def)
  have "0 < tokens C s ?k" using v(4) [of ?k] by simp
  note k = counter_step(1-4) [OF C n inv m(1) this] and inc = counter_step(5) [OF C n inv m(1) this]
    and len = counter_step(6) [OF C n inv m(1) this]
  have cnt: "counted ?s j = (if j = ?k then counted s ?k + 1 else counted s j)" for j
    using inc len by (simp add: counted_def rc)
  have last: "tokens C ?s ?k = 0 \<longleftrightarrow> ?n \<le> unat (ready_counter (cx_rep (n_st s 0)) ! ?k + 1) + 1"
  proof -
    have "tokens C s ?k = tokens C ?s ?k + 1" using v(4) [of ?k] by simp
    then show ?thesis using k(4) unfolding inc by (intro iffI) linarith+
  qed
  have ans: "replies C ?s j = replies C s j + (if j = ?k \<and> tokens C ?s ?k = 0 then 1 else 0)" if "j < length (cf_clients C)" for j
    using as sends(2) [OF client_core [OF that]] unfolding last [symmetric]
    by (auto simp: replies_def v(1) commit_pair_def named_def split: if_splits)
  have "stage C W ?s j" if j: "j < length (cf_clients C)" for j
  proof (cases "j = ?k")
    case True
    then show ?thesis using k v(4) [of ?k] asks [OF j] ans [OF j] cnt [of ?k] by (simp add: stage_def undecided_def)
  next
    case False
    then have "stage C W ?s j = stage C W s j"
      using v(4) [of j] cnt [of j] ans [OF j] by (intro stage_cong asks j) simp_all
    then show ?thesis using inv j by (simp add: tpc_inv_def)
  qed
  moreover have "mset (upto ?s 0) + owed C cmd W ?s = mset (upto s 0) + owed C cmd W s"
  proof (cases "tokens C ?s ?k = 0")
    case True
    have "owed C cmd W s = owed C cmd W ?s + {#cmd ?k#}"
      by (rule owed_paid [OF m(1) k(1,2)]) (use ans m(1) True in simp_all)
    moreover have "execs as = [cmd ?k]" using as True unfolding last by (auto simp: commit_acts_def m(3))
    ultimately show ?thesis by (simp add: upto_def pend)
  next
    case False
    then have "owed C cmd W ?s = owed C cmd W s" "as = []" using ans as unfolding last by (auto intro!: owed_cong)
    then show ?thesis by (simp add: upto_def pend)
  qed
  ultimately show ?thesis using inv fit place by (simp add: tpc_inv_def)
qed

subsection \<open>Steps of the replicas\<close>

text \<open>The work a message makes: a request makes a prepare message per follower, and each of them may be the last.\<close>

definition tpc_weight :: "conf \<Rightarrow> nat \<Rightarrow> msg \<Rightarrow> nat" where
  "tpc_weight C i m = (let n = length (cf_cores C) in
     if msg_tag m = REQ_TAG then 3 * n * n else if msg_tag m = TPC_PREP then 3 * n + 2
     else if msg_tag m = TPC_RDY then 3 * n else 2)"

lemma tpc_weight_tags [simp]:
  "msg_tag m = REQ_TAG \<Longrightarrow> tpc_weight C i m = 3 * length (cf_cores C) * length (cf_cores C)"
  "msg_tag m = TPC_PREP \<Longrightarrow> tpc_weight C i m = 3 * length (cf_cores C) + 2"
  "msg_tag m = TPC_RDY \<Longrightarrow> tpc_weight C i m = 3 * length (cf_cores C)"
  "msg_tag m = TPC_COM \<Longrightarrow> tpc_weight C i m = 2" "msg_tag m = SETUP_TAG \<Longrightarrow> tpc_weight C i m = 2"
  by (simp_all add: tpc_weight_def Let_def algs)

definition tpc_serves :: "u8 list \<times> u8 list \<Rightarrow> conf \<Rightarrow> (nat \<Rightarrow> u64 list) \<Rightarrow> nat set \<Rightarrow> u64 list multiset \<Rightarrow> tpc_replica net \<Rightarrow>
    nat \<Rightarrow> nat \<Rightarrow> msg \<Rightarrow> msg list \<Rightarrow> bool" where
  "tpc_serves heap C cmd W A s k q m ms \<longleftrightarrow> (\<exists>c. run_on (tpc_proto heap C) (n_st s k) m = Inr c \<and>
     costs C (tpc_proto heap C) (tpc_weight C) k (cx_acts c) < tpc_weight C k m \<and>
     tpc_inv C cmd W A (set_chan q (core_of C k) ms (s\<lparr>n_st := (n_st s)(k := c), n_pend := (n_pend s)(k := cx_acts c)\<rparr>)))"

lemma servesI:
  assumes "tpc_makes C k (n_st s k) m as rc" and "costs C (tpc_proto heap C) (tpc_weight C) k as < tpc_weight C k m"
    and "\<And>c. tpc_fit C k c \<Longrightarrow> ready_counter (cx_rep c) = rc \<Longrightarrow>
      tpc_inv C cmd W A (set_chan q (core_of C k) ms (s\<lparr>n_st := (n_st s)(k := c), n_pend := (n_pend s)(k := as)\<rparr>))"
  shows "tpc_serves heap C cmd W A s k q m ms"
  using assms unfolding tpc_makes_def tpc_serves_def run_on_def tpc_proto_simps by blast

lemma follower_serves:
  assumes C: "conf_wf C" and k: "0 < k" "k < length (cf_cores C)" and inv: "tpc_inv C cmd W A s"
    and pend: "n_pend s k = []" and chan: "n_chan s (core_of C 0) (core_of C k) = m # ms"
  shows "tpc_serves heap C cmd W A s k (core_of C 0) m ms"
proof -
  let ?P = "tpc_proto heap C"
  have n: "0 < length (cf_cores C)" using k by linarith
  have cl: "core_of C k \<notin> unat ` set (cf_clients C)" "core_of C 0 \<notin> unat ` set (cf_clients C)"
    using core_not_client [OF C k(2)] core_not_client [OF C n] by blast+
  have fit: "tpc_fit C k (n_st s k)" using inv k(2) by (simp add: tpc_inv_def)
  have "m \<in> set (transit C s 0 (core_of C k))" by (simp add: transit_def chan)
  then have "from_replica C cmd 0 (core_of C k) m" using inv n unfolding tpc_inv_def in_place_def by blast
  then have m: "wf_msg m" "unat (msg_cid m) < length (cf_clients C)"
    and tag: "msg_tag m = TPC_COM \<or> msg_tag m = TPC_PREP \<and> payload m = cmd (unat (msg_cid m))"
    using cl(1) by (auto simp: from_replica_def)
  from tag show ?thesis
  proof
    assume COM: "msg_tag m = TPC_COM"
    show ?thesis
    proof (rule servesI [OF makes_executed [OF fit k(1) COM m(1)]])
      show "costs C ?P (tpc_weight C) k [Exec (choose_exec (cf_exec C)) (payload m)] < tpc_weight C k m" using COM by simp
      show "tpc_inv C cmd W A (set_chan (core_of C 0) (core_of C k) ms (s\<lparr>n_st := (n_st s)(k := c),
          n_pend := (n_pend s)(k := [Exec (choose_exec (cf_exec C)) (payload m)])\<rparr>))" if "tpc_fit C k c" for c
        by (rule follower_keeps [OF C inv k pend chan that, where out = "[]"]) (use COM in \<open>simp_all add: named_def\<close>)
    qed
  next
    assume PREP: "msg_tag m = TPC_PREP \<and> payload m = cmd (unat (msg_cid m))"
    let ?x = "put_tag 0 TPC_RDY m"
    have x: "wf_msg ?x" "msg_tag ?x = TPC_RDY" "msg_cid ?x = msg_cid m" "payload ?x = payload m" using m(1) by (simp_all add: hdr)
    show ?thesis
    proof (rule servesI [OF makes_ready [OF fit k PREP [THEN conjunct1]]])
      have "arrival C ?P (tpc_weight C) (core_of C k) (core_of C 0) ?x \<le> 3 * length (cf_cores C)"
        using x(2) by (intro arrival_le [OF C]) simp
      then show "costs C ?P (tpc_weight C) k [Send (core_of C 0) ?x] < tpc_weight C k m" using PREP by simp
      show "tpc_inv C cmd W A (set_chan (core_of C 0) (core_of C k) ms (s\<lparr>n_st := (n_st s)(k := c),
          n_pend := (n_pend s)(k := [Send (core_of C 0) ?x])\<rparr>))" if "tpc_fit C k c" for c
      proof (rule follower_keeps [OF C inv k pend chan that, where out = "[?x]"])
        show "\<forall>y \<in> set [?x]. from_replica C cmd k (core_of C 0) y"
          using x m(2) cl(2) k(1) PREP by (simp add: from_replica_def)
      qed (use x PREP in \<open>auto simp: named_def\<close>)
    qed
  qed
qed

lemma client_serves:
  assumes C: "conf_wf C" "1 < length (cf_cores C)" and inv: "tpc_inv C cmd W A s"
    and pend: "n_pend s 0 = []" and q: "q \<in> unat ` set (cf_clients C)" and chan: "n_chan s q (core_of C 0) = m # ms"
  shows "tpc_serves heap C cmd W A s 0 q m ms"
proof -
  let ?P = "tpc_proto heap C" and ?n = "length (cf_cores C)"
  have n: "0 < ?n" using C(2) by linarith
  have fit: "tpc_fit C 0 (n_st s 0)" using inv n unfolding tpc_inv_def by blast
  have "from_client C cmd q m" using inv q chan unfolding tpc_inv_def in_place_def by (metis list.set_intros(1))
  then have wf: "wf_msg m" and "msg_tag m = SETUP_TAG \<and> unat (msg_cid m) \<in> unat ` set (cf_clients C) \<or>
      msg_tag m = REQ_TAG \<and> unat (msg_cid m) < length (cf_clients C)"
    by (auto simp: from_client_def)
  then show ?thesis
  proof (elim disjE conjE)
    assume m: "msg_tag m = SETUP_TAG" "unat (msg_cid m) \<in> unat ` set (cf_clients C)"
    then have "cf_clients C \<noteq> []" by auto
    from makes_setup [OF fit wf m(1) this] obtain x where x: "msg_tag x = SETUP_TAG"
      "tpc_makes C 0 (n_st s 0) m [Send (unat (msg_cid m)) x] (ready_counter (cx_rep (n_st s 0)))" by blast
    show ?thesis
    proof (rule servesI [OF x(2)])
      show "costs C ?P (tpc_weight C) 0 [Send (unat (msg_cid m)) x] < tpc_weight C 0 m"
        using m(1) by (simp add: arrival_client [OF C(1) m(2)])
    qed (rule setup_keeps [OF C(1) n inv pend q chan _ _ m x(1)])
  next
    assume m: "msg_tag m = REQ_TAG" "unat (msg_cid m) < length (cf_clients C)"
    let ?x = "put_tag 0 TPC_PREP m"
    have x: "msg_tag ?x = TPC_PREP" using wf by (simp add: hdr)
    show ?thesis
    proof (rule servesI [OF makes_prepares [OF fit m]])
      have "costs C ?P (tpc_weight C) 0 (map (\<lambda>d. Send (unat d) ?x) (drop 1 (cf_cores C))) \<le>
          (1 + (3 * ?n + 2)) * length (drop 1 (cf_cores C))"
        using x by (intro costs_sends_le arrival_le [OF C(1)]) simp
      also have "\<dots> < 3 * ?n * ?n" using C(2) by (cases ?n) (simp_all add: algebra_simps)
      finally show "costs C ?P (tpc_weight C) 0 (map (\<lambda>d. Send (unat d) ?x) (drop 1 (cf_cores C))) < tpc_weight C 0 m"
        using m(1) by simp
    qed (rule request_keeps [OF C inv pend q chan _ _ m(1) refl])
  qed
qed

lemma ready_serves:
  assumes C: "conf_wf C" and i: "0 < i" "i < length (cf_cores C)" and inv: "tpc_inv C cmd W A s"
    and pend: "n_pend s 0 = []" and chan: "n_chan s (core_of C i) (core_of C 0) = m # ms"
  shows "tpc_serves heap C cmd W A s 0 (core_of C i) m ms"
proof -
  let ?P = "tpc_proto heap C" and ?n = "length (cf_cores C)"
  have n: "0 < ?n" using i by linarith
  have fit: "tpc_fit C 0 (n_st s 0)" using inv n unfolding tpc_inv_def by blast
  have "m \<in> set (transit C s i (core_of C 0))" by (simp add: transit_def chan)
  then have "from_replica C cmd i (core_of C 0) m" using inv i(2) unfolding tpc_inv_def in_place_def by blast
  then have m: "wf_msg m" "unat (msg_cid m) < length (cf_clients C)" "msg_tag m = TPC_RDY"
    using core_not_client [OF C n] i(1) by (auto simp: from_replica_def)
  from makes_counted [OF fit m(3,2,1)] obtain as where
    as: "tpc_makes C 0 (n_st s 0) m as ((ready_counter (cx_rep (n_st s 0)))
      [unat (msg_cid m) := ready_counter (cx_rep (n_st s 0)) ! unat (msg_cid m) + 1])"
    and cases: "if ?n \<le> unat (ready_counter (cx_rep (n_st s 0)) ! unat (msg_cid m) + 1) + 1
     then \<exists>x y. as = commit_acts C m x y \<and> commit_pair m x y else as = []" by blast
  have commit: "costs C ?P (tpc_weight C) 0 (commit_acts C m x y) < 3 * ?n" if "commit_pair m x y" for x y
  proof -
    have "costs C ?P (tpc_weight C) 0 (map (\<lambda>d. Send (unat d) x) (drop 1 (cf_cores C))) \<le> (1 + 2) * length (drop 1 (cf_cores C))"
      using that by (intro costs_sends_le arrival_le [OF C]) (simp add: commit_pair_def)
    then show ?thesis using i by (simp add: commit_acts_def arrival_client [OF C client_core [OF m(2)]])
  qed
  show ?thesis
  proof (rule servesI [OF as])
    show "costs C ?P (tpc_weight C) 0 as < tpc_weight C 0 m" using cases commit n m(3) by (auto split: if_splits)
  qed (rule ready_keeps [OF C i inv pend chan _ _ cases])
qed

lemma tpc_served:
  assumes C: "conf_wf C" "1 < length (cf_cores C)" and inv: "tpc_inv C cmd W A s" and k: "k < length (cf_cores C)"
    and pend: "n_pend s k = []" and polls: "p_polls (tpc_proto heap C) k q" and chan: "n_chan s q (core_of C k) = m # ms"
  shows "tpc_serves heap C cmd W A s k q m ms"
proof (cases "k = 0")
  case True
  with polls have "q \<in> unat ` set (cf_clients C) \<or> q \<in> unat ` set (cf_cores C)" "q \<noteq> core_of C 0"
    by (auto simp: tpc_proto_def)
  then consider "q \<in> unat ` set (cf_clients C)" | i where "i < length (cf_cores C)" "0 < i" "q = core_of C i"
    by (auto simp: core_of_def in_set_conv_nth) (metis gr0I)
  then show ?thesis
    using client_serves [OF C inv, of q m ms heap] ready_serves [OF C(1) _ _ inv, of _ m ms heap] True pend chan by cases auto
next
  case False
  with polls have "0 < k" "q = core_of C 0" by simp_all
  with follower_serves [OF C(1) _ k inv pend] chan show ?thesis by simp
qed

subsection \<open>Clients that wait\<close>

text \<open>
  \<open>W\<close> holds the indices of the clients that wait for an answer. A client puts its core into a
  set-up message; it sends a request from its core to the leader, with its index, when it does
  not wait.
\<close>

fun patient :: "conf \<Rightarrow> nat set \<Rightarrow> choice \<Rightarrow> bool" where
  "patient C W (Client_send q d m) \<longleftrightarrow>
     (msg_tag m = SETUP_TAG \<and> unat (msg_cid m) \<in> unat ` set (cf_clients C)) \<or>
     (msg_tag m = REQ_TAG \<and> d = core_of C 0 \<and> unat (msg_cid m) < length (cf_clients C) \<and>
        q = unat (cf_clients C ! unat (msg_cid m)) \<and> unat (msg_cid m) \<notin> W)"
| "patient C W ch \<longleftrightarrow> True"

text \<open>It waits from the request until it has received the leader's answer.\<close>

fun waiting_after :: "conf \<Rightarrow> 'r net \<Rightarrow> choice \<Rightarrow> nat set \<Rightarrow> nat set" where
  "waiting_after C s (Client_send q d m) W = (if msg_tag m = REQ_TAG then insert (unat (msg_cid m)) W else W)"
| "waiting_after C s (Client_recv q p) W =
     (case n_chan s p q of [] \<Rightarrow> W
      | m # ms \<Rightarrow> if p = core_of C 0 \<and> msg_tag m = RESP_TAG then W - {unat (msg_cid m)} else W)"
| "waiting_after C s ch W = W"

fun client_run :: "conf \<Rightarrow> 'r proto \<Rightarrow> choice list \<Rightarrow> nat set \<times> 'r net \<Rightarrow> (nat set \<times> 'r net) option" where
  "client_run C P [] x = Some x"
| "client_run C P (ch # chs) (W, s) =
     (if patient C W ch then
        (case net_do C P ch s of None \<Rightarrow> None | Some s' \<Rightarrow> client_run C P chs (waiting_after C s ch W, s'))
      else None)"

lemma client_run_net: "client_run C P chs (W, s) = Some (W', s') \<Longrightarrow> net_run C P chs s = Some s'"
  by (induction chs arbitrary: W s) (auto split: if_splits option.splits)

lemma from_replica_update:
  assumes "from_replica C cmd l d m" and "\<not> named TPC_PREP j m \<or> d \<notin> core_of C ` {1..<length (cf_cores C)} \<or> 0 < l"
    and "\<not> named TPC_RDY j m \<or> d \<noteq> core_of C 0 \<or> l = 0"
  shows "from_replica C (cmd(j := p)) l d m"
proof (cases "d \<in> unat ` set (cf_clients C)")
  case True
  then show ?thesis using assms(1) by (simp add: from_replica_def)
next
  case False
  with assms(1) have m: "wf_msg m" "unat (msg_cid m) < length (cf_clients C)" and
    "l = 0 \<and> d \<in> core_of C ` {1..<length (cf_cores C)} \<and>
       (msg_tag m = TPC_COM \<or> msg_tag m = TPC_PREP \<and> payload m = cmd (unat (msg_cid m))) \<or>
     0 < l \<and> d = core_of C 0 \<and> msg_tag m = TPC_RDY \<and> payload m = cmd (unat (msg_cid m))"
    unfolding from_replica_def by (simp_all only: if_False)
  then have "l = 0 \<and> d \<in> core_of C ` {1..<length (cf_cores C)} \<and>
       (msg_tag m = TPC_COM \<or> msg_tag m = TPC_PREP \<and> payload m = (cmd(j := p)) (unat (msg_cid m))) \<or>
     0 < l \<and> d = core_of C 0 \<and> msg_tag m = TPC_RDY \<and> payload m = (cmd(j := p)) (unat (msg_cid m))"
    using assms(2,3) unfolding named_def by (elim disjE conjE) simp_all
  with m False show ?thesis unfolding from_replica_def by (simp only: if_False)
qed

lemma in_place_resting:
  assumes "in_place C cmd s" and "stage C W s j" and "j \<notin> W" and "0 < length (cf_cores C)" and "j < length (cf_clients C)"
  shows "in_place C (cmd(j := p)) s"
  unfolding in_place_def
proof (intro conjI allI impI ballI)
  have z: "asking C s j = 0" "\<forall>i \<in> {1..<length (cf_cores C)}. token C s j i = 0"
    using assms(2,3) by (auto simp: stage_def tokens_0)
  show "from_client C (cmd(j := p)) q m" if q: "q \<in> unat ` set (cf_clients C)" "m \<in> set (n_chan s q (core_of C 0))" for q m
  proof -
    have "from_client C cmd q m" using assms(1) q unfolding in_place_def by blast
    moreover have "\<not> named REQ_TAG j m" if "q = unat (cf_clients C ! j)"
      using z(1) q(2) that unfolding asking_def count_of_0 by blast
    ultimately show ?thesis by (auto simp: from_client_def named_def)
  qed
  have prep: "\<not> named TPC_PREP j m" if "m \<in> set (transit C s 0 (core_of C i))" "i \<in> {1..<length (cf_cores C)}" for m i
    using z(2) that by (auto simp: token_def count_of_0)
  have ready: "\<not> named TPC_RDY j m" if "m \<in> set (transit C s i (core_of C 0))" "0 < i" "i < length (cf_cores C)" for m i
    using z(2) that by (auto simp: token_def count_of_0)
  show "from_replica C (cmd(j := p)) l d m" if m: "l < length (cf_cores C)" "m \<in> set (transit C s l d)" for l d m
  proof (rule from_replica_update)
    show "from_replica C cmd l d m" using assms(1) m unfolding in_place_def by blast
    show "\<not> named TPC_PREP j m \<or> d \<notin> core_of C ` {1..<length (cf_cores C)} \<or> 0 < l" using prep m by blast
    show "\<not> named TPC_RDY j m \<or> d \<noteq> core_of C 0 \<or> l = 0" using ready m by blast
  qed
qed

lemma owed_asked:
  assumes "j < length (cf_clients C)" and "j \<notin> W" and "replies C s j = 0"
  shows "owed C (cmd(j := p)) (insert j W) s = owed C cmd W s + {#p#}"
proof -
  have "owed C (cmd(j := p)) (insert j W) s + {#} = owed C cmd W s + {#p#}"
    using sum_change [where A = "{..<length (cf_clients C)}" and p = j and
        f = "\<lambda>i. if i \<in> W \<and> replies C s i = 0 then {#cmd i#} else {#}" and
        g = "\<lambda>i. if i \<in> insert j W \<and> replies C s i = 0 then {#(cmd(j := p)) i#} else {#}"] assms
    unfolding owed_def by simp
  then show ?thesis by simp
qed

lemma send_keeps:
  assumes C: "conf_wf C" "0 < length (cf_cores C)" and inv: "tpc_inv C cmd W A s"
    and st: "net_do C P (Client_send q d m) s = Some s'" and pt: "patient C W (Client_send q d m)"
  shows "\<exists>cmd. tpc_inv C cmd (waiting_after C s (Client_send q d m) W) (A + mset (requests C [Client_send q d m])) s'"
proof -
  have q: "q \<in> unat ` set (cf_clients C)" and wf: "wf_msg m" and
    s': "s' = push_chan q d m (s\<lparr>n_sent := n_sent s @ [payload m]\<rparr>)"
    using client_sendD [OF st] by blast+
  have ne: "core_of C p \<noteq> q" if "p < length (cf_cores C)" for p using core_not_client [OF C(1) that] q by metis
  have t: "transit C s' p e = transit C s p e" if "p < length (cf_cores C)" for p e
    using ne [OF that] by (simp add: transit_def s')
  have same: "tokens C s' j = tokens C s j" "replies C s' j = replies C s j" "counted s' j = counted s j" for j
    using C(2) by (auto simp: token_def t replies_def counted_def s' [THEN arg_cong, of n_st] intro!: tokens_same)
  have u: "upto s' 0 = upto s 0" "n_st s' = n_st s" by (simp_all add: s' upto_def)
  have ask: "asking C s' j = asking C s j + (if d = core_of C 0 \<and> named REQ_TAG j m \<and> q = unat (cf_clients C ! j) then 1 else 0)" for j
    by (simp add: asking_def s')
  have place: "in_place C cmd' s'" if "in_place C cmd' s" "d = core_of C 0 \<Longrightarrow> from_client C cmd' q m" for cmd'
    using that by (auto simp: in_place_def t) (auto simp: s' split: if_splits)
  from pt show ?thesis unfolding patient.simps
  proof (elim disjE conjE)
    assume m: "msg_tag m = SETUP_TAG" "unat (msg_cid m) \<in> unat ` set (cf_clients C)"
    then have "\<not> named REQ_TAG j m" for j by (simp add: named_def)
    then have st: "stage C W s' j = stage C W s j" for j by (intro stage_cong same) (simp add: ask)
    have "from_client C cmd q m" using m wf by (simp add: from_client_def)
    then have "in_place C cmd s'" using inv by (intro place) (simp_all add: tpc_inv_def)
    moreover have "owed C cmd W s' = owed C cmd W s" by (rule owed_cong) (rule same(2))
    ultimately have "tpc_inv C cmd W A s'" using inv by (simp add: tpc_inv_def st u)
    then show ?thesis using m(1) by auto
  next
    let ?k = "unat (msg_cid m)"
    assume m: "msg_tag m = REQ_TAG" "d = core_of C 0" "?k < length (cf_clients C)" "q = unat (cf_clients C ! ?k)" "?k \<notin> W"
    let ?cmd = "cmd(?k := payload m)" and ?W = "insert ?k W"
    have name: "named REQ_TAG j m \<longleftrightarrow> j = ?k" for j using m(1) by (auto simp: named_def)
    have k: "stage C W s ?k" using inv m(3) by (simp add: tpc_inv_def)
    then have rest: "asking C s ?k = 0" "tokens C s ?k = 0" "replies C s ?k = 0" using m(5) by (simp_all add: stage_def)
    have "stage C ?W s' j" if j: "j < length (cf_clients C)" for j
    proof (cases "j = ?k")
      case True
      then show ?thesis using rest same ask [of ?k] m(2,4) name by (simp add: stage_def undecided_def)
    next
      case False
      then have "stage C ?W s' j = stage C ?W s j" by (intro stage_cong same) (simp add: ask name)
      also have "\<dots> = stage C W s j" using False by (simp add: stage_def)
      finally show ?thesis using inv j by (simp add: tpc_inv_def)
    qed
    moreover have "in_place C ?cmd s" using inv by (intro in_place_resting [OF _ k m(5) C(2) m(3)]) (simp add: tpc_inv_def)
    then have "in_place C ?cmd s'" using m wf by (intro place) (simp_all add: from_client_def)
    moreover have "owed C ?cmd ?W s' = owed C ?cmd ?W s" by (rule owed_cong) (rule same(2))
    then have "owed C ?cmd ?W s' = owed C cmd W s + {#payload m#}" using owed_asked [OF m(3,5) rest(3)] by simp
    ultimately have "tpc_inv C ?cmd ?W (A + {#payload m#}) s'" using inv by (auto simp: tpc_inv_def u)
    then show ?thesis using m(1,2) by auto
  qed
qed

text \<open>A client takes a message from its channel.\<close>

lemma client_takes:
  assumes C: "conf_wf C" "0 < length (cf_cores C)" and q: "q \<in> unat ` set (cf_clients C)" and chan: "n_chan s p q = m # ms"
    and s': "s' = set_chan p q ms s"
  shows "asking C s' j = asking C s j" "tokens C s' j = tokens C s j" "counted s' j = counted s j"
    and "replies C s j = replies C s' j + (if p = core_of C 0 \<and> q = unat (cf_clients C ! j) \<and> named RESP_TAG j m then 1 else 0)"
    and "p = core_of C 0 \<Longrightarrow> m \<in> set (transit C s 0 q)"
    and "in_place C cmd s \<Longrightarrow> in_place C cmd s'" and "n_st s' = n_st s" and "upto s' i = upto s i"
proof -
  have ne: "q \<noteq> core_of C i" if "i < length (cf_cores C)" for i using core_not_client [OF C(1) that] q by metis
  have c: "n_chan s' r (core_of C 0) = n_chan s r (core_of C 0)" for r using ne [OF C(2)] by (simp add: s')
  have t: "transit C s' l d = transit C s l d" if "d \<noteq> q \<or> core_of C l \<noteq> p" for l d
    using that by (auto simp: transit_def s')
  have t0: "transit C s l q = m # transit C s' l q" if "core_of C l = p" for l :: nat
    using that chan by (simp add: transit_def s')
  have "token C s' j i = token C s j i" if "i < length (cf_cores C)" for i
    using t [of "core_of C i" 0] t [of "core_of C 0" i] ne [OF that] ne [OF C(2)] unfolding token_def by metis
  then show "tokens C s' j = tokens C s j" by (intro tokens_same)
  show "replies C s j = replies C s' j + (if p = core_of C 0 \<and> q = unat (cf_clients C ! j) \<and> named RESP_TAG j m then 1 else 0)"
    using t0 [of 0] t [of "unat (cf_clients C ! j)" 0]
    by (cases "p = core_of C 0 \<and> q = unat (cf_clients C ! j)") (auto simp: replies_def)
  show "p = core_of C 0 \<Longrightarrow> m \<in> set (transit C s 0 q)" using t0 [of 0] by simp
  have "set (transit C s' l d) \<subseteq> set (transit C s l d)" for l d
    using t [of d l] t0 [of l] by (cases "d = q \<and> core_of C l = p") auto
  then show "in_place C cmd s'" if "in_place C cmd s"
    by (intro in_place_step [where s = s and as = "[]" and k = 0, OF that]) (simp_all add: c)
qed (use core_not_client [OF C] q in \<open>auto simp: asking_def counted_def upto_def s'\<close>)

lemma recv_keeps:
  assumes C: "conf_wf C" "0 < length (cf_cores C)" and inv: "tpc_inv C cmd W A s"
    and st: "net_do C P (Client_recv q p) s = Some s'"
  shows "tpc_inv C cmd (waiting_after C s (Client_recv q p) W) A s'"
proof -
  from st obtain m ms where q: "q \<in> unat ` set (cf_clients C)" and chan: "n_chan s p q = m # ms" and s': "s' = set_chan p q ms s"
    by (rule client_recvE) blast
  note v = client_takes [OF C q chan s']
  have place: "in_place C cmd s'" using inv v(6) by (simp add: tpc_inv_def)
  show ?thesis
  proof (cases "p = core_of C 0 \<and> msg_tag m = RESP_TAG")
    case True
    let ?k = "unat (msg_cid m)"
    have "from_replica C cmd 0 q m" using inv C(2) v(5) True unfolding tpc_inv_def in_place_def by blast
    then have k: "?k < length (cf_clients C)" "q = unat (cf_clients C ! ?k)" using q True by (simp_all add: from_replica_def)
    have ans: "replies C s j = replies C s' j + (if j = ?k then 1 else 0)" for j
      using v(4) [of j] True k(2) by (auto simp: named_def)
    have "stage C W s ?k" using inv k(1) by (simp add: tpc_inv_def)
    then have w: "?k \<in> W" "asking C s ?k = 0" "tokens C s ?k = 0" "replies C s' ?k = 0"
      using ans [of ?k] by (auto simp: stage_def undecided_def split: if_splits)
    have "stage C (W - {?k}) s' j" if j: "j < length (cf_clients C)" for j
    proof (cases "j = ?k")
      case True
      then show ?thesis using w v(1-3) by (simp add: stage_def)
    next
      case False
      then have "stage C (W - {?k}) s' j = stage C (W - {?k}) s j" using ans [of j] by (intro stage_cong v(1-3)) simp
      also have "\<dots> = stage C W s j" using False by (simp add: stage_def)
      finally show ?thesis using inv j by (simp add: tpc_inv_def)
    qed
    moreover have "owed C cmd (W - {?k}) s' = owed C cmd W s"
      unfolding owed_def using ans w(1) by (intro sum.cong) auto
    ultimately show ?thesis using inv place chan True by (simp add: tpc_inv_def v(7,8))
  next
    case False
    then have ans: "replies C s' j = replies C s j" for j using v(4) [of j] by (auto simp: named_def)
    have "stage C W s' j = stage C W s j" for j by (rule stage_cong [OF v(1,2) ans v(3)])
    moreover have "owed C cmd W s' = owed C cmd W s" by (rule owed_cong) (rule ans)
    moreover have "waiting_after C s (Client_recv q p) W = W" using False chan by auto
    ultimately show ?thesis using inv place by (simp add: tpc_inv_def v(7,8))
  qed
qed

subsection \<open>Runs\<close>

definition tpc_going :: "conf \<Rightarrow> nat set \<Rightarrow> u64 list multiset \<Rightarrow> tpc_replica net \<Rightarrow> bool" where
  "tpc_going C W A s \<longleftrightarrow> (\<exists>cmd. tpc_inv C cmd W A s)"

abbreviation tpc_left :: "u8 list \<times> u8 list \<Rightarrow> conf \<Rightarrow> tpc_replica net \<Rightarrow> nat" where
  "tpc_left heap C s \<equiv> work C (tpc_proto heap C) (tpc_weight C) s"

lemma tpc_polls_in:
  "i < length (cf_cores C) \<Longrightarrow> p_polls (tpc_proto heap C) i q \<Longrightarrow>
   q \<in> unat ` set (cf_cores C) \<union> unat ` set (cf_clients C)"
  using core_in [of 0 C] by (cases "i = 0") (force simp: tpc_proto_def)+

lemma tpc_step:
  assumes C: "conf_wf C" "1 < length (cf_cores C)" and inv: "tpc_going C W A s"
    and st: "net_do C (tpc_proto heap C) ch s = Some s'" and pt: "patient C W ch"
  shows "tpc_going C (waiting_after C s ch W) (A + mset (requests C [ch])) s' \<and>
    (\<not> sends_request ch \<longrightarrow> (if internal ch then 1 else 0) + tpc_left heap C s' \<le> tpc_left heap C s)"
proof -
  have n: "0 < length (cf_cores C)" using C(2) by linarith
  obtain cmd where cmd: "tpc_inv C cmd W A s" using inv by (auto simp: tpc_going_def)
  show ?thesis
  proof (cases ch)
    case (Receive k q)
    from st [unfolded Receive] obtain m ms c where k: "k < length (cf_cores C)" and idle: "n_pend s k = []"
      and polls: "p_polls (tpc_proto heap C) k q" and chan: "n_chan s q (core_of C k) = m # ms"
      and run: "run_on (tpc_proto heap C) (n_st s k) m = Inr c"
      and s': "s' = set_chan q (core_of C k) ms (s\<lparr>n_st := (n_st s)(k := c), n_pend := (n_pend s)(k := cx_acts c)\<rparr>)"
      by (rule receiveE) blast
    from tpc_served [OF C cmd k idle polls chan] run have "tpc_inv C cmd W A s'"
      "costs C (tpc_proto heap C) (tpc_weight C) k (cx_acts c) < tpc_weight C k m"
      by (auto simp: tpc_serves_def s')
    moreover have "q < 256" using tpc_polls_in [OF k polls] by auto
    ultimately show ?thesis
      using receive_work [OF C(1) k idle polls _ chan, where w = "tpc_weight C" and st = "(n_st s)(k := c)" and as = "cx_acts c"]
      by (auto simp: Receive tpc_going_def s')
  next
    case (Act k)
    from st [unfolded Act] obtain a as where k: "k < length (cf_cores C)" and pend: "n_pend s k = a # as"
      and s': "s' = perform C k a (s\<lparr>n_pend := (n_pend s)(k := as)\<rparr>)"
      by (rule actE) blast
    have "tpc_inv C cmd W A s'" using act_keeps [OF C(1) cmd] st Act by blast
    moreover have "tpc_left heap C s' < tpc_left heap C s"
      unfolding s' using act_work [OF k pend, of "tpc_proto heap C" "tpc_weight C"] by linarith
    ultimately show ?thesis by (auto simp: Act tpc_going_def)
  next
    case (Client_send q d m)
    with send_keeps [OF C(1) n cmd, of "tpc_proto heap C"] st pt show ?thesis unfolding tpc_going_def by simp
  next
    case (Client_recv q p)
    from st [unfolded Client_recv] obtain ms where q: "q \<in> unat ` set (cf_clients C)" and s': "s' = set_chan p q ms s"
      by (rule client_recvE) blast
    have "tpc_inv C cmd (waiting_after C s ch W) A s'"
      using recv_keeps [OF C(1) n cmd] st unfolding Client_recv by blast
    moreover have "tpc_left heap C s' = tpc_left heap C s" unfolding s' by (rule client_recv_work [OF C(1) q])
    moreover have "requests C [ch] = []" "\<not> internal ch" by (simp_all add: Client_recv)
    ultimately show ?thesis unfolding tpc_going_def by auto
  qed
qed

lemma tpc_run_going:
  assumes C: "conf_wf C" "1 < length (cf_cores C)"
  shows "tpc_going C W A s \<Longrightarrow> client_run C (tpc_proto heap C) chs (W, s) = Some (W', s') \<Longrightarrow>
    tpc_going C W' (A + mset (requests C chs)) s' \<and>
    ((\<forall>ch \<in> set chs. \<not> sends_request ch) \<longrightarrow> requests C chs = [] \<and>
       length (filter internal chs) + tpc_left heap C s' \<le> tpc_left heap C s)"
proof (induction chs arbitrary: W A s)
  case Nil
  then show ?case by simp
next
  case (Cons ch chs)
  then obtain s1 where s1: "patient C W ch" "net_do C (tpc_proto heap C) ch s = Some s1"
    "client_run C (tpc_proto heap C) chs (waiting_after C s ch W, s1) = Some (W', s')"
    by (auto split: if_splits option.splits)
  note step = tpc_step [OF C Cons.prems(1) s1(2,1)]
  have split: "requests C (ch # chs) = requests C [ch] @ requests C chs" by (cases ch) simp_all
  have none: "\<not> sends_request ch \<Longrightarrow> requests C [ch] = []" by (cases ch) simp_all
  from Cons.IH [OF step [THEN conjunct1] s1(3)] step none show ?case
    unfolding split by (auto simp: ac_simps split: if_splits)
qed

lemma tpc_start_fit:
  assumes "conf_wf C" and "cf_below C = ALG_NONE" and "i < length (cf_cores C)"
    and "length (cf_clients C) \<le> length (fst heap)" and "length (cf_clients C) \<le> length (snd heap)"
    and "tpc_start heap C i c"
  shows "tpc_fit C i c"
proof -
  obtain t' ss b where "tpc_init heap C i = Inr (cx_rep c, t', ss, b)"
    using assms(6) by (auto simp: tpc_start_def split: sum.splits)
  note init = init_replica_tpc_rep [OF this [unfolded tpc_init_def]]
  then show ?thesis using tpc_start_local [OF assms(1,3,6)] assms(2,4,5) by (auto simp: tpc_fit_def)
qed

lemma tpc_going_init:
  assumes "conf_wf C" and "1 < length (cf_cores C)" and "cf_below C = ALG_NONE"
    and "length (cf_clients C) \<le> length (fst heap)" and "length (cf_clients C) \<le> length (snd heap)"
    and "net_init C (tpc_proto heap C) s"
  shows "tpc_going C {} {#} s"
proof -
  have n: "n_pend s = (\<lambda>_. [])" "n_chan s = (\<lambda>_ _. [])" "n_log s = (\<lambda>_. [])"
    and st: "\<And>i. i < length (cf_cores C) \<Longrightarrow> tpc_start heap C i (n_st s i)"
    using assms(6) by (simp_all add: net_init_def)
  have t: "transit C s p d = []" for p d by (simp add: transit_def n)
  have z: "asking C s j = 0" "tokens C s j = 0" "replies C s j = 0" for j
    by (simp_all add: asking_def tokens_0 token_def replies_def t n)
  have "tpc_inv C cmd {} {#} s" for cmd
    using tpc_start_fit [OF assms(1,3) _ assms(4,5) st] by (simp add: tpc_inv_def in_place_def t n stage_def z upto_def owed_def)
  then show ?thesis by (auto simp: tpc_going_def)
qed

text \<open>When the replicas have nothing left to do.\<close>

lemma tpc_finished:
  assumes C: "conf_wf C" "1 < length (cf_cores C)" and inv: "tpc_inv C cmd W A s"
    and idle: "idle C (tpc_proto heap C) s" and k: "k < length (cf_cores C)"
  shows "n_pend s k = []" and "p_polls (tpc_proto heap C) k q \<Longrightarrow> n_chan s q (core_of C k) = []"
proof -
  show pend: "n_pend s k = []" using idle [unfolded idle_def, THEN spec, of "Act k"] k by (simp split: list.splits)
  show "n_chan s q (core_of C k) = []" if polls: "p_polls (tpc_proto heap C) k q"
  proof (cases "n_chan s q (core_of C k)")
    case (Cons m ms)
    from tpc_served [OF C inv k pend polls Cons] have "net_do C (tpc_proto heap C) (Receive k q) s \<noteq> None"
      using Cons polls pend k by (auto simp: tpc_serves_def run_on_def)
    with idle [unfolded idle_def, THEN spec, of "Receive k q"] show ?thesis by simp
  qed simp
qed

lemma tpc_outcome:
  assumes C: "conf_wf C" "1 < length (cf_cores C)" and inv: "tpc_going C W A s" and reach: "net_reach C (tpc_proto heap C) s"
    and idle: "idle C (tpc_proto heap C) s"
  shows "i < length (cf_cores C) \<Longrightarrow> n_log s i = n_log s 0" and "mset (n_log s 0) = A"
    and "j < length (cf_clients C) \<Longrightarrow>
      count_of RESP_TAG j (n_chan s (core_of C 0) (unat (cf_clients C ! j))) = (if j \<in> W then 1 else 0)"
proof -
  obtain cmd where cmd: "tpc_inv C cmd W A s" using inv by (auto simp: tpc_going_def)
  note fin = tpc_finished [OF C cmd idle]
  have n: "0 < length (cf_cores C)" using C(2) by linarith
  have polls: "p_polls (tpc_proto heap C) 0 (core_of C i)" if "0 < i" "i < length (cf_cores C)" for i
    using that core_of_inject [OF C(1) that(2) n] core_in [OF that(2)] by (auto simp: tpc_proto_def)
  have down: "n_chan s (core_of C 0) (core_of C i) = []" if "0 < i" "i < length (cf_cores C)" for i
    using fin(2) [OF that(2)] that(1) by simp
  have z: "asking C s j = 0" "tokens C s j = 0" if "j < length (cf_clients C)" for j
  proof -
    have "p_polls (tpc_proto heap C) 0 (unat (cf_clients C ! j))"
      using client_core [OF that] core_not_client [OF C(1) n] by (auto simp: tpc_proto_def)
    then show "asking C s j = 0" by (simp add: asking_def fin(2) [OF n])
    show "tokens C s j = 0"
      using fin(1) n down polls fin(2) [OF n] by (auto simp: tokens_0 token_def transit_def)
  qed
  have ans: "replies C s j = (if j \<in> W then 1 else 0)" if "j < length (cf_clients C)" for j
    using cmd z [OF that] that by (auto simp: tpc_inv_def stage_def undecided_def split: if_splits)
  then show "j < length (cf_clients C) \<Longrightarrow>
      count_of RESP_TAG j (n_chan s (core_of C 0) (unat (cf_clients C ! j))) = (if j \<in> W then 1 else 0)"
    using fin(1) [OF n] by (auto simp: replies_def transit_def)
  have "owed C cmd W s = {#}" unfolding owed_def by (rule sum.neutral) (simp add: ans)
  then show "mset (n_log s 0) = A" using cmd fin(1) [OF n] by (simp add: tpc_inv_def upto_def)
  show "n_log s i = n_log s 0" if i: "i < length (cf_cores C)"
  proof (cases "i = 0")
    case False
    then have "linked C TPC_COM s 0 i"
      using tpc_log.replicated_reach [OF reach C(1)] i by (simp add: tpc_log.replicated_def)
    then show ?thesis using fin(1) [OF n] fin(1) [OF i] down [OF _ i] False by (simp add: linked_def upto_def)
  qed simp
qed

subsection \<open>The property\<close>

text \<open>
  C9: two-phase commit makes progress with clients that wait for the answer to a request before
  they send the next, with at least two replicas and no core level below, whatever the
  counters of ready messages held at the start. From the time the clients stop sending, the replicas take at
  most as many steps as the work left says, \<open>3 n\<^sup>2\<close> for a request with \<open>n\<close> replicas; and when no
  replica can take a step any more, all replicas have executed exactly the commands that were requested, in
  the same order, and every client that still waits, and no other, has one answer on its way to it.
\<close>

theorem tpc_liveness:
  assumes "conf_wf C" and "1 < length (cf_cores C)" and "cf_below C = ALG_NONE"
    and "length (cf_clients C) \<le> length (fst heap)" and "length (cf_clients C) \<le> length (snd heap)"
    and "net_init C (tpc_proto heap C) s0" and "client_run C (tpc_proto heap C) chs ({}, s0) = Some (W, s)"
    and "client_run C (tpc_proto heap C) chs' (W, s) = Some (W', s')" and "\<forall>ch \<in> set chs'. \<not> sends_request ch"
  shows "length (filter internal chs') \<le> work C (tpc_proto heap C) (tpc_weight C) s \<and>
    (idle C (tpc_proto heap C) s' \<longrightarrow>
      (\<forall>i < length (cf_cores C). n_log s' i = n_log s' 0 \<and> mset (n_log s' i) = mset (requests C chs)) \<and>
      (\<forall>j < length (cf_clients C).
        count_of RESP_TAG j (n_chan s' (core_of C 0) (unat (cf_clients C ! j))) = (if j \<in> W' then 1 else 0)))"
proof -
  note run = tpc_run_going [OF assms(1,2)]
  from run [OF tpc_going_init [OF assms(1-6)] assms(7)] have s: "tpc_going C W (mset (requests C chs)) s" by simp
  from run [OF s assms(8)] assms(9) have s': "tpc_going C W' (mset (requests C chs)) s'"
    "length (filter internal chs') \<le> tpc_left heap C s" by auto
  have "net_reach C (tpc_proto heap C) s'"
    using net_run_reach [OF net_run_reach [OF net_reach.init [OF assms(6)] client_run_net [OF assms(7)]] client_run_net [OF assms(8)]] .
  from tpc_outcome [OF assms(1,2) s'(1) this] s'(2) show ?thesis by metis
qed

subsection \<open>Witness\<close>

text \<open>A client that asks twice, waiting for the first answer.\<close>

definition tpc_round :: "choice list" where
  "tpc_round = [Receive 0 5, Act 0, Act 0, Receive 1 0, Act 1, Receive 2 0, Act 2, Receive 0 1, Receive 0 2,
     Act 0, Act 0, Act 0, Act 0, Receive 1 0, Act 1, Receive 2 0, Act 2]"

definition tpc_twice :: "choice list" where
  "tpc_twice = [Client_send 5 0 example_request] @ tpc_round @ [Client_recv 5 0, Client_send 5 0 example_request]"

lemma tpc_twice_run:
  "case client_run example_conf (tpc_proto example_heap example_conf) tpc_twice ({}, empty_net tpc_example) of
     None \<Rightarrow> False
   | Some (W, s) \<Rightarrow> (case client_run example_conf (tpc_proto example_heap example_conf) tpc_round (W, s) of None \<Rightarrow> False
       | Some (W', s') \<Rightarrow> W = {0} \<and> 0 \<in> W' \<and> nothing_left example_conf (tpc_proto example_heap example_conf) s')"
  by code_simp

lemma tpc_twice_choices:
  "\<forall>ch \<in> set tpc_round. \<not> sends_request ch" "requests example_conf tpc_twice = [[11, 12, 13], [11, 12, 13]]"
  "length (filter internal tpc_round) = 17" "length (cf_clients example_conf) \<le> length (fst example_heap)"
  "length (cf_clients example_conf) \<le> length (snd example_heap)"
  by code_simp+

theorem tpc_liveness_witness:
  "\<exists>s W' s'. 17 \<le> work example_conf (tpc_proto example_heap example_conf) (tpc_weight example_conf) s \<and>
     client_run example_conf (tpc_proto example_heap example_conf) tpc_round ({0}, s) = Some (W', s') \<and>
     n_log s' 2 = [[11, 12, 13], [11, 12, 13]] \<and> count_of RESP_TAG 0 (n_chan s' 0 5) = 1"
proof -
  let ?C = example_conf and ?P = "tpc_proto example_heap example_conf"
  obtain W s W' s' where s: "client_run ?C ?P tpc_twice ({}, empty_net tpc_example) = Some (W, s)"
      and s': "client_run ?C ?P tpc_round (W, s) = Some (W', s')" "W = {0}" "0 \<in> W'" "nothing_left ?C ?P s'"
    using tpc_twice_run by (auto split: option.splits)
  then have idle: "idle ?C ?P s'" using nothing_left_idle tpc_polls_in by blast
  have init: "net_init ?C ?P (empty_net tpc_example)" by (simp add: net_init_def empty_net_def tpc_example_start)
  have conf: "1 < length (cf_cores ?C)" "cf_below ?C = ALG_NONE" "2 < length (cf_cores ?C)" "0 < length (cf_clients ?C)"
    "core_of ?C 0 = 0" "unat (cf_clients ?C ! 0) = 5"
    by (simp_all add: example_conf_def core_of_def)
  note live = tpc_liveness [OF example_conf_wf conf(1,2) tpc_twice_choices(4,5) init s s'(1) tpc_twice_choices(1)]
  have log: "mset (n_log s' 2) = mset [[11, 12, 13], [11, 12, 13]]"
    using live [THEN conjunct2, rule_format, OF idle, THEN conjunct1, rule_format, OF conf(3)] unfolding tpc_twice_choices(2) by blast
  have "n_log s' 2 = replicate 2 [11, 12, 13]"
    using mset_eq_length [OF log] mset_eq_setD [OF log] by (intro replicate_eqI) auto
  then have "n_log s' 2 = [[11, 12, 13], [11, 12, 13]]" by (simp add: numeral_2_eq_2)
  moreover have "count_of RESP_TAG 0 (n_chan s' 0 5) = 1"
    using live [THEN conjunct2, rule_format, OF idle, THEN conjunct2, rule_format, OF conf(4)] s'(3) unfolding conf(5,6) by simp
  moreover have "17 \<le> work ?C ?P (tpc_weight ?C) s" using live tpc_twice_choices(3) by (simp only:)
  ultimately show ?thesis using s'(1) unfolding s'(2) by blast
qed

end
