(* ===== verification/Typing.thy ===== *)
theory Typing
  imports Chain Broadcast Tpc Onepaxos Raft
begin

text \<open>
  The types of the protocols' messages: whatever a handler does with a message of seven words,
  the buffers it works on keep seven words, and so has every message it sends, broadcasts,
  reduces or forwards. \<open>res_all\<close> says what holds of a result unless it is a fault, and the
  rules of the collection \<open>typed\<close> carry it through the statements of a handler.
\<close>

definition res_all :: "('a \<Rightarrow> bool) \<Rightarrow> 'a res \<Rightarrow> bool" where
  "res_all P r \<longleftrightarrow> (case r of Inl _ \<Rightarrow> True | Inr x \<Rightarrow> P x)"

fun act_wf :: "action \<Rightarrow> bool" where
  "act_wf (Send d m) = wf_msg m"
| "act_wf (Bcast m) = wf_msg m"
| "act_wf (NodeSend d m) = wf_msg m"
| "act_wf (Reduce m) = wf_msg m"
| "act_wf a = True"

text \<open>\<open>Q\<close> is about the buffers a protocol has in its own structure.\<close>

definition typed :: "('r \<Rightarrow> bool) \<Rightarrow> 'r ctx \<Rightarrow> bool" where
  "typed Q c \<longleftrightarrow> wf_msg (cx_msg c) \<and> list_all act_wf (cx_acts c) \<and> Q (cx_rep c)"

named_theorems typing \<open>statements that keep the types\<close>

lemma res_all_simps [simp]: "res_all P (Inl e)" "res_all P (Inr x) = P x"
  by (simp_all add: res_all_def)

lemma res_all_bind: "res_all P (bindr r f) = res_all (\<lambda>x. res_all P (f x)) r"
  by (cases r) simp_all

lemma res_all_mono: "res_all P r \<Longrightarrow> (\<And>x. P x \<Longrightarrow> Q x) \<Longrightarrow> res_all Q r"
  by (cases r) simp_all

lemma typed_bind: "res_all (typed Q) r \<Longrightarrow> (\<And>c. typed Q c \<Longrightarrow> res_all P (f c)) \<Longrightarrow> res_all P (bindr r f)"
  unfolding res_all_bind by (rule res_all_mono)

lemma any_bind: "(\<And>x. r = Inr x \<Longrightarrow> res_all P (f x)) \<Longrightarrow> res_all P (bindr r f)"
  by (cases r) simp_all

definition keeps :: "('r \<Rightarrow> bool) \<Rightarrow> ('r ctx \<Rightarrow> 'r ctx res) \<Rightarrow> bool" where
  "keeps Q f \<longleftrightarrow> (\<forall>c. typed Q c \<longrightarrow> res_all (typed Q) (f c))"

lemma keepsI: "(\<And>c. typed Q c \<Longrightarrow> res_all (typed Q) (f c)) \<Longrightarrow> keeps Q f"
  by (simp add: keeps_def)

lemma keepsD: "keeps Q f \<Longrightarrow> typed Q c \<Longrightarrow> res_all (typed Q) (f c)"
  by (simp add: keeps_def)

lemma keeps_bind: "res_all (typed Q) r \<Longrightarrow> keeps Q f \<Longrightarrow> res_all (typed Q) (bindr r f)"
  by (rule typed_bind) (auto dest: keepsD)

lemma keeps_do_all [typing]: "list_all (keeps Q) fs \<Longrightarrow> keeps Q (do_all fs)"
proof (induction fs)
  case Nil
  then show ?case by (simp add: keeps_def)
next
  case (Cons f fs)
  show ?case
  proof (rule keepsI)
    fix c assume "typed Q c"
    with Cons show "res_all (typed Q) (do_all (f # fs) c)" by (auto intro!: keeps_bind dest: keepsD)
  qed
qed

lemma keeps_loop:
  assumes "\<And>i. keeps Q (f i)"
  shows "keeps Q (foldr_res f is)"
proof (induction "is")
  case Nil
  then show ?case by (simp add: keeps_def)
next
  case (Cons i js)
  show ?case
  proof (rule keepsI)
    fix c assume "typed Q c"
    with Cons assms show "res_all (typed Q) (foldr_res f (i # js) c)" by (auto intro!: keeps_bind dest: keepsD)
  qed
qed

lemma keeps_if [typing]: "(b \<Longrightarrow> keeps Q f) \<Longrightarrow> (\<not> b \<Longrightarrow> keeps Q g) \<Longrightarrow> keeps Q (if b then f else g)"
  by simp

lemma keeps_when [typing]: "keeps Q f \<Longrightarrow> keeps Q (st_when b f)"
  by (auto simp: keeps_def st_when_def)

lemma keeps_Inr [typing]: "keeps Q Inr"
  by (simp add: keeps_def)

lemma keeps_statements [typing]:
  "act_wf a \<Longrightarrow> keeps Q (st_act a)" "keeps Q (st_print s)" "keeps Q (st_tag t)" "keeps Q (st_data i v)"
  "keeps Q (st_send d)" "keeps Q (st_send_at xs i)" "keeps Q (st_reply cl)" "keeps Q st_bcast" "keeps Q (st_exec f)"
  "keeps Q st_start_timer" "keeps Q st_count" "keeps Q (st_cid j)"
  by (auto simp: keeps_def typed_def stmts res_all_bind res_all_def rd_def wr_def hdr st_cid_def split: option.splits)

lemma keeps_others [typing]: "keeps Q (st_send_others xs n)"
  unfolding st_send_others_def by (rule keeps_loop) (rule typing)

lemma keeps_core [typing]: "keeps Q st_core"
  by (auto simp: keeps_def typed_def st_core_def com_layer_core_send_request_def Let_def res_all_bind res_all_def rd_def hdr
      split: if_splits)

lemma keeps_setup [typing]: "keeps Q (st_setup cl n)"
proof (rule keepsI)
  fix c :: "'a ctx"
  assume c: "typed Q c"
  show "res_all (typed Q) (st_setup cl n c)"
  proof (cases "st_setup cl n c")
    case (Inr c')
    from setup_Inr [OF this] c show ?thesis by (auto simp: typed_def Inr)
  qed simp
qed

text \<open>A handler that looks at its state first is a choice of statements.\<close>

lemma typed_if: "(b \<Longrightarrow> res_all P x) \<Longrightarrow> (\<not> b \<Longrightarrow> res_all P y) \<Longrightarrow> res_all P (if b then x else y)"
  by simp

lemma typed_Inr: "typed Q c \<Longrightarrow> res_all (typed Q) (Inr c)"
  by simp

lemma list_all_intros: "list_all P []" "P x \<Longrightarrow> list_all P xs \<Longrightarrow> list_all P (x # xs)"
  by simp_all

lemmas typed_results = keeps_do_all [THEN keepsD] keeps_when [THEN keepsD] keeps_statements [THEN keepsD]
  keeps_others [THEN keepsD] keeps_core [THEN keepsD] keeps_setup [THEN keepsD]

lemmas typed_rules = typed_if typed_Inr keeps_bind typed_results list_all_intros

subsection \<open>Chain replication, broadcast and two-phase commit\<close>

lemma keeps_updates [typing]:
  "keeps Q update_value_chain" "keeps R update_value_broadcast" "keeps S update_value_tpc" "keeps S put_index"
  by (auto intro!: keepsI typed_results simp: update_value_chain_def update_value_broadcast_def update_value_tpc_def put_index_def)

lemma chain_typed: "keeps Q message_handler_chain"
proof (rule keepsI)
  fix c :: "chain_replica ctx"
  assume c: "typed Q c"
  then show "res_all (typed Q) (message_handler_chain c)"
    unfolding message_handler_chain_def handle_setup_chain_def handle_request_chain_def handle_commit_chain_def Let_def
    by (intro typing typed_rules)
qed

lemma broadcast_typed: "keeps Q (message_handler_broadcast smlt)"
proof (rule keepsI)
  fix c :: "replica ctx"
  assume c: "typed Q c"
  then show "res_all (typed Q) (message_handler_broadcast smlt c)"
    unfolding message_handler_broadcast_def handle_setup_broadcast_def handle_request_broadcast_def
      handle_commit_broadcast_def Let_def
    by (intro typing typed_rules)
qed

text \<open>Changes of a replica's structure, where it has no buffers of its own.\<close>

abbreviation no_buffers :: "'r \<Rightarrow> bool" where
  "no_buffers \<equiv> (\<lambda>_. True)"

lemma keeps_counters [typing]: "keeps no_buffers next_index" "keeps no_buffers reset_counters"
  by (auto simp: keeps_def typed_def next_index_def reset_counters_def Let_def res_all_bind res_all_def wr_def)

lemma commit_typed: "typed no_buffers c \<Longrightarrow> res_all (typed no_buffers) (commit_tpc c)"
  unfolding commit_tpc_def Let_def by (intro typing typed_rules)

lemma ready_typed: "typed no_buffers c \<Longrightarrow> res_all (typed no_buffers) (handle_ready_tpc c)"
  using commit_typed
  by (auto simp: handle_ready_tpc_def count_ready_def Let_def res_all_bind rd_def wr_def typed_def st_print_def st_act_def)

lemma tpc_typed: "keeps no_buffers (message_handler_tpc smlt)"
proof (rule keepsI)
  fix c :: "tpc_replica ctx"
  assume c: "typed no_buffers c"
  then show "res_all (typed no_buffers) (message_handler_tpc smlt c)"
    unfolding message_handler_tpc_def handle_setup_tpc_def handle_request_tpc_def handle_prepare_tpc_def
      handle_ready_smlt_def handle_commit_tpc_def Let_def
    by (intro typing typed_rules ready_typed)
qed

subsection \<open>1Paxos\<close>

lemma keeps_rep [typing]: "(\<And>r. Q r \<Longrightarrow> Q (f r)) \<Longrightarrow> keeps Q (st_rep f)"
  by (simp add: keeps_def typed_def st_rep_def)

lemma keeps_one_parts [typing]:
  "keeps no_buffers (enqueue_msg e)" "keeps no_buffers advance_index" "keeps no_buffers st_execute"
  "keeps no_buffers trim_queue" "keeps no_buffers (send_learn xs n)"
proof -
  show "keeps no_buffers (enqueue_msg e)"
    by (auto simp: keeps_def typed_def enqueue_msg_def Let_def res_simps res_all_bind res_all_def split: prod.split sum.split)
  show "keeps no_buffers advance_index"
    by (auto simp: keeps_def typed_def advance_index_def data_def Let_def res_all_bind res_all_def rd_def)
  show "keeps no_buffers st_execute"
    by (auto simp: keeps_def typed_def st_execute_def execute_onepaxos_def Let_def res_all_bind res_all_def rd_def wr_def
        stmts split: option.splits)
  show "keeps no_buffers trim_queue"
    by (auto simp: keeps_def typed_def trim_queue_def drop_entry_def st_when_def Let_def res_simps res_all_bind res_all_def
        split: prod.splits sum.splits)
  show "keeps no_buffers (send_learn xs n)"
    unfolding send_learn_def by (intro keeps_loop typing)
qed

lemma one_accept_typed: "keeps no_buffers (handle_accept_onepaxos smlt)"
proof (rule keepsI)
  fix c :: one_ctx
  assume c: "typed no_buffers c"
  show "res_all (typed no_buffers) (handle_accept_onepaxos smlt c)"
    unfolding handle_accept_onepaxos_def Let_def using c by (intro any_bind) (intro typing typed_rules TrueI)
qed

lemma one_learn_typed: "keeps no_buffers (handle_learn_onepaxos kvs)"
proof (rule keepsI)
  fix c :: one_ctx
  assume c: "typed no_buffers c"
  have reply: "keeps no_buffers (reply_onepaxos kvs)"
    unfolding reply_onepaxos_def Let_def by (rule keepsI) (intro typing typed_rules)
  have ex: "res_all (\<lambda>(c, ok). typed no_buffers c) (execute_onepaxos c)" if "typed no_buffers c" for c :: one_ctx
    using keeps_one_parts(3) that by (auto simp: keeps_def st_execute_def res_all_bind split_def)
  have rest: "res_all (typed no_buffers) (if r_id (cx_rep c) = o_leader (cx_rep c)
       then do_all [trim_queue, st_when ok (reply_onepaxos kvs)] c else Inr c)" if "typed no_buffers c" for c ok
    using that reply by (intro typing typed_rules)
  have mid: "keeps no_buffers (do_all [st_when b st_core, advance_index])" for b
    by (intro typing typed_rules)
  have first: "res_all (typed no_buffers) (do_all [st_start_timer, st_rep (\<lambda>r. r\<lparr>o_voted := False, o_change := False\<rparr>)] c)"
    using c by (intro typing typed_rules TrueI)
  show "res_all (typed no_buffers) (handle_learn_onepaxos kvs c)"
    unfolding handle_learn_onepaxos_def
  proof (rule typed_bind [OF first])
    fix c0 :: one_ctx
    assume "typed no_buffers c0"
    from res_all_mono [OF ex [OF this]]
    show "res_all (typed no_buffers) (bindr (execute_onepaxos c0) (\<lambda>(c, success).
       bindr (do_all [st_when (r_alg_below (cx_rep c) \<noteq> ALG_NONE) st_core, advance_index] c) (\<lambda>c.
         if r_id (cx_rep c) = o_leader (cx_rep c) then do_all [trim_queue, st_when success (reply_onepaxos kvs)] c else Inr c)))"
      unfolding res_all_bind [of _ "execute_onepaxos c0"]
      by (rule res_all_mono) (auto intro!: typed_bind keepsD [OF mid] rest simp del: do_all_Cons)
  qed
qed

lemma value_binds:
  "(\<And>x. res_all P (f x)) \<Longrightarrow> res_all P (bindr (data c i) f)"
  "(\<And>x. res_all P (g x)) \<Longrightarrow> res_all P (bindr (rd xs i) g)"
  "(\<And>x. res_all P (h x)) \<Longrightarrow> res_all P (bindr (r :: 'b list res) h)"
  by (rule any_bind; simp)+

lemma typed_rep [typing]: "typed no_buffers c \<Longrightarrow> typed no_buffers (c\<lparr>cx_rep := r\<rparr>)"
  by (simp add: typed_def)

lemma one_prepare_typed: "typed no_buffers c \<Longrightarrow> res_all (typed no_buffers) (handle_prepare_onepaxos c)"
  unfolding handle_prepare_onepaxos_def Let_def by (intro value_binds typing typed_rules TrueI)

lemma resend_typed: "typed no_buffers c \<Longrightarrow> res_all (typed no_buffers) (resend_entries n c)"
proof (induction n arbitrary: c)
  case 0
  then show ?case by simp
next
  case (Suc n)
  have "res_all (typed no_buffers) (do_all [st_tag ONE_ACC, st_send d] c)" for d
    using Suc.prems by (intro typing typed_rules)
  then have sent: "typed no_buffers x" if "do_all [st_tag ONE_ACC, st_send d] c = Inr x" for d x
    using that by (metis res_all_simps(2))
  then show ?case
    using Suc.prems
    by (auto simp: Let_def simp del: do_all_Cons intro!: any_bind split: prod.split msg_ptr.split)
      (rule Suc.IH [OF typed_rep [OF sent]], assumption)
qed

lemma keeps_resend [typing]: "keeps no_buffers (resend_entries n)"
  by (rule keepsI) (rule resend_typed)

lemma one_response_typed: "typed no_buffers c \<Longrightarrow> res_all (typed no_buffers) (handle_prepare_response_onepaxos c)"
  unfolding handle_prepare_response_onepaxos_def Let_def
  by (intro typing typed_rules TrueI) (simp_all add: st_rep_def typed_def)

lemma one_move_typed: "typed no_buffers c \<Longrightarrow> res_all (typed no_buffers) (move_acceptor c)"
  unfolding move_acceptor_def Let_def by (intro value_binds typing typed_rules TrueI)

lemma one_become_typed: "typed no_buffers c \<Longrightarrow> res_all (typed no_buffers) (become_leader a c)"
  unfolding become_leader_def Let_def by (intro value_binds typing typed_rules TrueI)

lemma one_change_typed:
  assumes "typed no_buffers c"
  shows "res_all (typed no_buffers) (handle_is_current_leader c)"
    "res_all (typed no_buffers) (handle_get_current_acceptor c)"
    "res_all (typed no_buffers) (handle_is_current_leader_response c)"
    "res_all (typed no_buffers) (handle_get_current_acceptor_response c)"
    "res_all (typed no_buffers) (handle_change_leader c)"
    "res_all (typed no_buffers) (handle_change_acceptor c)"
    "res_all (typed no_buffers) (handle_is_alive c)"
    "res_all (typed no_buffers) (handle_is_alive_response c)"
proof -
  have move: "keeps no_buffers (\<lambda>c. if unat (o_num_success (cx_rep c)) = majority_of (r_num_replicas (cx_rep c))
      then move_acceptor c else Inr c)"
    by (rule keepsI) (intro typed_rules one_move_typed)
  show "res_all (typed no_buffers) (handle_is_current_leader_response c)"
    unfolding handle_is_current_leader_response_def using assms by (intro value_binds typing typed_rules move) (simp_all add: st_rep_def typed_def)
  show "res_all (typed no_buffers) (handle_get_current_acceptor_response c)"
    unfolding handle_get_current_acceptor_response_def Let_def using assms
    by (intro value_binds typing typed_rules one_become_typed)
  show "res_all (typed no_buffers) (handle_is_current_leader c)"
    unfolding handle_is_current_leader_def Let_def using assms
    by (intro value_binds typing typed_rules TrueI) (simp_all add: st_rep_def typed_def)
  show "res_all (typed no_buffers) (handle_get_current_acceptor c)"
    unfolding handle_get_current_acceptor_def Let_def using assms
    by (intro value_binds typing typed_rules TrueI) (simp_all add: st_rep_def typed_def)
  show "res_all (typed no_buffers) (handle_change_leader c)"
    unfolding handle_change_leader_def Let_def using assms
    by (intro value_binds typing typed_rules TrueI) (simp_all add: st_rep_def typed_def)
  show "res_all (typed no_buffers) (handle_change_acceptor c)"
    unfolding handle_change_acceptor_def Let_def using assms
    by (intro value_binds typing typed_rules TrueI) (simp_all add: st_rep_def typed_def)
  show "res_all (typed no_buffers) (handle_is_alive c)"
    unfolding handle_is_alive_def Let_def using assms
    by (intro value_binds typing typed_rules TrueI) (simp_all add: st_rep_def typed_def)
  show "res_all (typed no_buffers) (handle_is_alive_response c)"
    unfolding handle_is_alive_response_def Let_def using assms
    by (intro value_binds typing typed_rules TrueI) (simp_all add: st_rep_def typed_def)
qed

lemma one_typed: "keeps no_buffers (message_handler_onepaxos smlt kvs)"
proof (rule keepsI)
  fix c :: one_ctx
  assume c: "typed no_buffers c"
  have "res_all (typed no_buffers) (handle_request_onepaxos c)"
    unfolding handle_request_onepaxos_def Let_def using c by (intro typing typed_rules TrueI)
  then show "res_all (typed no_buffers) (message_handler_onepaxos smlt kvs c)"
    unfolding message_handler_onepaxos_def handle_setup_onepaxos_def handle_abandon_onepaxos_def by_index_def Let_def
    using c
    by (intro value_binds typing typed_rules one_prepare_typed one_response_typed one_change_typed
        one_accept_typed [THEN keepsD] one_learn_typed [THEN keepsD])
qed

subsection \<open>Raft\<close>

definition raft_buffers :: "raft_replica \<Rightarrow> bool" where
  "raft_buffers r \<longleftrightarrow> wf_msg (rf_buf r) \<and> list_all (\<lambda>(d, m). wf_msg m) (rf_in r)"

lemma raft_buffers_fields [simp]:
  "raft_buffers (r\<lparr>rf_queue := q, rf_heap := h\<rparr>) = raft_buffers r" "raft_buffers (r\<lparr>rf_applied := n\<rparr>) = raft_buffers r"
  "raft_buffers (r\<lparr>rf_last_log := n\<rparr>) = raft_buffers r" "raft_buffers (r\<lparr>rf_commit := n\<rparr>) = raft_buffers r"
  "raft_buffers (r\<lparr>rf_previous_term := n\<rparr>) = raft_buffers r" "raft_buffers (r\<lparr>rf_election_timeout := b\<rparr>) = raft_buffers r"
  "raft_buffers (r\<lparr>rf_next_index := xs, rf_match_index := ys\<rparr>) = raft_buffers r"
  "raft_buffers (r\<lparr>rf_current_term := t, rf_leader := l, rf_voted_for := v, rf_is_leader := b1, rf_is_follower := b2,
     rf_is_candidate := b3\<rparr>) = raft_buffers r"
  by (simp_all add: raft_buffers_def)

abbreviation raft_keeps :: "(raft_ctx \<Rightarrow> raft_ctx res) \<Rightarrow> bool" where
  "raft_keeps \<equiv> keeps raft_buffers"

lemma keeps_raft [typing]: "(\<And>r. raft_buffers r \<Longrightarrow> raft_buffers (f r)) \<Longrightarrow> raft_keeps (st_raft f)"
  by (simp add: keeps_def typed_def st_raft_def)

lemma keeps_log [typing]: "raft_keeps (st_log f)"
  by (auto simp: keeps_def typed_def st_log_def Let_def res_simps res_all_bind res_all_def split: sum.split)

lemma keeps_on [typing]: "raft_keeps f \<Longrightarrow> raft_keeps (on b f)"
proof (cases b)
  case Buf
  assume f: "raft_keeps f"
  show ?thesis
  proof (rule keepsI)
    fix c :: raft_ctx
    assume c: "typed raft_buffers c"
    then have "typed raft_buffers (c\<lparr>cx_msg := rf_buf (cx_rep c)\<rparr>)" by (simp add: typed_def raft_buffers_def)
    from keepsD [OF f this] c show "res_all (typed raft_buffers) (on b f c)"
      by (cases "f (c\<lparr>cx_msg := rf_buf (cx_rep c)\<rparr>)") (simp_all add: Buf on_def typed_def raft_buffers_def)
  qed
qed (simp add: on_def keeps_def)

lemma keeps_term [typing]: "raft_keeps (st_term t i)"
  by (simp add: keeps_def typed_def st_term_def hdr)

lemma keeps_execute [typing]: "raft_keeps (execute_raft p)"
  by (auto simp: keeps_def typed_def execute_raft_def st_act_def split: option.split)

lemma keeps_update [typing]: "raft_keeps (update_state t l)"
  unfolding update_state_def by (rule typing) simp

lemma keeps_commit_index [typing]: "raft_keeps update_commit_index_leader"
  by (auto simp: keeps_def typed_def update_commit_index_leader_def Let_def res_simps res_all_bind res_all_def split: sum.split)

lemma take_from_typed:
  "take_from d ms = Some (m, rest) \<Longrightarrow> list_all (\<lambda>(d, m). wf_msg m) ms \<Longrightarrow>
   wf_msg m \<and> list_all (\<lambda>(d, m). wf_msg m) rest"
  by (induction d ms arbitrary: rest rule: take_from.induct) (auto split: if_splits)

lemma keeps_recv [typing]: "raft_keeps (recv_buf d)"
  by (auto simp: keeps_def typed_def recv_buf_def raft_buffers_def split: option.split dest: take_from_typed)

lemma apply_entry_typed: "raft_keeps apply_entry"
proof (rule keepsI)
  fix c :: raft_ctx
  assume c: "typed raft_buffers c"
  have "res_all (typed raft_buffers) (execute_raft p c)" if "typed raft_buffers c" for p c
    using keepsD [OF keeps_execute that] .
  moreover have "res_all (typed raft_buffers) (st_raft (\<lambda>r. r\<lparr>rf_applied := rf_applied r + 1\<rparr>) c)"
    by (rule keepsD [OF keeps_raft c]) simp
  ultimately show "res_all (typed raft_buffers) (apply_entry c)"
    unfolding apply_entry_def
    by (elim typed_bind) (rule any_bind, rule any_bind, rule typed_bind, assumption, intro typing typed_rules, assumption)
qed

lemma keeps_applied [typing]: "raft_keeps update_applied_entries"
proof (rule keepsI)
  fix c :: raft_ctx
  assume "typed raft_buffers c"
  moreover have "raft_keeps (apply_entries n)" for n
  proof (induction n)
    case 0
    then show ?case by (simp add: keeps_def)
  next
    case (Suc n)
    show ?case by (rule keepsI) (auto intro!: keeps_bind keepsD [OF apply_entry_typed] Suc)
  qed
  ultimately show "res_all (typed raft_buffers) (update_applied_entries c)"
    unfolding update_applied_entries_def by (auto dest: keepsD)
qed

lemma raft_binds:
  "(\<And>x. res_all P (f x)) \<Longrightarrow> res_all P (bindr (r :: u64 res) f)"
  "(\<And>x. res_all P (g x)) \<Longrightarrow> res_all P (bindr (p :: nat option res) g)"
  "(\<And>x. res_all P (h x)) \<Longrightarrow> res_all P (bindr (e :: log_entry res) h)"
  "(\<And>x. res_all P (l x)) \<Longrightarrow> res_all P (bindr (xs :: u64 list res) l)"
  by (rule any_bind; simp)+

lemmas raft_results = keeps_raft [THEN keepsD] keeps_log [THEN keepsD] keeps_on [THEN keepsD] keeps_update [THEN keepsD]
  keeps_applied [THEN keepsD]

lemma raft_request_typed:
  assumes "raft_keeps handler"
  shows "raft_keeps (handle_request_raft handler b)"
proof (rule keepsI)
  fix c :: raft_ctx
  assume c: "typed raft_buffers c"
  have send: "raft_keeps (send_append b i)" for i
    unfolding send_append_def Let_def by (rule keepsI) (intro typing typed_rules raft_results)
  have recv: "raft_keeps (recv_append handler i)" for i
    unfolding recv_append_def Let_def
    by (rule keepsI) (intro value_binds typed_rules keeps_recv [THEN keepsD] assms)
  have tail: "raft_keeps (do_all [on b (st_tag RAFT_APP),
            foldr_res (send_append b) [0..<n], foldr_res (recv_append handler) [0..<n],
            st_raft (\<lambda>r. r\<lparr>rf_previous_term := rf_current_term r\<rparr>)])" for n
    by (intro typing typed_rules keeps_loop send recv) simp
  have log: "res_all (typed raft_buffers) (st_log f c)" if "typed raft_buffers c" for f c
    using keepsD [OF keeps_log that] .
  have "res_all (typed raft_buffers) (st_raft (\<lambda>r. r\<lparr>rf_last_log := rf_last_log r + 1\<rparr>) c)"
    by (rule raft_results) (use c in simp_all)
  then show "res_all (typed raft_buffers) (handle_request_raft handler b c)"
    unfolding handle_request_raft_def Let_def
    using c by (auto intro!: typed_bind [where Q = raft_buffers] log keepsD [OF tail] raft_results typing simp del: do_all_Cons)
qed

lemma raft_empty_typed: "raft_keeps (handle_empty_append b)"
  unfolding handle_empty_append_def by (rule keepsI) (intro raft_binds typing typed_rules raft_results; simp)

lemma raft_answer_typed [typing]: "raft_keeps (answer_append b l i ok)"
  unfolding answer_append_def Let_def by (rule keepsI) (intro typing typed_rules raft_results)

lemma keeps_append_new [typing]: "raft_keeps (append_new b trm prev commit leader)"
  unfolding append_new_def Let_def by (rule keepsI) (intro typing typed_rules raft_results; simp)

lemma raft_append_typed: "raft_keeps (handle_append b)"
proof (rule keepsI)
  fix c :: raft_ctx
  assume c: "typed raft_buffers c"
  have follower: "res_all (typed raft_buffers)
      (bindr (on b (st_tag RAFT_APPR) c) (\<lambda>c.
         if trm < rf_current_term (cx_rep c) then answer_append b leader prev False c
         else bindr (contains prev c) (\<lambda>p. if p = None then answer_append b leader prev False c
           else bindr (contains (prev + 1) c) (\<lambda>p'. do_all [st_when (p' \<noteq> None) (st_log f),
             append_new b trm prev commit leader, update_applied_entries] c))))"
    if "typed raft_buffers c" for c trm prev leader commit f
  proof (rule typed_bind)
    show "res_all (typed raft_buffers) (on b (st_tag RAFT_APPR) c)" using that by (intro typing raft_results)
  next
    fix c :: raft_ctx
    assume "typed raft_buffers c"
    then show "res_all (typed raft_buffers) (if trm < rf_current_term (cx_rep c) then answer_append b leader prev False c
         else bindr (contains prev c) (\<lambda>p. if p = None then answer_append b leader prev False c
           else bindr (contains (prev + 1) c) (\<lambda>p'. do_all [st_when (p' \<noteq> None) (st_log f),
             append_new b trm prev commit leader, update_applied_entries] c)))"
      by (intro typed_rules raft_binds raft_answer_typed [THEN keepsD] typing)
  qed
  have rest: "res_all (typed raft_buffers)
      (do_all [st_print ''Leader should not receive appendEntry requests'', update_applied_entries] c)"
    if "typed raft_buffers c" for c
    using that by (intro typing typed_rules)
  have "res_all (typed raft_buffers) (st_raft (\<lambda>r. r\<lparr>rf_election_timeout := False\<rparr>) c)"
    by (rule raft_results) (use c in simp_all)
  then show "res_all (typed raft_buffers) (handle_append b c)"
    unfolding handle_append_def Let_def
    by (rule typed_bind) (rule raft_binds, rule raft_binds, rule raft_binds,
      rule typed_bind, rule raft_results(4), assumption, intro typed_if follower rest)
qed

lemma raft_resend_typed [typing]: "raft_keeps (resend_entry b rid i ele)"
proof (rule keepsI)
  fix c :: raft_ctx
  assume c: "typed raft_buffers c"
  have loop: "raft_keeps (foldr_res (\<lambda>j c. bindr (rd xs j) (\<lambda>v. st_data (4 + j) v c)) js)" for xs js
    by (intro keeps_loop keepsI value_binds typed_rules)
  have send: "res_all (typed raft_buffers) (on b (do_all [st_data 2 x, st_data 3 y,
      foldr_res (\<lambda>j c. bindr (rd xs j) (\<lambda>v. st_data (4 + j) v c)) [0..<3], st_send_at ds d]) c)"
    if "typed raft_buffers c" for c x y xs ds d
    using that by (intro raft_results typing typed_rules loop)
  have "res_all (typed raft_buffers) (do_all [st_print x, st_print y, on b (do_all [st_tag RAFT_APP, st_term t l])] c)" for x y t l
    using c by (intro raft_results typing typed_rules)
  then show "res_all (typed raft_buffers) (resend_entry b rid i ele c)"
    unfolding resend_entry_def Let_def
    by (rule typed_bind) (auto intro!: raft_binds send)
qed

lemma raft_response_typed: "raft_keeps (handle_append_response b)"
proof (rule keepsI)
  fix c :: raft_ctx
  assume c: "typed raft_buffers c"
  have log: "res_all (typed raft_buffers) (do_all [st_log f, update_commit_index_leader] c)" if "typed raft_buffers c" for f c
    using that by (intro typing typed_rules)
  have last: "res_all (typed raft_buffers) (do_all [st_when q (resend_entry b rid i ele), update_applied_entries] c)"
    if "typed raft_buffers c" for q rid i ele c
    using that by (intro typing typed_rules)
  have set: "res_all (typed raft_buffers) (st_raft (\<lambda>r. r\<lparr>rf_next_index := ni, rf_match_index := mi\<rparr>) c)"
    if "typed raft_buffers c" for ni mi c
    by (rule raft_results) (use that in simp_all)
  show "res_all (typed raft_buffers) (handle_append_response b c)"
    unfolding handle_append_response_def Let_def
    by (rule raft_binds, rule raft_binds, rule raft_binds, rule raft_binds, rule typed_bind, rule raft_results(4), rule c)
      (auto intro!: raft_binds value_binds typed_bind [where Q = raft_buffers] log last set simp del: do_all_Cons)
qed

lemma raft_dispatch_typed:
  assumes "raft_keeps handler"
  shows "raft_keeps (dispatch_raft handler b)"
proof (rule keepsI)
  fix c :: raft_ctx
  assume c: "typed raft_buffers c"
  then show "res_all (typed raft_buffers) (dispatch_raft handler b c)"
    unfolding dispatch_raft_def handle_setup_raft_def handle_vote_def handle_vote_response_def Let_def
    by (intro typing typed_rules raft_results raft_request_typed [OF assms, THEN keepsD] raft_append_typed [THEN keepsD]
        raft_empty_typed [THEN keepsD] raft_response_typed [THEN keepsD])
qed

lemma raft_typed: "raft_keeps (message_handler_raft n b)"
proof (induction n arbitrary: b)
  case 0
  have "message_handler_raft 0 b = dispatch_raft (\<lambda>c. Inl Blocked) b" by (rule ext) simp
  then show ?case using raft_dispatch_typed [of "\<lambda>c. Inl Blocked" b] by (simp add: keeps_def)
next
  case (Suc n)
  have "message_handler_raft (Suc n) b = dispatch_raft (message_handler_raft n Buf) b" by (rule ext) simp
  then show ?case using raft_dispatch_typed [OF Suc.IH] by simp
qed

lemma raft_message_typed: "raft_keeps handle_message_raft"
  unfolding handle_message_raft_def by (rule keepsI) (rule raft_typed [THEN keepsD])

subsection \<open>Property\<close>

text \<open>
  Every message stays a message: in all five protocols and both builds, a handler that gets
  a buffer of seven words, and Raft's handler also with seven words in its second buffer and in
  every message its blocking receives may take, leaves seven words in its buffers, and every
  message it sends, broadcasts, contributes to a reduction or forwards to the core level has
  seven words, which is what \<^verbatim>\<open>smlt_message_alloc(56)\<close> gives room for.
\<close>

theorem handlers_keep_message_type:
  "keeps no_buffers message_handler_chain \<and> keeps no_buffers (message_handler_broadcast smlt) \<and>
   keeps no_buffers (message_handler_tpc smlt) \<and> keeps no_buffers (message_handler_onepaxos smlt kvs) \<and>
   keeps raft_buffers handle_message_raft"
  using chain_typed broadcast_typed tpc_typed one_typed raft_message_typed by blast

end
