(* ===== verification/One_Net.thy ===== *)
theory One_Net
  imports Onepaxos Progress Typing
begin

text \<open>
  A system of 1Paxos replicas in the normal case: clients only send what the client library
  sends, set-up messages and requests, so no replica ever starts a change of leader or
  acceptor. One replica accepts, the others learn; a learner executes what it learns unless its
  own table of request ids calls it a repetition, so what it will execute depends on its
  table and on the learn messages on their way to it.
\<close>

subsection \<open>The system\<close>

text \<open>The leader and the acceptor, which the build with Smelt's broadcast swaps.\<close>

definition acc :: "bool \<Rightarrow> nat" where "acc smlt = (if smlt then 0 else 1)"
definition ldr :: "bool \<Rightarrow> nat" where "ldr smlt = (if smlt then 1 else 0)"

definition one_init :: "bool \<Rightarrow> conf \<Rightarrow> bool list \<Rightarrow> u64 \<Rightarrow> nat \<Rightarrow> (one_replica \<times> com_thread \<times> start list \<times> bool) res" where
  "one_init smlt C dead tsc i = init_replica_onepaxos smlt (of_nat i) (cf_cores C ! i) (of_nat (length (cf_clients C)))
     (of_nat (length (cf_cores C))) NODE_LEVEL (cf_below C) (cf_node_size C) 0 (cf_node_cores C i)
     (cf_clients C) (cf_cores C) (cf_exec C) dead tsc zero_onepaxos replica_thread"

text \<open>\<open>mem i\<close> is what replica \<open>i\<close> finds in the memory from \<^verbatim>\<open>malloc\<close> and as time stamp: anything.\<close>

definition one_start :: "bool \<Rightarrow> conf \<Rightarrow> (nat \<Rightarrow> bool list \<times> u64) \<Rightarrow> nat \<Rightarrow> one_ctx \<Rightarrow> bool" where
  "one_start smlt C mem i c = (case one_init smlt C (fst (mem i)) (snd (mem i)) i of Inl _ \<Rightarrow> False
     | Inr (r, t, _) \<Rightarrow> cx_rep c = r \<and> cx_com c = ct_core t)"

text \<open>
  What the loops do with a message: a learner may answer its client itself. The leader polls any
  core but its own (with Smelt's broadcast also those that uninitialised memory names), the
  acceptor the leader, a learner the acceptor or, with Smelt's broadcast, the tree of which the
  acceptor is the root; a replica decides which of them it is once, when its loop starts.
\<close>

definition one_body :: "bool \<Rightarrow> bool \<Rightarrow> one_ctx \<Rightarrow> one_ctx res" where
  "one_body smlt kvs c = (let r = cx_rep c in bindr (message_handler_onepaxos smlt kvs c)
     (st_when ((smlt \<or> kvs) \<and> unat (r_id r) \<noteq> ldr smlt \<and> unat (r_id r) \<noteq> acc smlt) answer_own))"

definition one_loop :: "bool \<Rightarrow> bool \<Rightarrow> conf \<Rightarrow> one_replica proto" where
  "one_loop smlt kvs C = \<lparr>p_handler = \<lambda>c. delivered C (one_body smlt kvs c),
     p_polls = (\<lambda>i q. if i = ldr smlt then q \<noteq> core_of C (ldr smlt)
                      else if i = acc smlt then q = core_of C (ldr smlt) else q = core_of C (acc smlt)),
     p_start = (\<lambda>_ _. True)\<rparr>"

definition one_proto :: "bool \<Rightarrow> bool \<Rightarrow> conf \<Rightarrow> (nat \<Rightarrow> bool list \<times> u64) \<Rightarrow> one_replica proto" where
  "one_proto smlt kvs C mem = (one_loop smlt kvs C)\<lparr>p_start := one_start smlt C mem\<rparr>"

lemmas one_proto_defs = one_proto_def one_loop_def

fun ordinary :: "choice \<Rightarrow> bool" where
  "ordinary (Client_send q d m) \<longleftrightarrow> msg_tag m = SETUP_TAG \<or> msg_tag m = REQ_TAG"
| "ordinary ch \<longleftrightarrow> True"

definition one_local :: "bool \<Rightarrow> conf \<Rightarrow> nat \<Rightarrow> one_ctx \<Rightarrow> bool" where
  "one_local smlt C i c \<longleftrightarrow> (let r = cx_rep c in
     unat (r_id r) = i \<and> r_replicas r = cf_cores C \<and> r_clients r = cf_clients C \<and>
     unat (r_num_replicas r) = length (cf_cores C) \<and> unat (r_num_clients r) = length (cf_clients C) \<and> r_level r = NODE_LEVEL \<and>
     r_exec r = Some (choose_exec (cf_exec C)) \<and> unat (o_leader r) = ldr smlt \<and> unat (o_acceptor r) = acc smlt \<and> o_highest r = 0)"

subsection \<open>What a replica's table of request ids selects\<close>

fun replay :: "u64 list \<Rightarrow> msg list \<Rightarrow> u64 list list \<times> u64 list" where
  "replay lr [] = ([], lr)"
| "replay lr (m # ms) =
     (if repetitive (lr ! unat (msg_cid m)) (msg_rid m) then replay lr ms
      else (case replay (lr[unat (msg_cid m) := ucast (msg_rid m)]) ms of (ps, lr) \<Rightarrow> (payload m # ps, lr)))"

lemma replay_append:
  "replay lr (ms @ ns) = (case replay lr ms of (ps, lr) \<Rightarrow> case replay lr ns of (qs, lr) \<Rightarrow> (ps @ qs, lr))"
  by (induction lr ms rule: replay.induct) (auto split: prod.split)

text \<open>It only looks at the header ids and the command.\<close>

lemma replay_one_cong:
  "msg_cid m' = msg_cid m \<Longrightarrow> msg_rid m' = msg_rid m \<Longrightarrow> payload m' = payload m \<Longrightarrow> replay lr [m'] = replay lr [m]"
  by simp

definition learns :: "msg list \<Rightarrow> msg list" where
  "learns ms = filter (\<lambda>m. msg_tag m = ONE_LEARN) ms"

lemma learns_simps [simp]:
  "learns [] = []" "learns (m # ms) = (if msg_tag m = ONE_LEARN then m # learns ms else learns ms)"
  "learns (ms @ ns) = learns ms @ learns ns"
  by (simp_all add: learns_def)

subsection \<open>What the handlers do\<close>

lemma execute_Inr:
  assumes "execute_onepaxos c = Inr (c', ok)"
  shows "\<exists>lr es. c' = c\<lparr>cx_acts := cx_acts c @ es, cx_rep := (cx_rep c)\<lparr>o_last_rid := lr\<rparr>\<rparr> \<and>
    replay (o_last_rid (cx_rep c)) [cx_msg c] = (execs es, lr) \<and> set (execs es) \<subseteq> {payload (cx_msg c)} \<and>
    (\<forall>d. sends_to d es = []) \<and> (\<forall>m. Bcast m \<notin> set es)"
proof (cases "repetitive (o_last_rid (cx_rep c) ! unat (msg_cid (cx_msg c))) (msg_rid (cx_msg c))")
  case True
  with assms show ?thesis
    by (intro exI [of _ "o_last_rid (cx_rep c)"] exI [of _ "[]"]) (auto simp: execute_onepaxos_def Let_def res_simps)
next
  case False
  with assms obtain f lr where "c' = c\<lparr>cx_acts := cx_acts c @ [Exec f (payload (cx_msg c))], cx_rep := (cx_rep c)\<lparr>o_last_rid := lr\<rparr>\<rparr>"
    "lr = (o_last_rid (cx_rep c))[unat (msg_cid (cx_msg c)) := ucast (msg_rid (cx_msg c))]"
    by (auto simp: execute_onepaxos_def Let_def res_simps stmts split: option.splits)
  with False show ?thesis
    by (intro exI [of _ lr] exI [of _ "[Exec f (payload (cx_msg c))]"]) auto
qed

lemma advance_Inr:
  "advance_index c = Inr c' \<Longrightarrow> \<exists>i. c' = c\<lparr>cx_rep := (cx_rep c)\<lparr>o_index := i\<rparr>\<rparr>"
  by (auto simp: advance_index_def data_def res_simps Let_def)

lemma trim_Inr:
  assumes "trim_queue c = Inr c'"
  shows "\<exists>q h. c' = c\<lparr>cx_rep := (cx_rep c)\<lparr>o_queue := q, o_heap := h\<rparr>\<rparr>"
proof (cases "eq_size (o_queue (cx_rep c)) > (o_proposal_index (cx_rep c) - o_index (cx_rep c)) + 1")
  case True
  with assms show ?thesis by (auto simp: trim_queue_def Let_def st_when_def drop_entry_def res_simps)
next
  case False
  then have "c' = c" using assms by (simp add: trim_queue_def Let_def st_when_def)
  then show ?thesis by (intro exI [of _ "o_queue (cx_rep c)"] exI [of _ "o_heap (cx_rep c)"]) simp
qed

lemma reply_Inr:
  assumes "reply_onepaxos kvs c = Inr c'" and "r_level (cx_rep c) = NODE_LEVEL"
  shows "\<exists>d. cx_rep c' = cx_rep c \<and>
    cx_acts c' = cx_acts c @ (if kvs then [] else [Send d (put_tag 0 RESP_TAG (cx_msg c))])"
  using assms by (cases kvs) (auto simp: reply_onepaxos_def Let_def stmts st_when_def res_simps)

text \<open>The fields that \<open>one_local\<close> is about.\<close>

lemma one_local_fields [simp]:
  "one_local smlt C i (c\<lparr>cx_msg := m\<rparr>) = one_local smlt C i c" "one_local smlt C i (c\<lparr>cx_acts := as\<rparr>) = one_local smlt C i c"
  "one_local smlt C i (c\<lparr>cx_com := k\<rparr>) = one_local smlt C i c" "one_local smlt C i (c\<lparr>cx_meas := z\<rparr>) = one_local smlt C i c"
  "one_local smlt C i (c\<lparr>cx_rep := (cx_rep c)\<lparr>o_last_rid := lr\<rparr>\<rparr>) = one_local smlt C i c"
  "one_local smlt C i (c\<lparr>cx_rep := (cx_rep c)\<lparr>o_index := n\<rparr>\<rparr>) = one_local smlt C i c"
  "one_local smlt C i (c\<lparr>cx_rep := (cx_rep c)\<lparr>o_queue := q, o_heap := h\<rparr>\<rparr>) = one_local smlt C i c"
  "one_local smlt C i (c\<lparr>cx_rep := (cx_rep c)\<lparr>o_voted := a, o_change := b\<rparr>\<rparr>) = one_local smlt C i c"
  "one_local smlt C i (c\<lparr>cx_rep := (cx_rep c)\<lparr>o_last_entry := e\<rparr>\<rparr>) = one_local smlt C i c"
  "one_local smlt C i (c\<lparr>cx_rep := (cx_rep c)\<lparr>o_proposal_index := n\<rparr>\<rparr>) = one_local smlt C i c"
  by (simp_all add: one_local_def Let_def)

lemma one_local_rep: "one_local smlt C i c \<Longrightarrow> cx_rep c' = cx_rep c \<Longrightarrow> one_local smlt C i c'"
  by (simp add: one_local_def)

lemma one_request_Inr:
  assumes "handle_request_onepaxos c = Inr c'" and "one_local smlt C i c"
  shows "one_local smlt C i c' \<and> o_last_rid (cx_rep c') = o_last_rid (cx_rep c) \<and>
    (if i = ldr smlt then cx_acts c' = cx_acts c @ [Send (core_of C (acc smlt)) (put_tag 0 ONE_ACC (cx_msg c))]
     else \<exists>s d. cx_acts c' = cx_acts c @ [Print s, Send d (cx_msg c)])"
proof -
  have l: "r_id (cx_rep c) = o_leader (cx_rep c) \<longleftrightarrow> i = ldr smlt" "r_replicas (cx_rep c) = cf_cores C"
    "unat (o_acceptor (cx_rep c)) = acc smlt"
    using assms(2) unfolding one_local_def Let_def by (metis word_unat_eq_iff, simp_all)
  show ?thesis
  proof (cases "i = ldr smlt")
    case True
    have loc: "unat (r_id (cx_rep c)) = i" "r_clients (cx_rep c) = cf_clients C"
     "unat (r_num_replicas (cx_rep c)) = length (cf_cores C)" "r_level (cx_rep c) = NODE_LEVEL"
     "r_exec (cx_rep c) = Some (choose_exec (cf_exec C))" "o_highest (cx_rep c) = 0"
     "unat (o_leader (cx_rep c)) = ldr smlt" "unat (r_num_clients (cx_rep c)) = length (cf_clients C)"
      using assms(2) by (simp_all add: one_local_def Let_def)
    with True l assms(1) show ?thesis
      by (auto simp: handle_request_onepaxos_def Let_def stmts st_rep_def res_simps enqueue_msg_def core_of_def one_local_def
          split: prod.splits)
  next
    case False
    with l assms show ?thesis
      by (auto simp: handle_request_onepaxos_def Let_def stmts res_simps)
  qed
qed

text \<open>The parts of handling a learn or an accept message that both have.\<close>

lemma one_executes_Inr:
  assumes "bindr (execute_onepaxos c) (\<lambda>(c, ok). do_all [st_when b st_core, advance_index] c) = Inr c'"
    and "one_local smlt C i c"
  shows "one_local smlt C i c' \<and> payload (cx_msg c') = payload (cx_msg c) \<and> wf_msg (cx_msg c') = wf_msg (cx_msg c) \<and>
    (\<exists>es as. cx_acts c' = cx_acts c @ es @ as \<and> silent as \<and>
      replay (o_last_rid (cx_rep c)) [cx_msg c] = (execs es, o_last_rid (cx_rep c')) \<and>
      set (execs es) \<subseteq> {payload (cx_msg c)} \<and> (\<forall>d. sends_to d es = []) \<and> (\<forall>m. Bcast m \<notin> set es))"
proof -
  obtain c1 ok c2 where c1: "execute_onepaxos c = Inr (c1, ok)" and c2: "st_when b st_core c1 = Inr c2"
    and c': "advance_index c2 = Inr c'"
    using assms(1) by (auto simp: res_simps do_all_one)
  obtain lr es where e: "c1 = c\<lparr>cx_acts := cx_acts c @ es, cx_rep := (cx_rep c)\<lparr>o_last_rid := lr\<rparr>\<rparr>"
    "replay (o_last_rid (cx_rep c)) [cx_msg c] = (execs es, lr)" "set (execs es) \<subseteq> {payload (cx_msg c)}"
    "\<forall>d. sends_to d es = []" "\<forall>m. Bcast m \<notin> set es"
    using execute_Inr [OF c1] by blast
  obtain com m as where b: "silent as" "payload m = payload (cx_msg c1)" "wf_msg m = wf_msg (cx_msg c1)"
    "c2 = c1\<lparr>cx_com := com, cx_msg := m, cx_acts := cx_acts c1 @ as\<rparr>"
    using st_below_Inr [OF c2] by blast
  obtain n where n: "c' = c2\<lparr>cx_rep := (cx_rep c2)\<lparr>o_index := n\<rparr>\<rparr>" using advance_Inr [OF c'] by blast
  have "one_local smlt C i c1" using one_local_fields(5) [where c = "c\<lparr>cx_acts := cx_acts c @ es\<rparr>" and lr = lr] assms(2) by (simp add: e(1))
  then have "one_local smlt C i c2" by (simp add: b(4))
  then have "one_local smlt C i c'" unfolding n by simp
  moreover have "cx_acts c' = cx_acts c @ es @ as" "o_last_rid (cx_rep c') = lr"
    "payload (cx_msg c') = payload (cx_msg c)" "wf_msg (cx_msg c') = wf_msg (cx_msg c)"
    using b(2,3) by (simp_all add: n b(4) e(1))
  ultimately show ?thesis using e(2-5) b(1) by blast
qed

text \<open>The learn messages, as sends or as a broadcast.\<close>

definition learn_sends :: "bool \<Rightarrow> conf \<Rightarrow> msg \<Rightarrow> action list" where
  "learn_sends smlt C x = (if smlt then [Bcast x]
     else map (\<lambda>j. Send (core_of C j) x) (filter (\<lambda>j. j \<noteq> 1) [0..<length (cf_cores C)]))"

lemma one_accept_Inr:
  assumes "handle_accept_onepaxos smlt c = Inr c'" and loc: "one_local smlt C i c" and wf: "wf_msg (cx_msg c)"
  shows "one_local smlt C i c' \<and> (\<exists>x es as. cx_acts c' = cx_acts c @ learn_sends smlt C x @ es @ as \<and>
    wf_msg x \<and> msg_tag x = ONE_LEARN \<and> msg_cid x = msg_cid (cx_msg c) \<and> msg_rid x = msg_rid (cx_msg c) \<and>
    payload x = payload (cx_msg c) \<and> silent as \<and>
    replay (o_last_rid (cx_rep c)) [cx_msg c] = (execs es, o_last_rid (cx_rep c')) \<and>
    set (execs es) \<subseteq> {payload (cx_msg c)} \<and> (\<forall>d. sends_to d es = []) \<and> (\<forall>m. Bcast m \<notin> set es))"
proof -
  let ?x = "learn_of (o_index (cx_rep c)) (cx_msg c)"
  let ?c = "c\<lparr>cx_rep := (cx_rep c)\<lparr>o_last_entry := Loop_msg\<rparr>, cx_msg := ?x, cx_acts := cx_acts c @ learn_sends smlt C ?x\<rparr>"
  have l: "r_replicas (cx_rep c) = cf_cores C" "o_highest (cx_rep c) = 0"
    "unat (r_num_replicas (cx_rep c)) = length (cf_cores C)"
    using loc by (simp_all add: one_local_def Let_def)
  then have n: "unat (r_num_replicas (cx_rep c)) \<le> length (r_replicas (cx_rep c))" by simp
  note lf = learn_of_facts [where i = "o_index (cx_rep c)", OF wf]
  have two: "1 < length (put_tag 0 ONE_LEARN (cx_msg c))" using wf by (simp add: wf_msg_def put_tag_def)
  have "handle_accept_onepaxos smlt c = do_all [st_execute, st_when (r_alg_below (cx_rep c) \<noteq> ALG_NONE) st_core, advance_index] ?c"
    using wf two l by (cases smlt) (simp_all add: handle_accept_onepaxos_def Let_def data_def st_rep_def stmts
        send_learn_eq n learn_of_def core_of_def learn_sends_def)
  also have "\<dots> = bindr (execute_onepaxos ?c)
      (\<lambda>(c, ok). do_all [st_when (r_alg_below (cx_rep ?c) \<noteq> ALG_NONE) st_core, advance_index] c)"
    by (simp add: st_execute_def bindr_assoc split_def)
  finally have run: "bindr (execute_onepaxos ?c)
      (\<lambda>(c, ok). do_all [st_when (r_alg_below (cx_rep ?c) \<noteq> ALG_NONE) st_core, advance_index] c) = Inr c'"
    using assms(1) by simp
  have "one_local smlt C i ?c" using one_local_fields(9) [where c = c and e = Loop_msg] loc by simp
  from one_executes_Inr [OF run this] obtain es as where r: "one_local smlt C i c'" "cx_acts c' = cx_acts ?c @ es @ as"
    "silent as" "replay (o_last_rid (cx_rep c)) [?x] = (execs es, o_last_rid (cx_rep c'))"
    "set (execs es) \<subseteq> {payload ?x}" "\<forall>d. sends_to d es = []" "\<forall>m. Bcast m \<notin> set es"
    by auto
  have "replay (o_last_rid (cx_rep c)) [cx_msg c] = (execs es, o_last_rid (cx_rep c'))"
    using r(4) replay_one_cong [of ?x "cx_msg c"] lf by (simp only:)
  with r lf show ?thesis
    by (intro conjI exI [of _ ?x] exI [of _ es] exI [of _ as]) auto
qed

lemma one_learn_Inr:
  assumes "handle_learn_onepaxos kvs c = Inr c'" and loc: "one_local smlt C i c" and wf: "wf_msg (cx_msg c)"
  shows "one_local smlt C i c' \<and> (\<exists>es as. cx_acts c' = cx_acts c @ es @ as \<and> execs as = [] \<and>
    replay (o_last_rid (cx_rep c)) [cx_msg c] = (execs es, o_last_rid (cx_rep c')) \<and>
    set (execs es) \<subseteq> {payload (cx_msg c)} \<and> (\<forall>d. sends_to d es = []) \<and> (\<forall>m. Bcast m \<notin> set (es @ as)) \<and>
    (\<forall>d. \<forall>x \<in> set (sends_to d as). msg_tag x = RESP_TAG \<and> wf_msg x))"
proof -
  let ?c = "c\<lparr>cx_meas := (cx_meas c)\<lparr>m_timer_started := True\<rparr>, cx_rep := (cx_rep c)\<lparr>o_voted := False, o_change := False\<rparr>\<rparr>"
  obtain c1 ok c2 where c1: "execute_onepaxos ?c = Inr (c1, ok)"
    and c2: "do_all [st_when (r_alg_below (cx_rep c1) \<noteq> ALG_NONE) st_core, advance_index] c1 = Inr c2"
    and c': "(if r_id (cx_rep c2) = o_leader (cx_rep c2)
       then do_all [trim_queue, st_when ok (reply_onepaxos kvs)] c2 else Inr c2) = Inr c'"
    using assms(1) by (auto simp: handle_learn_onepaxos_def res_simps stmts st_rep_def)
  have "bindr (execute_onepaxos ?c)
      (\<lambda>(c, ok). do_all [st_when (r_alg_below (cx_rep c1) \<noteq> ALG_NONE) st_core, advance_index] c) = Inr c2"
    using c1 c2 by simp
  moreover have "one_local smlt C i ?c" using one_local_fields(8) [where c = "c\<lparr>cx_meas := (cx_meas c)\<lparr>m_timer_started := True\<rparr>\<rparr>"] loc by simp
  ultimately obtain es as where r: "one_local smlt C i c2" "cx_acts c2 = cx_acts c @ es @ as"
    "silent as" "replay (o_last_rid (cx_rep c)) [cx_msg c] = (execs es, o_last_rid (cx_rep c2))"
    "set (execs es) \<subseteq> {payload (cx_msg c)}" "\<forall>d. sends_to d es = []"
    "payload (cx_msg c2) = payload (cx_msg c)" "wf_msg (cx_msg c2) = wf_msg (cx_msg c)" "\<forall>m. Bcast m \<notin> set es"
    using one_executes_Inr [of ?c "r_alg_below (cx_rep c1) \<noteq> ALG_NONE" c2 smlt C i] by auto
  show ?thesis
  proof (cases "r_id (cx_rep c2) = o_leader (cx_rep c2)")
    case False
    then have "c' = c2" using c' by simp
    with r show ?thesis by (intro conjI exI [of _ es] exI [of _ as]) auto
  next
    case True
    then obtain c3 where c3: "trim_queue c2 = Inr c3" and rep: "st_when ok (reply_onepaxos kvs) c3 = Inr c'"
      using c' by (auto simp: res_simps do_all_one)
    obtain q h where q: "c3 = c2\<lparr>cx_rep := (cx_rep c2)\<lparr>o_queue := q, o_heap := h\<rparr>\<rparr>" using trim_Inr [OF c3] by blast
    have loc3: "one_local smlt C i c3" using r(1) unfolding q by simp
    show ?thesis
    proof (cases ok)
      case False
      then have "c' = c3" using rep by (simp add: st_when_def)
      with r loc3 show ?thesis by (intro conjI exI [of _ es] exI [of _ as]) (auto simp: q)
    next
      case True
      have "r_level (cx_rep c3) = NODE_LEVEL" using loc3 by (simp add: one_local_def Let_def)
      then obtain d where d: "cx_rep c' = cx_rep c3" "cx_acts c' = cx_acts c3 @ (if kvs then [] else [Send d (put_tag 0 RESP_TAG (cx_msg c3))])"
        using True rep reply_Inr [of kvs c3 c'] by (auto simp: st_when_def)
      let ?as = "as @ (if kvs then [] else [Send d (put_tag 0 RESP_TAG (cx_msg c3))])"
      have "\<forall>d. \<forall>x \<in> set (sends_to d ?as). msg_tag x = RESP_TAG \<and> wf_msg x"
        using r(3,8) wf by (auto simp: q hdr)
      moreover have "one_local smlt C i c'" using one_local_rep [OF loc3 d(1)] .
      ultimately show ?thesis using r(2-6,9) d by (intro conjI exI [of _ es] exI [of _ ?as]) (auto simp: q)
    qed
  qed
qed

text \<open>What a learner's loop adds.\<close>

lemma answer_Inr:
  assumes "st_when b answer_own c = Inr c'" and "wf_msg (cx_msg c)"
  shows "cx_rep c' = cx_rep c \<and> (\<exists>as. cx_acts c' = cx_acts c @ as \<and> execs as = [] \<and> (\<forall>m. Bcast m \<notin> set as) \<and>
    (\<forall>d. \<forall>x \<in> set (sends_to d as). msg_tag x = RESP_TAG \<and> wf_msg x) \<and> (\<not> b \<longrightarrow> as = []))"
proof -
  consider "c' = c" | d where "b" "cx_rep c' = cx_rep c" "cx_acts c' = cx_acts c @ [Send d (put_tag 0 RESP_TAG (cx_msg c))]"
    using assms(1) by (cases b) (auto simp: st_when_def answer_own_def data_def stmts res_simps split: if_splits)
  then show ?thesis
  proof cases
    case 1
    then show ?thesis by simp
  next
    case 2
    with assms(2) show ?thesis by (intro conjI exI [of _ "[Send d (put_tag 0 RESP_TAG (cx_msg c))]"]) (auto simp: hdr)
  qed
qed

subsection \<open>One step of a replica\<close>

text \<open>Messages a replica may send, other than answers to clients.\<close>

definition one_kind :: "bool \<Rightarrow> nat \<Rightarrow> msg \<Rightarrow> bool" where
  "one_kind smlt i m \<longleftrightarrow> msg_tag m = REQ_TAG \<or> (msg_tag m = ONE_ACC \<and> i = ldr smlt) \<or>
     (msg_tag m = ONE_LEARN \<and> i = acc smlt)"

definition answers :: "msg \<Rightarrow> bool" where
  "answers m \<longleftrightarrow> msg_tag m = SETUP_TAG \<or> msg_tag m = RESP_TAG"

definition decided :: "msg \<Rightarrow> msg list" where
  "decided m = (if msg_tag m = ONE_ACC \<or> msg_tag m = ONE_LEARN then [m] else [])"

definition one_does :: "bool \<Rightarrow> conf \<Rightarrow> nat \<Rightarrow> msg \<Rightarrow> one_ctx \<Rightarrow> one_ctx \<Rightarrow> bool" where
  "one_does smlt C i m c c' \<longleftrightarrow> one_local smlt C i c' \<and>
     replay (o_last_rid (cx_rep c)) (decided m) = (execs (cx_acts c'), o_last_rid (cx_rep c')) \<and>
     (\<forall>p \<in> set (execs (cx_acts c')). \<not> answers m \<and> p = payload m) \<and>
     (\<forall>d. \<forall>x \<in> set (sends_to d (cx_acts c')). wf_msg x \<and>
        (answers x \<or> \<not> answers m \<and> payload x = payload m \<and> one_kind smlt i x)) \<and>
     (i = acc smlt \<longrightarrow> (\<forall>j < length (cf_cores C). j \<noteq> acc smlt \<longrightarrow>
        (\<forall>lr. replay lr (learns (sends_to (core_of C j) (cx_acts c'))) = replay lr (decided m))))"

lemma net_tags [simp]:
  "RESP_TAG \<noteq> SETUP_TAG" "RESP_TAG \<noteq> REQ_TAG" "RESP_TAG \<noteq> ONE_ACC" "RESP_TAG \<noteq> ONE_LEARN"
  "ONE_ACC \<noteq> RESP_TAG" "ONE_LEARN \<noteq> RESP_TAG" "SETUP_TAG \<noteq> ONE_ACC" "SETUP_TAG \<noteq> ONE_LEARN"
  "ONE_ACC \<noteq> SETUP_TAG" "ONE_LEARN \<noteq> SETUP_TAG" "REQ_TAG \<noteq> RESP_TAG"
  "REQ_TAG \<noteq> ONE_ACC" "REQ_TAG \<noteq> ONE_LEARN" "REQ_TAG \<noteq> SETUP_TAG" "SETUP_TAG \<noteq> REQ_TAG" "ONE_ACC \<noteq> ONE_LEARN"
  by (simp_all add: algs)

lemma unknown_response: "msg_tag m = RESP_TAG \<Longrightarrow> message_handler_onepaxos smlt kvs (c\<lparr>cx_msg := m, cx_acts := []\<rparr>) =
    Inr (c\<lparr>cx_msg := m, cx_acts := [Print ''unknown message type'']\<rparr>)"
  by (simp add: message_handler_onepaxos_def Let_def stmts algs)

text \<open>Each other replica gets the learn message once.\<close>

lemma learn_spread:
  shows "execs (spread C (learn_sends smlt C x)) = []"
    and "y \<in> set (sends_to d (spread C (learn_sends smlt C x))) \<Longrightarrow> y = x"
    and "conf_wf C \<Longrightarrow> j < length (cf_cores C) \<Longrightarrow> j \<noteq> acc smlt \<Longrightarrow>
      sends_to (core_of C j) (spread C (learn_sends smlt C x)) = [x]"
proof -
  have p2p: "spread C (map (\<lambda>j. Send (core_of C j) x) js) = map (\<lambda>j. Send (core_of C j) x) js" for js
    by (rule spread_none) auto
  show "execs (spread C (learn_sends smlt C x)) = []"
    by (cases smlt) (auto simp: learn_sends_def p2p execs_map_Send)
  show "y \<in> set (sends_to d (spread C (learn_sends smlt C x))) \<Longrightarrow> y = x"
    by (cases smlt) (auto simp: learn_sends_def p2p dest: sends_to_map_in)
  show "sends_to (core_of C j) (spread C (learn_sends smlt C x)) = [x]"
    if "conf_wf C" "j < length (cf_cores C)" "j \<noteq> acc smlt"
  proof (cases smlt)
    case True
    with that show ?thesis using send_each_one [of C j "bcast_order C x" x] by (simp add: learn_sends_def acc_def)
  next
    case False
    with that show ?thesis using one_send_each [of "cf_cores C" "length (cf_cores C)" j x]
      by (simp add: learn_sends_def acc_def p2p [unfolded core_of_def] conf_wf_def core_of_def)
  qed
qed

lemma handler_does:
  assumes C: "conf_wf C" and i: "i < length (cf_cores C)" and loc: "one_local smlt C i c" and wf: "wf_msg m"
    and tag: "msg_tag m = SETUP_TAG \<or> msg_tag m = REQ_TAG \<or> msg_tag m = RESP_TAG \<or>
      (msg_tag m = ONE_ACC \<and> i = acc smlt) \<or> (msg_tag m = ONE_LEARN \<and> i \<noteq> acc smlt)"
    and run: "message_handler_onepaxos smlt kvs (c\<lparr>cx_msg := m, cx_acts := []\<rparr>) = Inr c0"
    and c': "c' = c0\<lparr>cx_acts := spread C (cx_acts c0)\<rparr>"
  shows "one_does smlt C i m c c'"
proof -
  let ?c = "c\<lparr>cx_msg := m, cx_acts := []\<rparr>"
  have loc': "one_local smlt C i ?c" using loc by simp
  from tag show ?thesis
  proof (elim disjE conjE)
    assume t: "msg_tag m = SETUP_TAG"
    then have "handle_setup_onepaxos ?c = Inr c0" using run by (simp add: message_handler_onepaxos_def)
    then obtain x where x: "wf_msg x" "msg_tag x = SETUP_TAG"
      "c0 = ?c\<lparr>cx_msg := x, cx_acts := [Send (unat (msg_cid m)) x]\<rparr>"
      using setup_Inr [of _ _ ?c c0] wf t by (auto simp: handle_setup_onepaxos_def)
    with loc t show ?thesis by (simp add: one_does_def decided_def answers_def c')
  next
    assume t: "msg_tag m = REQ_TAG"
    then have "handle_request_onepaxos ?c = Inr c0" using run by (simp add: message_handler_onepaxos_def)
    from one_request_Inr [OF this loc'] wf t show ?thesis
      by (cases "i = ldr smlt") (auto simp: one_does_def decided_def answers_def one_kind_def hdr c' split: if_splits)
  next
    assume t: "msg_tag m = RESP_TAG"
    then have "c0 = c\<lparr>cx_msg := m, cx_acts := [Print ''unknown message type'']\<rparr>"
      using run by (simp add: unknown_response)
    with loc t show ?thesis by (simp add: one_does_def decided_def c')
  next
    assume t: "msg_tag m = ONE_ACC" and i1: "i = acc smlt"
    then have "handle_accept_onepaxos smlt ?c = Inr c0" using run by (simp add: message_handler_onepaxos_def)
    from one_accept_Inr [OF this loc'] wf obtain x es as where r: "one_local smlt C i c0"
        "cx_acts c0 = learn_sends smlt C x @ es @ as"
        "wf_msg x" "msg_tag x = ONE_LEARN" "msg_cid x = msg_cid m" "msg_rid x = msg_rid m" "payload x = payload m"
        "silent as" "replay (o_last_rid (cx_rep c)) [m] = (execs es, o_last_rid (cx_rep c0))"
        "set (execs es) \<subseteq> {payload m}" "\<forall>d. sends_to d es = []" "\<forall>m. Bcast m \<notin> set es"
      by auto
    have "spread C (es @ as) = es @ as" using r(8,12) by (intro spread_none) auto
    then have a: "cx_acts c' = spread C (learn_sends smlt C x) @ es @ as" by (simp add: c' r(2))
    have sends: "sends_to d (cx_acts c') = sends_to d (spread C (learn_sends smlt C x))" for d
      using r(8,11) by (simp add: a)
    then have "replay lr (learns (sends_to (core_of C j) (cx_acts c'))) = replay lr (decided m)"
      if "j < length (cf_cores C)" "j \<noteq> acc smlt" for j lr
      using learn_spread(3) [OF C that, of x] r(4) t replay_one_cong [OF r(5-7)]
      by (simp add: decided_def del: replay.simps)
    moreover have "execs (cx_acts c') = execs es" using r(8) by (simp add: a learn_spread(1))
    moreover have "\<forall>d. \<forall>y \<in> set (sends_to d (cx_acts c')). y = x" using learn_spread(2) by (metis sends)
    moreover have "one_local smlt C i c'" "o_last_rid (cx_rep c') = o_last_rid (cx_rep c0)" using r(1) by (simp_all add: c')
    ultimately show ?thesis using r(3,4,7,9,10) t i1 unfolding one_does_def decided_def one_kind_def answers_def by auto
  next
    assume t: "msg_tag m = ONE_LEARN" and i1: "i \<noteq> acc smlt"
    then have "handle_learn_onepaxos kvs ?c = Inr c0" using run by (simp add: message_handler_onepaxos_def)
    from one_learn_Inr [OF this loc'] wf obtain es as where r: "one_local smlt C i c0" "cx_acts c0 = es @ as" "execs as = []"
        "replay (o_last_rid (cx_rep c)) [m] = (execs es, o_last_rid (cx_rep c0))"
        "set (execs es) \<subseteq> {payload m}" "\<forall>d. sends_to d es = []" "\<forall>m. Bcast m \<notin> set (es @ as)"
        "\<forall>d. \<forall>x \<in> set (sends_to d as). msg_tag x = RESP_TAG \<and> wf_msg x"
      by auto
    have "cx_acts c' = es @ as" using r(7) by (simp add: c' r(2) spread_none)
    then have "execs (cx_acts c') = execs es" "\<forall>d. sends_to d (cx_acts c') = sends_to d as" using r(3,6) by simp_all
    moreover have "one_local smlt C i c'" "o_last_rid (cx_rep c') = o_last_rid (cx_rep c0)" using r(1) by (simp_all add: c')
    ultimately show ?thesis using r(4,5,8) t i1 unfolding one_does_def decided_def one_kind_def answers_def by auto
  qed
qed

lemma one_actions:
  assumes C: "conf_wf C" and i: "i < length (cf_cores C)" and loc: "one_local smlt C i c" and wf: "wf_msg m"
    and tag: "msg_tag m = SETUP_TAG \<or> msg_tag m = REQ_TAG \<or> msg_tag m = RESP_TAG \<or>
      (msg_tag m = ONE_ACC \<and> i = acc smlt) \<or> (msg_tag m = ONE_LEARN \<and> i \<noteq> acc smlt)"
    and run: "run_on (one_proto smlt kvs C mem) c m = Inr c'"
  shows "one_does smlt C i m c c'"
proof -
  let ?c = "c\<lparr>cx_msg := m, cx_acts := []\<rparr>"
  let ?b = "(smlt \<or> kvs) \<and> unat (r_id (cx_rep c)) \<noteq> ldr smlt \<and> unat (r_id (cx_rep c)) \<noteq> acc smlt"
  obtain c0 c1 where c0: "message_handler_onepaxos smlt kvs ?c = Inr c0"
    and c1: "st_when ?b answer_own c0 = Inr c1" and c': "c' = c1\<lparr>cx_acts := spread C (cx_acts c1)\<rparr>"
    using run by (auto simp: run_on_def one_proto_defs delivered_def one_body_def Let_def res_simps)
  let ?sp = "c0\<lparr>cx_acts := spread C (cx_acts c0)\<rparr>"
  have does: "one_does smlt C i m c ?sp" by (rule handler_does [OF C i loc wf tag c0 refl])
  have "typed no_buffers ?c" using wf by (simp add: typed_def)
  from keepsD [OF one_typed this, of smlt kvs] have "wf_msg (cx_msg c0)" by (simp add: c0 typed_def)
  from answer_Inr [OF c1 this] obtain as where a: "cx_rep c1 = cx_rep c0" "cx_acts c1 = cx_acts c0 @ as"
    "execs as = []" "\<forall>m. Bcast m \<notin> set as" "\<forall>d. \<forall>x \<in> set (sends_to d as). msg_tag x = RESP_TAG \<and> wf_msg x"
    "\<not> ?b \<longrightarrow> as = []" by blast
  have acts: "cx_acts c' = spread C (cx_acts c0) @ as" using a(4) by (simp add: c' a(2) spread_none)
  have "unat (r_id (cx_rep c)) = i" using loc by (simp add: one_local_def Let_def)
  then have "as = []" if "i = acc smlt" using that a(6) by simp
  moreover have "one_local smlt C i c'" using does by (simp add: one_does_def one_local_def c' a(1))
  moreover have "o_last_rid (cx_rep c') = o_last_rid (cx_rep c0)" by (simp add: c' a(1))
  ultimately show ?thesis using does a(3,5) unfolding one_does_def by (auto simp: acts answers_def)
qed

subsection \<open>The invariant\<close>

text \<open>Messages from core \<open>p\<close>.\<close>

lemma roles_less: "1 < n \<Longrightarrow> acc smlt < n" "1 < n \<Longrightarrow> ldr smlt < n" "acc smlt \<noteq> ldr smlt"
  by (simp_all add: acc_def ldr_def)

definition ok_at :: "bool \<Rightarrow> conf \<Rightarrow> u64 list list \<Rightarrow> nat \<Rightarrow> msg \<Rightarrow> bool" where
  "ok_at smlt C ps p m \<longleftrightarrow> wf_msg m \<and> (answers m \<or> payload m \<in> set ps \<and>
     (msg_tag m = REQ_TAG \<or> msg_tag m = ONE_ACC \<and> p = core_of C (ldr smlt) \<or>
      msg_tag m = ONE_LEARN \<and> p = core_of C (acc smlt)))"

definition coming :: "bool \<Rightarrow> conf \<Rightarrow> one_replica net \<Rightarrow> nat \<Rightarrow> msg list" where
  "coming smlt C s i = learns (n_chan s (core_of C (acc smlt)) (core_of C i)) @ learns (sends_to (core_of C i) (n_pend s (acc smlt)))"

text \<open>
  What the acceptor has executed is what a learner has executed and what its table will select
  from the learn messages on their way to it, after which the tables are the same.
\<close>

definition follows :: "bool \<Rightarrow> conf \<Rightarrow> one_replica net \<Rightarrow> nat \<Rightarrow> bool" where
  "follows smlt C s i \<longleftrightarrow> (\<exists>ps. replay (o_last_rid (cx_rep (n_st s i))) (coming smlt C s i) =
     (ps, o_last_rid (cx_rep (n_st s (acc smlt)))) \<and> upto s (acc smlt) = upto s i @ ps)"

definition one_inv :: "bool \<Rightarrow> conf \<Rightarrow> one_replica net \<Rightarrow> bool" where
  "one_inv smlt C s \<longleftrightarrow> (\<forall>i < length (cf_cores C). one_local smlt C i (n_st s i) \<and>
       (\<forall>p \<in> set (upto s i). p \<in> set (n_sent s)) \<and>
       (\<forall>d. \<forall>m \<in> set (sends_to d (n_pend s i)). ok_at smlt C (n_sent s) (core_of C i) m)) \<and>
     (\<forall>p q. \<forall>m \<in> set (n_chan s p q). ok_at smlt C (n_sent s) p m) \<and>
     (\<forall>i < length (cf_cores C). i \<noteq> acc smlt \<longrightarrow> follows smlt C s i)"

lemma init_replica_onepaxos_rep:
  assumes "init_replica_onepaxos smlt i core nc nr lv ab ns sf cs cl rs f dead tsc r t = Inr (r', t', ss, b)"
  shows "r_id r' = i \<and> r_replicas r' = rs \<and> r_clients r' = cl \<and> r_num_replicas r' = nr \<and> r_num_clients r' = nc \<and> r_level r' = lv \<and>
    r_exec r' = Some (choose_exec f) \<and> unat (o_leader r') = ldr smlt \<and> unat (o_acceptor r') = acc smlt \<and> o_highest r' = 0 \<and>
    o_last_rid r' = replicate MAX_NUM_CLIENTS (-1)"
  using assms unfolding init_replica_onepaxos_def Let_def bindr_eq_Inr
  by (elim exE conjE) (cases "i = 0"; cases smlt; clarsimp simp: ldr_def acc_def)

lemma one_init_local:
  assumes "conf_wf C" and i: "i < length (cf_cores C)" and "one_start smlt C mem i c"
  shows "one_local smlt C i c \<and> o_last_rid (cx_rep c) = replicate 64 (-1)"
proof -
  obtain r t ss b where r: "one_init smlt C (fst (mem i)) (snd (mem i)) i = Inr (r, t, ss, b)" "cx_rep c = r"
    using assms(3) by (auto simp: one_start_def split: sum.splits)
  have "unat (of_nat i :: u8) = i" "unat (of_nat (length (cf_cores C)) :: u8) = length (cf_cores C)"
    "unat (of_nat (length (cf_clients C)) :: u8) = length (cf_clients C)"
    using assms(1) i by (auto intro!: small_word simp: conf_wf_def)
  with init_replica_onepaxos_rep [OF r(1) [unfolded one_init_def]] r(2) show ?thesis
    by (simp add: one_local_def Let_def MAX_NUM_CLIENTS_def)
qed

lemma one_inv_init:
  assumes "conf_wf C" and "1 < length (cf_cores C)" and "net_init C (one_proto smlt kvs C mem) s"
  shows "one_inv smlt C s"
proof -
  have "one_local smlt C i (n_st s i) \<and> o_last_rid (cx_rep (n_st s i)) = replicate 64 (-1)" if "i < length (cf_cores C)" for i
    using assms that by (intro one_init_local) (auto simp: net_init_def one_proto_def)
  moreover from this roles_less(1) [OF assms(2)]
    have "o_last_rid (cx_rep (n_st s (acc smlt))) = replicate 64 (-1)" by metis
  ultimately show ?thesis
    using assms(3) by (auto simp: one_inv_def net_init_def upto_def follows_def coming_def)
qed

lemma ok_at_mono: "ok_at smlt C ps p m \<Longrightarrow> ok_at smlt C (ps @ qs) p m"
  by (auto simp: ok_at_def)

lemma one_act_step:
  assumes C: "conf_wf C" "1 < length (cf_cores C)" and inv: "one_inv smlt C s" and k: "k < length (cf_cores C)"
    and pend: "n_pend s k = a # as" and s': "s' = perform C k a (s\<lparr>n_pend := (n_pend s)(k := as)\<rparr>)"
  shows "one_inv smlt C s'"
proof -
  have up: "upto s' i = upto s i" for i unfolding s' by (rule perform_upto [OF pend])
  have "every_msg C (\<lambda>p d. ok_at smlt C (n_sent s) p) s" using inv by (simp add: one_inv_def every_msg_def)
  from perform_every [OF this k pend] have msgs: "every_msg C (\<lambda>p d. ok_at smlt C (n_sent s) p) s'" by (simp only: s')
  have coming: "coming smlt C s' i = coming smlt C s i" for i
  proof (cases "k = acc smlt")
    case True
    with pend show ?thesis by (cases a) (auto simp: coming_def s')
  next
    case False
    then have "core_of C k \<noteq> core_of C (acc smlt)" using core_of_inject [OF C(1) k roles_less(1) [OF C(2)], of smlt] by simp
    with False show ?thesis by (cases a) (auto simp: coming_def s')
  qed
  have "follows smlt C s' i \<longleftrightarrow> follows smlt C s i" for i by (simp add: follows_def coming up) (simp add: s')
  moreover have "n_sent s' = n_sent s" "n_st s' = n_st s" by (simp_all add: s')
  ultimately show ?thesis using inv up msgs by (auto simp: one_inv_def every_msg_def)
qed

lemma one_client_step:
  assumes C: "conf_wf C" "1 < length (cf_cores C)" and inv: "one_inv smlt C s"
    and st: "net_do C (one_proto smlt kvs C mem) ch s = Some s'" and ch: "ordinary ch" "\<not> internal ch"
  shows "one_inv smlt C s'"
proof (cases ch)
  case (Client_send q d m)
  have q: "q \<in> unat ` set (cf_clients C)" and m: "wf_msg m"
    and s': "s' = push_chan q d m (s\<lparr>n_sent := n_sent s @ [payload m]\<rparr>)"
    using client_sendD [OF st [unfolded Client_send]] by blast+
  have "core_of C (acc smlt) \<noteq> q" using core_not_client [OF C(1) roles_less(1) [OF C(2)]] q by metis
  then have "follows smlt C s' i \<longleftrightarrow> follows smlt C s i" for i by (simp add: follows_def coming_def upto_def s')
  moreover have "ok_at smlt C (n_sent s') q m" using m ch(1) by (auto simp: ok_at_def answers_def s' Client_send)
  ultimately show ?thesis using inv by (auto simp: one_inv_def s' upto_def intro: ok_at_mono)
next
  case (Client_recv q p)
  from st [unfolded Client_recv] obtain m ms where q: "q \<in> unat ` set (cf_clients C)" and chan: "n_chan s p q = m # ms"
    and s': "s' = set_chan p q ms s"
    by (rule client_recvE) blast
  have "core_of C i \<noteq> q" if "i < length (cf_cores C)" for i using core_not_client [OF C(1) that] q by metis
  then have "follows smlt C s' i \<longleftrightarrow> follows smlt C s i" if "i < length (cf_cores C)" for i
    using that by (simp add: follows_def coming_def upto_def s')
  moreover have "\<forall>x \<in> set ms. ok_at smlt C (n_sent s) p x" using inv chan unfolding one_inv_def by (metis list.set_intros(2))
  ultimately show ?thesis using inv by (simp add: one_inv_def s' upto_def)
qed (use ch(2) in simp_all)

text \<open>Receiving: the acceptor's learn messages join those on their way, a learner's own leave them.\<close>

lemma follows_acceptor:
  assumes f: "follows smlt C s i" and idle: "n_pend s (acc smlt) = []"
    and coming: "coming smlt C s' i = coming smlt C s i @ ms" and up: "upto s' (acc smlt) = upto s (acc smlt) @ es" "upto s' i = upto s i"
    and same: "cx_rep (n_st s' i) = cx_rep (n_st s i)"
    and rep: "replay (o_last_rid (cx_rep (n_st s (acc smlt)))) ms = (es, o_last_rid (cx_rep (n_st s' (acc smlt))))"
  shows "follows smlt C s' i"
proof -
  obtain ps where "replay (o_last_rid (cx_rep (n_st s i))) (coming smlt C s i) = (ps, o_last_rid (cx_rep (n_st s (acc smlt))))"
    "upto s (acc smlt) = upto s i @ ps" using f by (auto simp: follows_def)
  then show ?thesis using rep unfolding follows_def coming same up replay_append by (intro exI [of _ "ps @ es"]) simp
qed

lemma follows_learner:
  assumes f: "follows smlt C s i" and coming: "coming smlt C s i = ms @ coming smlt C s' i"
    and up: "upto s' (acc smlt) = upto s (acc smlt)" "upto s' i = upto s i @ es"
    and same: "cx_rep (n_st s' (acc smlt)) = cx_rep (n_st s (acc smlt))"
    and rep: "replay (o_last_rid (cx_rep (n_st s i))) ms = (es, o_last_rid (cx_rep (n_st s' i)))"
  shows "follows smlt C s' i"
  using f rep unfolding follows_def coming same up replay_append by (auto split: prod.splits)

lemma follows_receive:
  assumes C: "conf_wf C" "1 < length (cf_cores C)" and k: "k < length (cf_cores C)" and idle: "n_pend s k = []"
    and does: "one_does smlt C k m (n_st s k) c" and f: "follows smlt C s i"
    and chan: "n_chan s q (core_of C k) = m # ms"
    and s': "s' = set_chan q (core_of C k) ms (s\<lparr>n_st := (n_st s)(k := c), n_pend := (n_pend s)(k := cx_acts c)\<rparr>)"
    and acc: "msg_tag m = ONE_ACC \<longrightarrow> k = acc smlt" and lrn: "msg_tag m = ONE_LEARN \<longrightarrow> k \<noteq> acc smlt \<and> q = core_of C (acc smlt)"
    and i: "i < length (cf_cores C)" "i \<noteq> acc smlt"
  shows "follows smlt C s' i"
proof -
  have ne: "core_of C (acc smlt) \<noteq> core_of C i" "core_of C k = core_of C i \<longleftrightarrow> k = i"
    using core_of_inject [OF C(1) roles_less(1) [OF C(2)] i(1)] core_of_inject [OF C(1) k i(1)] i(2) by simp_all
  have up: "upto s' l = (if l = k then upto s k @ execs (cx_acts c) else upto s l)" for l
    using idle by (simp add: upto_def s')
  consider "k = acc smlt" | "k = i" | "k \<noteq> acc smlt" "k \<noteq> i" by blast
  then show ?thesis
  proof cases
    case 1
    let ?new = "learns (sends_to (core_of C i) (cx_acts c))"
    have "replay (o_last_rid (cx_rep (n_st s (acc smlt)))) ?new = (execs (cx_acts c), o_last_rid (cx_rep (n_st s' (acc smlt))))"
      using does i unfolding one_does_def 1 by (simp add: s' 1)
    moreover have "coming smlt C s' i = coming smlt C s i @ ?new" using idle ne 1 by (simp add: coming_def s')
    ultimately show ?thesis using f idle i(2) up 1 by (intro follows_acceptor [of smlt C s i s' ?new]) (simp_all add: s')
  next
    case 2
    have "coming smlt C s i = decided m @ coming smlt C s' i"
      using chan acc lrn i(2) 2 by (cases "q = core_of C (acc smlt)") (auto simp: coming_def s' decided_def)
    moreover have "replay (o_last_rid (cx_rep (n_st s i))) (decided m) = (execs (cx_acts c), o_last_rid (cx_rep (n_st s' i)))"
      using does 2 by (simp add: one_does_def s')
    ultimately show ?thesis using f i(2) up 2 by (intro follows_learner [of smlt C s i "decided m" s']) (simp_all add: s')
  next
    case 3
    then have "coming smlt C s' i = coming smlt C s i" using ne by (simp add: coming_def s')
    with f 3 up show ?thesis unfolding follows_def by (simp add: s')
  qed
qed

lemma one_receive_step:
  assumes C: "conf_wf C" "1 < length (cf_cores C)" and inv: "one_inv smlt C s"
    and st: "net_do C (one_proto smlt kvs C mem) (Receive k q) s = Some s'"
  shows "one_inv smlt C s'"
proof -
  from st obtain m ms c where k: "k < length (cf_cores C)" and idle: "n_pend s k = []"
    and polls: "p_polls (one_proto smlt kvs C mem) k q" and chan: "n_chan s q (core_of C k) = m # ms"
    and run: "run_on (one_proto smlt kvs C mem) (n_st s k) m = Inr c"
    and s': "s' = set_chan q (core_of C k) ms
           (s\<lparr>n_st := (n_st s)(k := c), n_pend := (n_pend s)(k := cx_acts c)\<rparr>)"
    by (rule receiveE) blast
  have "\<forall>x \<in> set (m # ms). ok_at smlt C (n_sent s) q x" using inv chan unfolding one_inv_def by metis
  then have m: "ok_at smlt C (n_sent s) q m" and ms: "\<forall>x \<in> set ms. ok_at smlt C (n_sent s) q x" by simp_all
  note A = roles_less(1) [OF C(2), of smlt] and L = roles_less(2) [OF C(2), of smlt]
  have n01: "core_of C (ldr smlt) \<noteq> core_of C (acc smlt)" using core_of_inject [OF C(1) L A] roles_less(3) by metis
  have poll: "(k = ldr smlt \<longrightarrow> q \<noteq> core_of C (ldr smlt)) \<and> (k = acc smlt \<longrightarrow> q = core_of C (ldr smlt)) \<and>
      (k \<noteq> ldr smlt \<longrightarrow> k \<noteq> acc smlt \<longrightarrow> q = core_of C (acc smlt))"
    using polls roles_less(3) [of smlt] by (auto simp: one_proto_defs split: if_splits)
  have acc: "k = acc smlt" if "msg_tag m = ONE_ACC"
    using that m poll n01 by (auto simp: ok_at_def answers_def)
  have lrn: "k \<noteq> acc smlt \<and> q = core_of C (acc smlt)" if "msg_tag m = ONE_LEARN"
    using that m poll n01 by (auto simp: ok_at_def answers_def)
  have wf: "wf_msg m" using m by (simp add: ok_at_def)
  have tag: "msg_tag m = SETUP_TAG \<or> msg_tag m = REQ_TAG \<or> msg_tag m = RESP_TAG \<or>
      (msg_tag m = ONE_ACC \<and> k = acc smlt) \<or> (msg_tag m = ONE_LEARN \<and> k \<noteq> acc smlt)"
    using m acc lrn by (auto simp: ok_at_def answers_def)
  have loc: "one_local smlt C k (n_st s k)" using inv k by (simp add: one_inv_def)
  have does: "one_does smlt C k m (n_st s k) c" by (rule one_actions [OF C(1) k loc wf tag run])
  have up: "upto s' i = (if i = k then upto s k @ execs (cx_acts c) else upto s i)" for i
    using idle by (simp add: upto_def s')
  have pay: "payload m \<in> set (n_sent s)" if "\<not> answers m" using m that by (simp add: ok_at_def)
  have sends: "\<forall>x \<in> set (sends_to d (cx_acts c)). ok_at smlt C (n_sent s) (core_of C k) x" for d
    using does pay unfolding one_does_def one_kind_def answers_def ok_at_def by metis
  have "follows smlt C s' i" if i: "i < length (cf_cores C)" "i \<noteq> acc smlt" for i
    using follows_receive [OF C k idle does _ chan s' _ _ i] inv i acc lrn by (simp add: one_inv_def)
  moreover have "\<forall>p \<in> set (execs (cx_acts c)). p \<in> set (n_sent s)" using does pay by (auto simp: one_does_def)
  moreover have "one_local smlt C k c" using does by (simp add: one_does_def)
  ultimately show ?thesis using inv ms sends up unfolding one_inv_def by (auto simp: s')
qed

lemma one_step:
  assumes "conf_wf C" and "1 < length (cf_cores C)" and "one_inv smlt C s"
    and "net_do C (one_proto smlt kvs C mem) ch s = Some s'" and "ordinary ch"
  shows "one_inv smlt C s'"
proof (cases ch)
  case (Receive k q)
  show ?thesis by (rule one_receive_step [OF assms(1-4) [unfolded Receive]])
next
  case (Act k)
  from assms(4) [unfolded Act] obtain a as where "k < length (cf_cores C)" "n_pend s k = a # as"
    "s' = perform C k a (s\<lparr>n_pend := (n_pend s)(k := as)\<rparr>)"
    by (rule actE) blast
  then show ?thesis by (rule one_act_step [OF assms(1-3)])
next
  case (Client_send q d m)
  then show ?thesis by (intro one_client_step [OF assms]) simp
next
  case (Client_recv q p)
  then show ?thesis by (intro one_client_step [OF assms]) simp
qed

lemma one_run:
  assumes "conf_wf C" and "1 < length (cf_cores C)"
  shows "one_inv smlt C s \<Longrightarrow> net_run C (one_proto smlt kvs C mem) chs s = Some s' \<Longrightarrow> \<forall>ch \<in> set chs. ordinary ch \<Longrightarrow> one_inv smlt C s'"
  by (induction chs arbitrary: s) (auto split: option.splits dest: one_step [OF assms])

subsection \<open>Properties\<close>

definition one_quiet :: "bool \<Rightarrow> conf \<Rightarrow> one_replica net \<Rightarrow> bool" where
  "one_quiet smlt C s \<longleftrightarrow> (\<forall>i < length (cf_cores C). n_pend s i = [] \<and> n_chan s (core_of C (acc smlt)) (core_of C i) = [])"

lemma one_prefix:
  assumes "one_inv smlt C s" and "i < length (cf_cores C)"
  shows "prefix (n_log s i) (upto s (acc smlt))"
proof (cases "i = acc smlt")
  case True
  then show ?thesis by (simp add: upto_def)
next
  case False
  then obtain ps where "upto s (acc smlt) = upto s i @ ps" using assms by (auto simp: one_inv_def follows_def)
  then show ?thesis by (simp add: upto_def)
qed

lemma one_quiet_same:
  assumes "one_inv smlt C s" and "one_quiet smlt C s" and "1 < length (cf_cores C)" and "i < length (cf_cores C)"
  shows "n_log s i = n_log s (acc smlt)"
proof (cases "i = acc smlt")
  case False
  have "n_pend s i = []" "n_pend s (acc smlt) = []" "coming smlt C s i = []"
    using assms(2,4) roles_less(1) [OF assms(3)] by (simp_all add: one_quiet_def coming_def)
  then show ?thesis using assms(1,4) False unfolding one_inv_def follows_def upto_def by fastforce
qed simp


text \<open>
  C4: 1Paxos agrees in the normal case, with and without Smelt's broadcast and as the server of
  the key-value store or not: when clients send set-up messages and requests only,
  with any client and request ids and any interleaving, leader and acceptor stay the replicas
  they were at the start; of the command sequences any two replicas have executed, although
  each replica leaves out repetitions by its own table of request ids, one is a prefix of the
  other; they hold only commands that clients have sent; and they are equal once nothing is
  pending and everything the acceptor has sent is received.
\<close>

theorem one_agreement:
  assumes "conf_wf C" and "1 < length (cf_cores C)" and "net_init C (one_proto smlt kvs C mem) s0"
    and "net_run C (one_proto smlt kvs C mem) chs s0 = Some s" and "\<forall>ch \<in> set chs. ordinary ch"
    and "i < length (cf_cores C)" and "j < length (cf_cores C)"
  shows "unat (o_leader (cx_rep (n_st s i))) = ldr smlt \<and> unat (o_acceptor (cx_rep (n_st s i))) = acc smlt \<and>
    (prefix (n_log s i) (n_log s j) \<or> prefix (n_log s j) (n_log s i)) \<and> set (n_log s i) \<subseteq> set (n_sent s) \<and>
    (one_quiet smlt C s \<longrightarrow> n_log s i = n_log s j)"
proof -
  have inv: "one_inv smlt C s" by (rule one_run [OF assms(1,2) one_inv_init [OF assms(1-3)] assms(4,5)])
  then have "one_local smlt C i (n_st s i)" "\<forall>p \<in> set (upto s i). p \<in> set (n_sent s)"
    using assms(6) by (simp_all add: one_inv_def)
  moreover have "prefix (n_log s i) (n_log s j) \<or> prefix (n_log s j) (n_log s i)"
    using one_prefix [OF inv assms(6)] one_prefix [OF inv assms(7)] by (rule prefix_same_cases)
  ultimately show ?thesis
    using one_quiet_same [OF inv _ assms(2,6)] one_quiet_same [OF inv _ assms(2,7)]
    by (auto simp: one_local_def Let_def upto_def)
qed

subsection \<open>Witnesses\<close>

definition one_mem :: "nat \<Rightarrow> bool list \<times> u64" where
  "one_mem i = ([False, False, False], 0)"

definition one_net_example :: "bool \<Rightarrow> nat \<Rightarrow> one_ctx" where
  "one_net_example smlt i = (case one_init smlt example_conf (fst (one_mem i)) (snd (one_mem i)) i of
      Inr (r, t, _) \<Rightarrow> start_ctx r (ct_core t) | Inl _ \<Rightarrow> start_ctx zero_onepaxos zero_layer)"

lemma one_net_example_start: "one_start smlt example_conf one_mem i (one_net_example smlt i)"
proof -
  have "\<exists>x. one_init smlt example_conf (fst (one_mem i)) (snd (one_mem i)) i = Inr x"
    by (simp add: one_init_def init_replica_onepaxos_def Let_def example_conf_def)
  then show ?thesis by (auto simp: one_start_def one_net_example_def start_ctx_def)
qed

text \<open>
  Two equal requests of a client, without Smelt (leader on core 0, acceptor on core 1) and with
  Smelt's broadcast (leader on core 1, acceptor on core 0).
\<close>

definition one_choices :: "bool \<Rightarrow> choice list" where
  "one_choices smlt = (let l = ldr smlt; a = acc smlt in
     [Client_send 5 l example_request, Client_send 5 l example_request, Receive l 5, Act l, Receive l 5, Act l,
      Receive a l, Act a, Act a, Act a, Receive 2 a, Act 2, Receive a l, Act a, Act a, Receive 2 a])"

lemma net_run_start: "net_run C (P\<lparr>p_start := x\<rparr>) chs s = net_run C P chs s"
proof -
  have "net_do C (P\<lparr>p_start := x\<rparr>) ch s = net_do C P ch s" for ch s
    by (cases ch) (simp_all split: list.split sum.split)
  then show ?thesis by (induction chs arbitrary: s) (simp_all split: option.split)
qed

definition one_logs :: "bool \<Rightarrow> one_replica net option \<Rightarrow> bool" where
  "one_logs smlt x = (case x of None \<Rightarrow> False
   | Some s \<Rightarrow> n_log s (ldr smlt) = [] \<and> n_log s (acc smlt) = [[11, 12, 13]] \<and> n_log s 2 = [[11, 12, 13]])"

lemma one_loop_run:
  "one_logs False (net_run example_conf (one_loop False False example_conf) (one_choices False) (empty_net (one_net_example False)))"
  "one_logs True (net_run example_conf (one_loop True True example_conf) (one_choices True) (empty_net (one_net_example True)))"
  by code_simp+

lemma one_choices_ordinary: "\<forall>ch \<in> set (one_choices smlt). ordinary ch"
  by (cases smlt) code_simp+

lemma one_net_init: "net_init example_conf (one_proto smlt kvs example_conf one_mem) (empty_net (one_net_example smlt))"
  by (simp add: net_init_def empty_net_def one_proto_def one_net_example_start)

theorem one_agreement_witness:
  "(\<exists>s. net_run example_conf (one_proto False False example_conf one_mem) (one_choices False) (empty_net (one_net_example False)) = Some s \<and>
     n_log s 0 = [] \<and> n_log s 2 = [[11, 12, 13]] \<and> set (n_log s 2) \<subseteq> set (n_sent s)) \<and>
   (\<exists>s. net_run example_conf (one_proto True True example_conf one_mem) (one_choices True) (empty_net (one_net_example True)) = Some s \<and>
     n_log s 1 = [] \<and> n_log s 2 = [[11, 12, 13]] \<and> set (n_log s 2) \<subseteq> set (n_sent s))"
proof -
  have len: "1 < length (cf_cores example_conf)" "2 < length (cf_cores example_conf)" by simp_all
  have "\<exists>s. net_run example_conf (one_proto smlt smlt example_conf one_mem) (one_choices smlt) (empty_net (one_net_example smlt)) = Some s \<and>
     n_log s (ldr smlt) = [] \<and> n_log s 2 = [[11, 12, 13]] \<and> set (n_log s 2) \<subseteq> set (n_sent s)" for smlt
  proof -
    have "one_logs smlt (net_run example_conf (one_loop smlt smlt example_conf) (one_choices smlt) (empty_net (one_net_example smlt)))"
      using one_loop_run by (cases smlt) simp_all
    then obtain s where s:
      "net_run example_conf (one_proto smlt smlt example_conf one_mem) (one_choices smlt) (empty_net (one_net_example smlt)) = Some s"
      "n_log s (ldr smlt) = []" "n_log s 2 = [[11, 12, 13]]"
      unfolding one_proto_def net_run_start by (auto simp: one_logs_def split: option.splits)
    from one_agreement [OF example_conf_wf len(1) one_net_init s(1) one_choices_ordinary len(2,2)] s show ?thesis by blast
  qed
  from this [of False] this [of True] show ?thesis by (simp add: ldr_def)
qed

end
