(* ===== verification/One_Live.thy ===== *)
theory One_Live
  imports One_Net
begin

text \<open>
  Progress of 1Paxos in the normal case, in all builds: no handler faults, every step of a replica
  uses up work, and when nothing is left to do every replica has executed the clients' requests in
  the order in which the leader took them, each once. The weights of the messages in
  \<open>one_weight\<close> follow a request down: it makes one accept message, that makes a learn message for
  every other replica, and a learn message makes at most three steps.
\<close>

subsection \<open>What clients send, and where messages are\<close>

text \<open>
  A client puts its core into a set-up message and its index into a request, as the client
  library does.
\<close>

fun one_choice :: "conf \<Rightarrow> choice \<Rightarrow> bool" where
  "one_choice C (Client_send q d m) \<longleftrightarrow>
     (msg_tag m = SETUP_TAG \<and> unat (msg_cid m) \<in> unat ` set (cf_clients C)) \<or>
     (msg_tag m = REQ_TAG \<and> unat (msg_cid m) < length (cf_clients C))"
| "one_choice C ch \<longleftrightarrow> True"

text \<open>The requests that a client core has sent to a core.\<close>

fun requests_to :: "nat \<Rightarrow> nat \<Rightarrow> choice list \<Rightarrow> msg list" where
  "requests_to d q [] = []"
| "requests_to d q (Client_send q' d' m # chs) =
     (if q' = q \<and> d' = d \<and> msg_tag m = REQ_TAG then m # requests_to d q chs else requests_to d q chs)"
| "requests_to d q (ch # chs) = requests_to d q chs"

lemma requests_to_snoc: "requests_to d q (chs @ [ch]) = requests_to d q chs @ requests_to d q [ch]"
  by (induction d q chs rule: requests_to.induct) auto

text \<open>The messages that may be on their way from core \<open>p\<close> to core \<open>d\<close>.\<close>

definition legal :: "bool \<Rightarrow> conf \<Rightarrow> nat \<Rightarrow> nat \<Rightarrow> msg \<Rightarrow> bool" where
  "legal smlt C p d m \<longleftrightarrow>
     (if p \<in> unat ` set (cf_clients C) then wf_msg m \<and> one_choice C (Client_send p d m)
      else d \<in> unat ` set (cf_clients C) \<or>
        wf_msg m \<and> unat (msg_cid m) < length (cf_clients C) \<and>
        (p = core_of C (ldr smlt) \<and> d = core_of C (acc smlt) \<and> msg_tag m = ONE_ACC \<or>
         p = core_of C (acc smlt) \<and> d \<noteq> core_of C (acc smlt) \<and> msg_tag m = ONE_LEARN))"

abbreviation all_legal :: "bool \<Rightarrow> conf \<Rightarrow> one_replica net \<Rightarrow> bool" where
  "all_legal smlt C s \<equiv> every_msg C (legal smlt C) s"

definition one_weight :: "conf \<Rightarrow> nat \<Rightarrow> msg \<Rightarrow> nat" where
  "one_weight C i m = (let n = length (cf_cores C) in
     if msg_tag m = REQ_TAG then 5 * n + 4 else if msg_tag m = ONE_ACC then 5 * n + 2 else 4)"

lemma one_weight_tags [simp]:
  "msg_tag m = REQ_TAG \<Longrightarrow> one_weight C i m = 5 * length (cf_cores C) + 4"
  "msg_tag m = ONE_ACC \<Longrightarrow> one_weight C i m = 5 * length (cf_cores C) + 2"
  "msg_tag m = ONE_LEARN \<Longrightarrow> one_weight C i m = 4" "msg_tag m = SETUP_TAG \<Longrightarrow> one_weight C i m = 4"
  by (simp_all add: one_weight_def Let_def)

text \<open>What a replica needs not to fault.\<close>

definition one_fit :: "conf \<Rightarrow> one_ctx \<Rightarrow> bool" where
  "one_fit C c \<longleftrightarrow> learner_ok (choose_exec (cf_exec C)) (length (cf_clients C)) (cx_rep c) \<and>
     (\<exists>seen. tracks (o_last_rid (cx_rep c)) seen)"

subsection \<open>One message\<close>

text \<open>The acceptor's learn messages, as they leave it.\<close>

lemma learn_spread_form:
  assumes "conf_wf C" and "acc smlt < length (cf_cores C)"
  shows "\<exists>f ys. spread C (learn_sends smlt C x) = map (\<lambda>y. Send (f y) x) ys \<and> length ys \<le> length (cf_cores C) \<and>
    core_of C (acc smlt) \<notin> f ` set (ys :: nat list)"
proof (cases smlt)
  case True
  let ?bs = "bcast_order C x"
  let ?f = "\<lambda>j. unat (?bs ! j)" and ?ys = "[0..<length ?bs]"
  note each = each_other_facts [OF bcast_order_each, of C x]
  have "map (\<lambda>d. Send (unat d) x) ?bs = map (\<lambda>y. Send (?f y) x) ?ys" by (rule nth_equalityI) simp_all
  moreover have "length ?ys \<le> length (cf_cores C)" using each(2) by simp
  moreover have "core_of C 0 \<notin> ?f ` set ?ys"
  proof
    assume "core_of C 0 \<in> ?f ` set ?ys"
    then obtain b where "unat b = core_of C 0" "b \<in> set ?bs" by auto
    then have "cf_cores C ! 0 \<in> set (drop 1 (cf_cores C))"
      using each(1) by (simp add: core_of_def word_unat_eq_iff [symmetric])
    moreover obtain r rs where "cf_cores C = r # rs" using assms(2) by (cases "cf_cores C") auto
    ultimately show False using assms(1) by (simp add: conf_wf_def)
  qed
  ultimately show ?thesis
    using True by (intro exI [of _ ?f] exI [of _ ?ys]) (simp add: learn_sends_def acc_def)
next
  case False
  let ?ys = "filter (\<lambda>j. j \<noteq> 1) [0..<length (cf_cores C)]"
  have "spread C (map (\<lambda>j. Send (core_of C j) x) ?ys) = map (\<lambda>j. Send (core_of C j) x) ?ys"
    by (rule spread_none) auto
  moreover have "core_of C 1 \<notin> core_of C ` set ?ys"
    using core_of_inject [OF assms(1), of 1] assms(2) False by (auto simp: acc_def)
  moreover have "length ?ys \<le> length (cf_cores C)"
    using length_filter_le [of "\<lambda>j. j \<noteq> 1" "[0..<length (cf_cores C)]"] by simp
  ultimately show ?thesis
    using False by (intro exI [of _ "core_of C"] exI [of _ ?ys]) (simp add: learn_sends_def acc_def)
qed

text \<open>An answer that reaches a client only.\<close>

definition to_client :: "conf \<Rightarrow> action \<Rightarrow> bool" where
  "to_client C a \<longleftrightarrow> (\<exists>d \<in> unat ` set (cf_clients C). \<exists>x. a = Send d x) \<or> (\<exists>f p. a = Exec f p)"

lemma to_client_facts:
  assumes "conf_wf C" and "\<forall>a \<in> set as. to_client C a"
  shows "costs C P w i as = length as" and "x \<in> set (sends_to d as) \<Longrightarrow> d \<in> unat ` set (cf_clients C)"
    and "spread C as = as"
proof -
  show "costs C P w i as = length as"
    using assms(2) by (induction as) (auto simp: to_client_def arrival_client [OF assms(1)])
  show "x \<in> set (sends_to d as) \<Longrightarrow> d \<in> unat ` set (cf_clients C)"
    using assms(2) by (induction as) (auto simp: to_client_def split: if_splits)
  show "spread C as = as" using assms(2) by (intro spread_none) (auto simp: to_client_def)
qed

text \<open>The loop's part, for the leader and the acceptor and for a learner.\<close>

lemma run_unanswered:
  assumes "message_handler_onepaxos smlt kvs (c\<lparr>cx_msg := m, cx_acts := []\<rparr>) = Inr c0"
    and "unat (r_id (cx_rep c)) = ldr smlt \<or> unat (r_id (cx_rep c)) = acc smlt"
  shows "run_on (one_proto smlt kvs C mem) c m = Inr (c0\<lparr>cx_acts := spread C (cx_acts c0)\<rparr>)"
proof -
  have "\<not> ((smlt \<or> kvs) \<and> unat (r_id (cx_rep c)) \<noteq> ldr smlt \<and> unat (r_id (cx_rep c)) \<noteq> acc smlt)" using assms(2) by blast
  with assms(1) show ?thesis by (auto simp: run_on_def one_proto_defs one_body_def Let_def st_when_def)
qed

lemma answer_total:
  assumes "wf_msg (cx_msg c)" and "unat (msg_cid (cx_msg c)) < length (r_clients (cx_rep c))"
  shows "\<exists>c' rs. st_when b answer_own c = Inr c' \<and> cx_rep c' = cx_rep c \<and> cx_acts c' = cx_acts c @ rs \<and> length rs \<le> 1 \<and>
    (\<forall>a \<in> set rs. \<exists>d \<in> unat ` set (r_clients (cx_rep c)). \<exists>x. a = Send d x)"
  using assms by (cases b; cases "cx_msg c ! 3 = ucast (r_current_core (cx_rep c))")
    (auto simp: st_when_def answer_own_def data_def wf_msg_len stmts hdr)

lemma legal_cases:
  assumes C: "conf_wf C" "1 < length (cf_cores C)" and k: "k < length (cf_cores C)"
    and m: "legal smlt C q (core_of C k) m" and polls: "p_polls (one_proto smlt kvs C mem) k q"
  obtains (start) "k = ldr smlt" "wf_msg m" "msg_tag m = SETUP_TAG" "unat (msg_cid m) \<in> unat ` set (cf_clients C)"
    | (req) "k = ldr smlt" "q \<in> unat ` set (cf_clients C)" "wf_msg m" "msg_tag m = REQ_TAG"
        "unat (msg_cid m) < length (cf_clients C)"
    | (accept) "k = acc smlt" "wf_msg m" "msg_tag m = ONE_ACC" "unat (msg_cid m) < length (cf_clients C)"
    | (learn) "k \<noteq> acc smlt" "wf_msg m" "msg_tag m = ONE_LEARN" "unat (msg_cid m) < length (cf_clients C)"
proof (cases "q \<in> unat ` set (cf_clients C)")
  case True
  have "core_of C (ldr smlt) \<noteq> q" "core_of C (acc smlt) \<noteq> q"
    using core_not_client [OF C(1) roles_less(2) [OF C(2)]] core_not_client [OF C(1) roles_less(1) [OF C(2)]] True by metis+
  then have "k = ldr smlt" using polls by (auto simp: one_proto_defs split: if_splits)
  then show ?thesis using start req m True by (auto simp: legal_def)
next
  case False
  have "core_of C k = core_of C (acc smlt) \<longleftrightarrow> k = acc smlt"
    by (rule core_of_inject [OF C(1) k roles_less(1) [OF C(2)]])
  then show ?thesis
    using accept learn m False core_not_client [OF C(1) k] by (auto simp: legal_def)
qed

definition accepts :: "msg list \<Rightarrow> msg list" where
  "accepts ms = filter (\<lambda>m. msg_tag m = ONE_ACC) ms"

lemma accepts_simps [simp]:
  "accepts [] = []" "accepts (m # ms) = (if msg_tag m = ONE_ACC then m # accepts ms else accepts ms)"
  "accepts (ms @ ns) = accepts ms @ accepts ns"
  by (simp_all add: accepts_def)

lemma ctx_order: "c\<lparr>cx_acts := as, cx_msg := m\<rparr> = c\<lparr>cx_msg := m, cx_acts := as\<rparr>"
  by simp

text \<open>What handling a legal message comes to.\<close>

definition one_serves :: "bool \<Rightarrow> bool \<Rightarrow> conf \<Rightarrow> (nat \<Rightarrow> bool list \<times> u64) \<Rightarrow> nat \<Rightarrow> one_ctx \<Rightarrow> msg \<Rightarrow> bool" where
  "one_serves smlt kvs C mem k c m \<longleftrightarrow> (\<exists>c'. run_on (one_proto smlt kvs C mem) c m = Inr c' \<and> one_fit C c' \<and>
     costs C (one_proto smlt kvs C mem) (one_weight C) k (cx_acts c') < one_weight C k m \<and>
     (\<forall>d. \<forall>x \<in> set (sends_to d (cx_acts c')). legal smlt C (core_of C k) d x) \<and>
     (k = ldr smlt \<longrightarrow> accepts (sends_to (core_of C (acc smlt)) (cx_acts c')) =
        (if msg_tag m = REQ_TAG then [put_tag 0 ONE_ACC m] else [])))"

text \<open>Handling that only sends to clients.\<close>

lemma serves_clients:
  assumes C: "conf_wf C" "1 < length (cf_cores C)" and k: "k < length (cf_cores C)"
    and run: "run_on (one_proto smlt kvs C mem) c m = Inr c'" and fit: "one_fit C c'"
    and acts: "\<forall>a \<in> set (cx_acts c'). to_client C a" "length (cx_acts c') < one_weight C k m" and m: "msg_tag m \<noteq> REQ_TAG"
  shows "one_serves smlt kvs C mem k c m"
proof -
  note tc = to_client_facts [OF C(1) acts(1)]
  have "core_of C k \<notin> unat ` set (cf_clients C)" "core_of C (acc smlt) \<notin> unat ` set (cf_clients C)"
    using core_not_client [OF C(1) k] core_not_client [OF C(1) roles_less(1) [OF C(2)]] by metis+
  then have "\<forall>d. \<forall>x \<in> set (sends_to d (cx_acts c')). legal smlt C (core_of C k) d x"
    "sends_to (core_of C (acc smlt)) (cx_acts c') = []"
    using tc(2) by (auto simp: legal_def) (metis list.set_intros(1) neq_Nil_conv)
  with run fit acts(2) m tc(1) [of "one_proto smlt kvs C mem"] show ?thesis by (auto simp: one_serves_def)
qed

lemma start_serves:
  assumes C: "conf_wf C" "1 < length (cf_cores C)" and loc: "one_local smlt C (ldr smlt) c" and fit: "one_fit C c"
    and m: "wf_msg m" "msg_tag m = SETUP_TAG" "unat (msg_cid m) \<in> unat ` set (cf_clients C)"
  shows "one_serves smlt kvs C mem (ldr smlt) c m"
proof -
  have l: "unat (r_num_clients (cx_rep c)) \<le> length (r_clients (cx_rep c))" "unat (r_id (cx_rep c)) = ldr smlt"
    using loc by (simp_all add: one_local_def Let_def)
  from setup_answers [of "c\<lparr>cx_msg := m, cx_acts := []\<rparr>", OF _ l(1)] m(1,2) obtain c0 x where c0:
    "message_handler_onepaxos smlt kvs (c\<lparr>cx_msg := m, cx_acts := []\<rparr>) = Inr c0" "cx_rep c0 = cx_rep c"
    "cx_acts c0 = [Send (unat (msg_cid m)) x]"
    by (auto simp: message_handler_onepaxos_def handle_setup_onepaxos_def)
  have "\<forall>a \<in> set (spread C (cx_acts c0)). to_client C a" using m(3) by (auto simp: c0(3) to_client_def)
  then show ?thesis
    using m(2) fit by (intro serves_clients [OF C roles_less(2) [OF C(2)] run_unanswered [OF c0(1)]])
      (simp_all add: l(2) c0(2,3) one_fit_def)
qed

lemma request_serves:
  assumes C: "conf_wf C" "1 < length (cf_cores C)" and loc: "one_local smlt C (ldr smlt) c" and fit: "one_fit C c"
    and m: "wf_msg m" "msg_tag m = REQ_TAG" "unat (msg_cid m) < length (cf_clients C)"
  shows "one_serves smlt kvs C mem (ldr smlt) c m"
proof -
  let ?c = "c\<lparr>cx_msg := m, cx_acts := []\<rparr>" and ?P = "one_proto smlt kvs C mem" and ?x = "put_tag 0 ONE_ACC m"
  have l: "unat (r_id (cx_rep c)) = ldr smlt" "unat (o_leader (cx_rep c)) = ldr smlt" "r_replicas (cx_rep c) = cf_cores C"
    "unat (o_acceptor (cx_rep c)) = acc smlt"
    using loc by (simp_all add: one_local_def Let_def)
  then have lead: "r_id (cx_rep c) = o_leader (cx_rep c)" by (simp add: word_unat_eq_iff)
  then obtain as where q: "queue_holds (o_queue (cx_rep c), o_heap (cx_rep c)) as" "allocated (o_heap (cx_rep c))"
    "r_exec (cx_rep c) = Some (choose_exec (cf_exec C))" "r_alg_below (cx_rep c) = ALG_NONE"
    "r_level (cx_rep c) = NODE_LEVEL" "length (cf_clients C) \<le> length (r_clients (cx_rep c))"
    using fit by (auto simp: one_fit_def learner_ok_def one_ready_def)
  obtain ele h1 where e: "new_entry Loop_msg (o_heap (cx_rep c)) = (ele, h1)" by (cases "new_entry Loop_msg (o_heap (cx_rep c))")
  obtain q' h' where eq: "entry_q_enqueue ele (o_queue (cx_rep c), h1) = Inr (q', h')"
    "queue_holds (q', h') (as @ [ele])" "allocated h'"
    using enqueue_new [OF q(1,2) e] by blast
  have less: "acc smlt < length (cf_cores C)" by (rule roles_less(1) [OF C(2)])
  obtain c0 where c0: "message_handler_onepaxos smlt kvs ?c = Inr c0"
    "cx_rep c0 = (cx_rep c)\<lparr>o_queue := q', o_heap := h', o_proposal_index := o_proposal_index (cx_rep c) + 1\<rparr>"
    "cx_acts c0 = [Send (core_of C (acc smlt)) ?x]"
    using m(2) lead less
    by (auto simp: message_handler_onepaxos_def Let_def handle_request_onepaxos_def stmts st_rep_def enqueue_msg_def e eq(1) l(3,4)
        core_of_def)
  have acts: "spread C (cx_acts c0) = [Send (core_of C (acc smlt)) ?x]" by (simp add: c0(3))
  have "one_fit C c0"
    using fit q eq(2,3) by (auto simp: one_fit_def learner_ok_def one_ready_def c0(2))
  moreover have "legal smlt C (core_of C (ldr smlt)) (core_of C (acc smlt)) ?x"
    using core_not_client [OF C(1) roles_less(2) [OF C(2)]] m by (auto simp: legal_def hdr)
  moreover have "arrival C ?P (one_weight C) (core_of C (ldr smlt)) (core_of C (acc smlt)) ?x \<le> 5 * length (cf_cores C) + 2"
    using m(1) by (intro arrival_le [OF C(1)]) (simp add: hdr)
  ultimately show ?thesis
    using run_unanswered [OF c0(1), of C mem] l(1) m
    unfolding one_serves_def by (intro exI [of _ "c0\<lparr>cx_acts := spread C (cx_acts c0)\<rparr>"]) (auto simp: acts hdr one_fit_def)
qed

lemma learn_acts_eq: "one_local smlt C i c \<Longrightarrow> learn_acts smlt (cx_rep c) x = learn_sends smlt C x"
  by (simp add: learn_acts_def learn_sends_def one_local_def Let_def core_of_def)

lemma accept_serves:
  assumes C: "conf_wf C" "1 < length (cf_cores C)" and loc: "one_local smlt C (acc smlt) c" and fit: "one_fit C c"
    and m: "wf_msg m" "msg_tag m = ONE_ACC" "unat (msg_cid m) < length (cf_clients C)"
  shows "one_serves smlt kvs C mem (acc smlt) c m"
proof -
  let ?c = "c\<lparr>cx_acts := []\<rparr>" and ?P = "one_proto smlt kvs C mem" and ?x = "learn_of (o_index (cx_rep c)) m"
  let ?f = "choose_exec (cf_exec C)"
  have l: "unat (r_id (cx_rep c)) = acc smlt" "r_replicas (cx_rep c) = cf_cores C" "o_highest (cx_rep c) = 0"
    "unat (r_num_replicas (cx_rep c)) = length (cf_cores C)" "unat (o_leader (cx_rep c)) = ldr smlt"
    using loc by (simp_all add: one_local_def Let_def)
  then have lead: "r_id (cx_rep c) \<noteq> o_leader (cx_rep c)" using roles_less(3) [of smlt] by metis
  obtain seen where seen: "tracks (o_last_rid (cx_rep ?c)) seen" using fit by (auto simp: one_fit_def)
  have pre: "unat (msg_cid m) < 64" "one_ready ?f (cx_rep ?c)"
    "unat (r_num_replicas (cx_rep ?c)) \<le> length (r_replicas (cx_rep ?c))" "o_highest (cx_rep ?c) \<le> m ! 2"
    using m(3) C(1) fit l by (auto simp: conf_wf_def one_fit_def learner_ok_def)
  obtain c0 lr where c0: "message_handler_onepaxos smlt kvs (?c\<lparr>cx_msg := m\<rparr>) = Inr c0"
    "cx_acts c0 = learn_acts smlt (cx_rep c) ?x @ (if stale seen m then [] else [Exec ?f (payload m)])"
    "tracks (o_last_rid (cx_rep c0)) (seen_after seen m)"
    "cx_rep c0 = (cx_rep c)\<lparr>o_last_entry := Loop_msg, o_last_rid := lr, o_index := o_index (cx_rep c) + 1\<rparr>"
    using acceptor_acts [OF seen pre(1-3) m(1,2) pre(4), of smlt kvs] by auto
  obtain g ys where g: "spread C (learn_sends smlt C ?x) = map (\<lambda>y. Send (g y) ?x) ys" "length ys \<le> length (cf_cores C)"
    "core_of C (acc smlt) \<notin> g ` set (ys :: nat list)"
    using learn_spread_form [OF C(1) roles_less(1) [OF C(2)]] by blast
  let ?as = "map (\<lambda>y. Send (g y) ?x) ys @ (if stale seen m then [] else [Exec ?f (payload m)])"
  have acts: "spread C (cx_acts c0) = ?as" by (simp add: c0(2) learn_acts_eq [OF loc] g(1))
  note lf = learn_of_facts [where i = "o_index (cx_rep c)", OF m(1)]
  have "costs C ?P (one_weight C) (acc smlt) (map (\<lambda>y. Send (g y) ?x) ys) \<le> (1 + 4) * length ys"
    using lf(2) by (intro costs_sends_le arrival_le [OF C(1)]) simp
  then have "costs C ?P (one_weight C) (acc smlt) ?as < one_weight C (acc smlt) m" using g(2) m(2) by simp
  moreover have leg: "legal smlt C (core_of C (acc smlt)) d x" if "x \<in> set (sends_to d ?as)" for d x
  proof -
    have "x \<in> set (sends_to d (map (\<lambda>y. Send (g y) ?x) ys))" using that by (auto split: if_splits)
    then have "x = ?x" "d \<in> g ` set ys"
      using sends_to_map_in [of x d g ?x ys] sends_to_map_target [of x d g ?x ys] by blast+
    then have "x = ?x" "d \<noteq> core_of C (acc smlt)" using g(3) by blast+
    then show ?thesis
      using core_not_client [OF C(1) roles_less(1) [OF C(2)]] m(3) lf by (auto simp: legal_def)
  qed
  moreover have "one_fit C c0"
    using fit lead c0(3) by (auto simp: one_fit_def learner_ok_def one_ready_def c0(4))
  then have "one_fit C (c0\<lparr>cx_acts := ?as\<rparr>)" by (simp add: one_fit_def)
  moreover have "run_on ?P c m = Inr (c0\<lparr>cx_acts := ?as\<rparr>)"
    using run_unanswered [where c = c and m = m and C = C and mem = mem] c0(1) l(1) by (simp add: acts ctx_order)
  moreover have "\<forall>d. \<forall>x \<in> set (sends_to d ?as). legal smlt C (core_of C (acc smlt)) d x" using leg by blast
  ultimately show ?thesis
    using roles_less(3) [of smlt] unfolding one_serves_def by (intro exI [of _ "c0\<lparr>cx_acts := ?as\<rparr>"] conjI) simp_all
qed

lemma learn_serves:
  assumes C: "conf_wf C" "1 < length (cf_cores C)" and k: "k < length (cf_cores C)" "k \<noteq> acc smlt"
    and loc: "one_local smlt C k c" and fit: "one_fit C c"
    and m: "wf_msg m" "msg_tag m = ONE_LEARN" "unat (msg_cid m) < length (cf_clients C)"
  shows "one_serves smlt kvs C mem k c m"
proof -
  let ?c = "c\<lparr>cx_acts := []\<rparr>" and ?f = "choose_exec (cf_exec C)"
  let ?b = "(smlt \<or> kvs) \<and> unat (r_id (cx_rep c)) \<noteq> ldr smlt \<and> unat (r_id (cx_rep c)) \<noteq> acc smlt"
  obtain seen where seen: "tracks (o_last_rid (cx_rep ?c)) seen" using fit by (auto simp: one_fit_def)
  have pre: "unat (msg_cid m) < 64" "learner_ok ?f (length (cf_clients C)) (cx_rep ?c)"
    "r_clients (cx_rep ?c) = cf_clients C"
    using m(3) C(1) fit loc by (auto simp: conf_wf_def one_fit_def one_local_def Let_def)
  obtain c0 rs where c0: "message_handler_onepaxos smlt kvs (?c\<lparr>cx_msg := m\<rparr>) = Inr c0"
    "cx_acts c0 = (if stale seen m then [] else [Exec ?f (payload m)]) @ rs"
    "rs = [] \<or> (\<exists>d \<in> unat ` set (cf_clients C). \<exists>x. rs = [Send d x])"
    "tracks (o_last_rid (cx_rep c0)) (seen_after seen m)" "learner_ok ?f (length (cf_clients C)) (cx_rep c0)"
    "msg_cid (cx_msg c0) = msg_cid m"
    using learner_acts [OF seen pre(1) m(3) pre(2) m(1,2), of smlt kvs] pre(3) by auto
  have h: "message_handler_onepaxos smlt kvs (c\<lparr>cx_msg := m, cx_acts := []\<rparr>) = Inr c0"
    using c0(1) by (simp add: ctx_order)
  have "typed no_buffers (c\<lparr>cx_msg := m, cx_acts := []\<rparr>)" using m(1) by (simp add: typed_def)
  from keepsD [OF one_typed this, of smlt kvs] have wf: "wf_msg (cx_msg c0)" by (simp add: h typed_def)
  have "msg_tag m \<noteq> SETUP_TAG \<and> msg_tag m \<noteq> REQ_TAG \<and> msg_tag m \<noteq> ONE_ACC" using m(2) by simp
  then have "one_local smlt C k (c0\<lparr>cx_acts := spread C (cx_acts c0)\<rparr>)"
    using handler_does [OF C(1) k(1) loc m(1) _ h refl] m(2) k(2) by (simp add: one_does_def)
  then have "r_clients (cx_rep c0) = cf_clients C" by (simp add: one_local_def Let_def)
  then obtain c1 ss where c1: "st_when ?b answer_own c0 = Inr c1" "cx_rep c1 = cx_rep c0" "cx_acts c1 = cx_acts c0 @ ss"
    "length ss \<le> 1" "\<forall>a \<in> set ss. \<exists>d \<in> unat ` set (cf_clients C). \<exists>x. a = Send d x"
    using answer_total [OF wf, of ?b] c0(6) m(3) by auto
  have all: "\<forall>a \<in> set (cx_acts c1). to_client C a"
    using c0(3) c1(5) by (auto simp: c1(3) c0(2) to_client_def split: if_splits)
  have len: "length (cx_acts c1) < one_weight C k m" using c0(3) c1(4) m(2) by (auto simp: c1(3) c0(2))
  have "run_on (one_proto smlt kvs C mem) c m = Inr (c1\<lparr>cx_acts := spread C (cx_acts c1)\<rparr>)"
    using h c1(1) by (simp add: run_on_def one_proto_defs one_body_def Let_def)
  then have run: "run_on (one_proto smlt kvs C mem) c m = Inr c1"
    using to_client_facts(3) [OF C(1) all] by simp
  have "one_fit C c1" using c0(4,5) by (auto simp: one_fit_def c1(2))
  from serves_clients [OF C k(1) run this all len] m(2) show ?thesis by simp
qed

lemma one_served:
  assumes C: "conf_wf C" "1 < length (cf_cores C)" and k: "k < length (cf_cores C)"
    and m: "legal smlt C q (core_of C k) m" and polls: "p_polls (one_proto smlt kvs C mem) k q"
    and loc: "one_local smlt C k c" and fit: "one_fit C c"
  shows "one_serves smlt kvs C mem k c m"
  using C k m polls
proof (cases rule: legal_cases)
  case start
  with start_serves [OF C, of smlt c] loc fit show ?thesis by simp
next
  case req
  with request_serves [OF C, of smlt c] loc fit show ?thesis by simp
next
  case accept
  with accept_serves [OF C, of smlt c] loc fit show ?thesis by simp
next
  case learn
  with learn_serves [OF C k, of smlt c] loc fit show ?thesis by simp
qed

subsection \<open>The invariant\<close>

text \<open>A table of request ids and a log, after the messages have been taken in.\<close>

definition catch_up :: "u64 list \<times> u64 list list \<Rightarrow> msg list \<Rightarrow> u64 list \<times> u64 list list" where
  "catch_up x ms = (case replay (fst x) ms of (ps, lr) \<Rightarrow> (lr, snd x @ ps))"

lemma catch_up_Nil [simp]: "catch_up x [] = x"
  by (simp add: catch_up_def)

lemma catch_up_append: "catch_up x (ms @ ns) = catch_up (catch_up x ms) ns"
  by (simp add: catch_up_def replay_append split: prod.split)

lemma catch_up_cong: "msg_cid m' = msg_cid m \<Longrightarrow> msg_rid m' = msg_rid m \<Longrightarrow> payload m' = payload m \<Longrightarrow>
    catch_up x [m'] = catch_up x [m]"
  by (simp add: catch_up_def)

lemma catch_up_Cons: "catch_up x (m # ms) = catch_up (catch_up x [m]) ms"
  using catch_up_append [of x "[m]" ms] by simp

definition position :: "bool \<Rightarrow> one_replica net \<Rightarrow> u64 list \<times> u64 list list" where
  "position smlt s = (o_last_rid (cx_rep (n_st s (acc smlt))), upto s (acc smlt))"

text \<open>The accept messages on their way to the acceptor.\<close>

definition flow :: "bool \<Rightarrow> conf \<Rightarrow> one_replica net \<Rightarrow> msg list" where
  "flow smlt C s = accepts (n_chan s (core_of C (ldr smlt)) (core_of C (acc smlt))) @
     accepts (sends_to (core_of C (acc smlt)) (n_pend s (ldr smlt)))"

definition asks :: "msg list \<Rightarrow> msg list" where
  "asks ms = filter (\<lambda>m. msg_tag m = REQ_TAG) ms"

lemma asks_simps [simp]:
  "asks [] = []" "asks (m # ms) = (if msg_tag m = REQ_TAG then m # asks ms else asks ms)"
  "asks (ms @ ns) = asks ms @ asks ns"
  by (simp_all add: asks_def)

text \<open>
  An order of the requests: a list of requests with the clients they came from, in which the
  requests of each client are in the order it sent them.
\<close>

definition of_client :: "nat \<Rightarrow> (nat \<times> msg) list \<Rightarrow> msg list" where
  "of_client q xs = map snd (filter (\<lambda>x. fst x = q) xs)"

lemma of_client_simps [simp]:
  "of_client q [] = []" "of_client q (xs @ ys) = of_client q xs @ of_client q ys"
  "of_client q [(p, m)] = (if p = q then [m] else [])"
  by (simp_all add: of_client_def)

definition taken :: "bool \<Rightarrow> conf \<Rightarrow> choice list \<Rightarrow> one_replica net \<Rightarrow> (nat \<times> msg) list \<Rightarrow> bool" where
  "taken smlt C chs s xs \<longleftrightarrow> fst ` set xs \<subseteq> unat ` set (cf_clients C) \<and>
     catch_up (position smlt s) (flow smlt C s) = catch_up (replicate 64 (-1), []) (map snd xs) \<and>
     (\<forall>q \<in> unat ` set (cf_clients C). of_client q xs @ asks (n_chan s q (core_of C (ldr smlt))) =
        requests_to (core_of C (ldr smlt)) q chs)"

definition one_going :: "bool \<Rightarrow> conf \<Rightarrow> choice list \<Rightarrow> one_replica net \<Rightarrow> bool" where
  "one_going smlt C chs s \<longleftrightarrow> one_inv smlt C s \<and> all_legal smlt C s \<and>
     (\<forall>i < length (cf_cores C). one_fit C (n_st s i)) \<and> (\<exists>xs. taken smlt C chs s xs)"

lemma choice_ordinary: "one_choice C ch \<Longrightarrow> ordinary ch"
  by (cases ch) auto

text \<open>Receiving.\<close>

lemma one_receives:
  assumes C: "conf_wf C" "1 < length (cf_cores C)" and inv: "one_going smlt C chs s"
    and st: "net_do C (one_proto smlt kvs C mem) (Receive k q) s = Some s'"
  obtains m ms c where "k < length (cf_cores C)" "n_pend s k = []" "p_polls (one_proto smlt kvs C mem) k q"
    "n_chan s q (core_of C k) = m # ms" "run_on (one_proto smlt kvs C mem) (n_st s k) m = Inr c"
    "s' = set_chan q (core_of C k) ms (s\<lparr>n_st := (n_st s)(k := c), n_pend := (n_pend s)(k := cx_acts c)\<rparr>)"
    "legal smlt C q (core_of C k) m" "one_fit C c"
    "costs C (one_proto smlt kvs C mem) (one_weight C) k (cx_acts c) < one_weight C k m"
    "\<forall>d. \<forall>x \<in> set (sends_to d (cx_acts c)). legal smlt C (core_of C k) d x"
    "k = ldr smlt \<Longrightarrow> accepts (sends_to (core_of C (acc smlt)) (cx_acts c)) =
       (if msg_tag m = REQ_TAG then [put_tag 0 ONE_ACC m] else [])"
    "replay (o_last_rid (cx_rep (n_st s k))) (decided m) = (execs (cx_acts c), o_last_rid (cx_rep c))"
proof -
  from st obtain m ms c where *: "k < length (cf_cores C)" "n_pend s k = []" "p_polls (one_proto smlt kvs C mem) k q"
    "n_chan s q (core_of C k) = m # ms" "run_on (one_proto smlt kvs C mem) (n_st s k) m = Inr c"
    "s' = set_chan q (core_of C k) ms (s\<lparr>n_st := (n_st s)(k := c), n_pend := (n_pend s)(k := cx_acts c)\<rparr>)"
    by (rule receiveE) blast
  have m: "legal smlt C q (core_of C k) m"
    using inv *(4) unfolding one_going_def every_msg_def by (metis list.set_intros(1))
  have loc: "one_local smlt C k (n_st s k)" and fit: "one_fit C (n_st s k)"
    using inv *(1) by (simp_all add: one_going_def one_inv_def)
  have tag: "wf_msg m" "msg_tag m = SETUP_TAG \<or> msg_tag m = REQ_TAG \<or> msg_tag m = RESP_TAG \<or>
      (msg_tag m = ONE_ACC \<and> k = acc smlt) \<or> (msg_tag m = ONE_LEARN \<and> k \<noteq> acc smlt)"
    using legal_cases [OF C *(1) m *(3)] by metis+
  have "one_does smlt C k m (n_st s k) c" by (rule one_actions [OF C(1) *(1) loc tag *(5)])
  then have "replay (o_last_rid (cx_rep (n_st s k))) (decided m) = (execs (cx_acts c), o_last_rid (cx_rep c))"
    by (simp add: one_does_def)
  with one_served [OF C *(1) m *(3) loc fit] * m show ?thesis
    unfolding one_serves_def by (intro that [of m ms c]) auto
qed

lemma polled_core:
  assumes "legal smlt C q d m" and "d \<notin> unat ` set (cf_clients C)"
  shows "q < 256"
  using assms by (auto simp: legal_def core_less split: if_splits)

lemma taken_receive:
  assumes C: "conf_wf C" "1 < length (cf_cores C)" and inv: "one_going smlt C chs s" and x: "taken smlt C chs s xs"
    and st: "net_do C (one_proto smlt kvs C mem) (Receive k q) s = Some s'"
  shows "\<exists>xs. taken smlt C chs s' xs"
  using C inv st
proof (cases rule: one_receives)
  case (1 m ms c)
  let ?L = "core_of C (ldr smlt)" and ?A = "core_of C (acc smlt)"
  note A = roles_less(1) [OF C(2), of smlt] and L = roles_less(2) [OF C(2), of smlt]
  have ne: "?L \<noteq> ?A" "ldr smlt \<noteq> acc smlt" using core_of_inject [OF C(1) L A] roles_less(3) [of smlt] by metis+
  have kL: "core_of C k = ?L \<longleftrightarrow> k = ldr smlt" and kA: "core_of C k = ?A \<longleftrightarrow> k = acc smlt"
    using core_of_inject [OF C(1) 1(1) L] core_of_inject [OF C(1) 1(1) A] by blast+
  consider (L) "k = ldr smlt" | (A) "k = acc smlt" | (other) "k \<noteq> ldr smlt" "k \<noteq> acc smlt" by blast
  then show ?thesis
  proof cases
    case L
    have pos: "position smlt s' = position smlt s" using L ne by (simp add: position_def upto_def 1(6))
    have flow: "flow smlt C s' = flow smlt C s @ (if msg_tag m = REQ_TAG then [put_tag 0 ONE_ACC m] else [])"
      using 1(2) 1(11) [OF L] L ne by (simp add: flow_def 1(6))
    have chan: "n_chan s' p ?L = (if p = q then ms else n_chan s p ?L)" for p using L by (simp add: 1(6))
    show ?thesis
    proof (cases "msg_tag m = REQ_TAG")
      case True
      with 1(1,3,7) L have q: "q \<in> unat ` set (cf_clients C)" by (cases rule: legal_cases [OF C]) auto
      have "catch_up (position smlt s') (flow smlt C s') = catch_up (catch_up (position smlt s) (flow smlt C s)) [m]"
        using True catch_up_cong [of "put_tag 0 ONE_ACC m" m] by (simp add: pos flow catch_up_append hdr)
      also have "\<dots> = catch_up (replicate 64 (-1), []) (map snd (xs @ [(q, m)]))"
        using x by (simp add: taken_def catch_up_append)
      finally have "taken smlt C chs s' (xs @ [(q, m)])"
        using x q True 1(4) L unfolding taken_def by (auto simp: chan)
      then show ?thesis by blast
    next
      case False
      then have "asks (n_chan s' p ?L) = asks (n_chan s p ?L)" for p using 1(4) L by (simp add: chan)
      then have "taken smlt C chs s' xs" using x False unfolding taken_def by (simp add: pos flow)
      then show ?thesis by blast
    qed
  next
    case A
    have q: "q = ?L" "msg_tag m = ONE_ACC"
    proof -
      show "q = ?L" using 1(3) A ne(2) by (auto simp: one_proto_defs split: if_splits)
      from 1(1,3,7) A ne(2) show "msg_tag m = ONE_ACC" by (cases rule: legal_cases [OF C]) auto
    qed
    have "flow smlt C s = m # flow smlt C s'" using 1(4) A q ne by (simp add: flow_def 1(6))
    moreover have "position smlt s' = catch_up (position smlt s) [m]"
      using 1(2,12) A q(2) by (simp add: position_def upto_def 1(6) decided_def catch_up_def)
    ultimately have "catch_up (position smlt s') (flow smlt C s') = catch_up (position smlt s) (flow smlt C s)"
      by (metis catch_up_Cons)
    moreover have "n_chan s' p ?L = n_chan s p ?L" for p using A ne by (simp add: 1(6))
    ultimately have "taken smlt C chs s' xs" using x unfolding taken_def by simp
    then show ?thesis by blast
  next
    case other
    have "position smlt s' = position smlt s" "flow smlt C s' = flow smlt C s" "n_chan s' p ?L = n_chan s p ?L" for p
      using other kL kA by (simp_all add: position_def upto_def flow_def 1(6))
    with x have "taken smlt C chs s' xs" unfolding taken_def by simp
    then show ?thesis by blast
  qed
qed

lemma legal_step:
  assumes "all_legal smlt C s" and "one_choice C ch" and C: "conf_wf C" "1 < length (cf_cores C)"
    and inv: "one_going smlt C chs s" and st: "net_do C (one_proto smlt kvs C mem) ch s = Some s'"
  shows "all_legal smlt C s' \<and> (\<forall>i < length (cf_cores C). one_fit C (n_st s' i))"
proof (cases ch)
  case (Receive k q)
  have fit: "\<forall>i < length (cf_cores C). one_fit C (n_st s i)" using inv by (simp add: one_going_def)
  have "\<forall>x \<in> set (n_chan s p d). legal smlt C p d x" for p d using assms(1) by (simp add: every_msg_def)
  then show ?thesis
    using assms(1) fit by (cases rule: one_receives [OF C inv st [unfolded Receive]]) (fastforce simp: every_msg_def)
next
  case (Act k)
  from st [unfolded Act] obtain a as where k: "k < length (cf_cores C)" and pend: "n_pend s k = a # as"
    and s': "s' = perform C k a (s\<lparr>n_pend := (n_pend s)(k := as)\<rparr>)"
    by (rule actE) blast
  have "all_legal smlt C s'" using perform_every [OF assms(1) k pend] by (simp only: s')
  moreover have "\<forall>i < length (cf_cores C). one_fit C (n_st s' i)" using inv by (simp add: one_going_def s')
  ultimately show ?thesis by blast
next
  case (Client_send q d m)
  have "q \<in> unat ` set (cf_clients C)" "wf_msg m" and s': "s' = push_chan q d m (s\<lparr>n_sent := n_sent s @ [payload m]\<rparr>)"
    using client_sendD [OF st [unfolded Client_send]] by blast+
  then have "legal smlt C q d m" using assms(2) Client_send by (simp add: legal_def)
  with assms(1) inv show ?thesis by (auto simp: every_msg_def s' one_going_def)
next
  case (Client_recv q p)
  from st [unfolded Client_recv] obtain m ms where "n_chan s p q = m # ms" and s': "s' = set_chan p q ms s"
    by (rule client_recvE) blast
  then have "\<forall>x \<in> set ms. legal smlt C p q x" using assms(1) unfolding every_msg_def by (metis list.set_intros(2))
  with assms(1) inv show ?thesis by (auto simp: every_msg_def s' one_going_def)
qed

text \<open>An action only moves a message on.\<close>

lemma taken_act:
  assumes C: "conf_wf C" "1 < length (cf_cores C)" and x: "taken smlt C chs s xs"
    and k: "k < length (cf_cores C)" and pend: "n_pend s k = a # as"
    and s': "s' = perform C k a (s\<lparr>n_pend := (n_pend s)(k := as)\<rparr>)"
  shows "taken smlt C chs s' xs"
proof -
  have "position smlt s' = position smlt s"
    unfolding position_def s' by (simp add: perform_upto [OF pend])
  moreover have "flow smlt C s' = flow smlt C s"
  proof (cases "k = ldr smlt")
    case True
    with pend show ?thesis by (cases a) (auto simp: flow_def s')
  next
    case False
    then have "core_of C k \<noteq> core_of C (ldr smlt)" using core_of_inject [OF C(1) k roles_less(2) [OF C(2)]] by metis
    with False show ?thesis by (cases a) (auto simp: flow_def s')
  qed
  moreover have "n_chan s' q d = n_chan s q d" if "q \<in> unat ` set (cf_clients C)" for q d
  proof -
    have "core_of C k \<noteq> q" using core_not_client [OF C(1) k] that by metis
    then show ?thesis by (cases a) (auto simp: s')
  qed
  ultimately show ?thesis using x by (simp add: taken_def)
qed

lemma taken_client:
  assumes C: "conf_wf C" "1 < length (cf_cores C)" and x: "taken smlt C chs s xs" and ch: "\<not> internal ch"
    and st: "net_do C (one_proto smlt kvs C mem) ch s = Some s'"
  shows "taken smlt C (chs @ [ch]) s' xs"
proof -
  have cores: "core_of C (acc smlt) \<notin> unat ` set (cf_clients C)" "core_of C (ldr smlt) \<notin> unat ` set (cf_clients C)"
    using core_not_client [OF C(1) roles_less(1) [OF C(2)]] core_not_client [OF C(1) roles_less(2) [OF C(2)]] by metis+
  show ?thesis
  proof (cases ch)
    case (Client_send q d m)
    have "q \<in> unat ` set (cf_clients C)" and s': "s' = push_chan q d m (s\<lparr>n_sent := n_sent s @ [payload m]\<rparr>)"
      using client_sendD [OF st [unfolded Client_send]] by blast+
    then have "core_of C (ldr smlt) \<noteq> q" using cores(2) by metis
    then have "position smlt s' = position smlt s" "flow smlt C s' = flow smlt C s"
      by (simp_all add: position_def upto_def flow_def s')
    with x show ?thesis
      unfolding taken_def requests_to_snoc Client_send by (auto simp: s')
  next
    case (Client_recv q p)
    from st [unfolded Client_recv] obtain m ms where "q \<in> unat ` set (cf_clients C)" and s': "s' = set_chan p q ms s"
      by (rule client_recvE) blast
    then have "core_of C (ldr smlt) \<noteq> q" "core_of C (acc smlt) \<noteq> q" using cores by metis+
    then have "position smlt s' = position smlt s" "flow smlt C s' = flow smlt C s"
      "n_chan s' x (core_of C (ldr smlt)) = n_chan s x (core_of C (ldr smlt))" for x
      by (simp_all add: position_def upto_def flow_def s')
    with x show ?thesis unfolding taken_def requests_to_snoc Client_recv by simp
  qed (use ch in simp_all)
qed

abbreviation one_left :: "bool \<Rightarrow> bool \<Rightarrow> conf \<Rightarrow> (nat \<Rightarrow> bool list \<times> u64) \<Rightarrow> one_replica net \<Rightarrow> nat" where
  "one_left smlt kvs C mem \<equiv> work C (one_proto smlt kvs C mem) (one_weight C)"

lemma one_going_step:
  assumes C: "conf_wf C" "1 < length (cf_cores C)" and inv: "one_going smlt C chs s" and ch: "one_choice C ch"
    and st: "net_do C (one_proto smlt kvs C mem) ch s = Some s'"
  shows "one_going smlt C (chs @ [ch]) s' \<and>
    (\<not> sends_request ch \<longrightarrow> (if internal ch then 1 else 0) + one_left smlt kvs C mem s' \<le> one_left smlt kvs C mem s)"
proof -
  obtain xs where xs: "taken smlt C chs s xs" using inv by (auto simp: one_going_def)
  have "one_inv smlt C s'" using one_step [OF C _ st choice_ordinary [OF ch]] inv by (simp add: one_going_def)
  moreover have "all_legal smlt C s' \<and> (\<forall>i < length (cf_cores C). one_fit C (n_st s' i))"
    by (rule legal_step [OF _ ch C inv st]) (use inv in \<open>simp add: one_going_def\<close>)
  moreover have "(\<exists>xs. taken smlt C (chs @ [ch]) s' xs) \<and>
    (\<not> sends_request ch \<longrightarrow> (if internal ch then 1 else 0) + one_left smlt kvs C mem s' \<le> one_left smlt kvs C mem s)"
  proof (cases ch)
    case (Receive k q)
    have "one_left smlt kvs C mem s' < one_left smlt kvs C mem s"
    proof (cases rule: one_receives [OF C inv st [unfolded Receive]])
      case (1 m ms c)
      have "q < 256" using polled_core [OF 1(7)] core_not_client [OF C(1) 1(1)] by metis
      from receive_work [OF C(1) 1(1-3) this 1(4,9)] show ?thesis by (simp add: 1(6))
    qed
    moreover have "taken smlt C (chs @ [Receive k q]) s' ys \<longleftrightarrow> taken smlt C chs s' ys" for ys
      by (simp add: taken_def requests_to_snoc)
    ultimately show ?thesis using taken_receive [OF C inv xs st [unfolded Receive]] Receive by auto
  next
    case (Act k)
    from st [unfolded Act] obtain a as where a: "k < length (cf_cores C)" "n_pend s k = a # as"
      "s' = perform C k a (s\<lparr>n_pend := (n_pend s)(k := as)\<rparr>)"
      by (rule actE) blast
    have "one_left smlt kvs C mem s' < one_left smlt kvs C mem s"
      unfolding a(3) using act_work [OF a(1,2), of "one_proto smlt kvs C mem" "one_weight C"] by linarith
    moreover have "taken smlt C (chs @ [Act k]) s' xs"
      using taken_act [OF C xs a] by (simp add: taken_def requests_to_snoc)
    ultimately show ?thesis using Act by auto
  next
    case (Client_send q d m)
    then show ?thesis using taken_client [OF C xs _ st] by auto
  next
    case (Client_recv q p)
    from st [unfolded Client_recv] obtain m ms where "q \<in> unat ` set (cf_clients C)" "s' = set_chan p q ms s"
      by (rule client_recvE) blast
    then have "one_left smlt kvs C mem s' = one_left smlt kvs C mem s" using client_recv_work [OF C(1)] by metis
    then show ?thesis using taken_client [OF C xs _ st] Client_recv by auto
  qed
  ultimately show ?thesis by (simp add: one_going_def)
qed

subsection \<open>Runs\<close>

lemma init_replica_onepaxos_queue:
  assumes "init_replica_onepaxos smlt i core nc nr lv ab ns sf cs cl rs f dead tsc zero_onepaxos t = Inr (r', t', ss, b)"
  shows "r_alg_below r' = ab \<and> eq_size (o_queue r') = 0 \<and> eq_head (o_queue r') = None \<and> eq_tail (o_queue r') = None \<and>
    o_heap r' = \<lparr>eh_cells = (\<lambda>_. None), eh_fresh = 0\<rparr>"
  using assms unfolding init_replica_onepaxos_def Let_def bindr_eq_Inr
  by (elim exE conjE) (cases "i = 0"; clarsimp simp: entry_queue_init_def zero_onepaxos_def replica.defs one_replica.defs)

lemma one_start_fit:
  assumes "conf_wf C" and "cf_below C = ALG_NONE" and "i < length (cf_cores C)" and "one_start smlt C mem i c"
  shows "one_fit C c"
proof -
  obtain r t ss b where r: "one_init smlt C (fst (mem i)) (snd (mem i)) i = Inr (r, t, ss, b)" "cx_rep c = r"
    using assms(4) by (auto simp: one_start_def split: sum.splits)
  note q = init_replica_onepaxos_queue [OF r(1) [unfolded one_init_def]]
  from one_init_local [OF assms(1,3,4)] have l: "one_local smlt C i c" "o_last_rid (cx_rep c) = replicate 64 (-1)" by simp_all
  have "queue_holds (o_queue r, o_heap r) []" using q by (simp add: queue_holds_def)
  moreover have "allocated (o_heap r)" using q by (simp add: allocated_def)
  ultimately have "learner_ok (choose_exec (cf_exec C)) (length (cf_clients C)) r"
    using l(1) q assms(2) by (auto simp: learner_ok_def one_ready_def one_local_def Let_def r(2))
  then show ?thesis using tracks_fresh l(2) by (auto simp: one_fit_def r(2))
qed

lemma one_going_init:
  assumes "conf_wf C" and "1 < length (cf_cores C)" and "cf_below C = ALG_NONE" and "net_init C (one_proto smlt kvs C mem) s"
  shows "one_going smlt C [] s"
proof -
  have n: "n_pend s = (\<lambda>_. [])" "n_chan s = (\<lambda>_ _. [])" "n_log s = (\<lambda>_. [])"
    and st: "\<And>i. i < length (cf_cores C) \<Longrightarrow> one_start smlt C mem i (n_st s i)"
    using assms(4) by (simp_all add: net_init_def one_proto_def)
  have "o_last_rid (cx_rep (n_st s (acc smlt))) = replicate 64 (-1)"
    using one_init_local [OF assms(1) roles_less(1) [OF assms(2)] st [OF roles_less(1) [OF assms(2)]]] by simp
  then have "taken smlt C [] s []" by (simp add: taken_def position_def flow_def upto_def n)
  then show ?thesis
    using one_inv_init [OF assms(1,2,4)] one_start_fit [OF assms(1,3) _ st] by (auto simp: one_going_def every_msg_def n)
qed

lemma one_going_run:
  assumes C: "conf_wf C" "1 < length (cf_cores C)" "cf_below C = ALG_NONE" and init: "net_init C (one_proto smlt kvs C mem) s0"
  shows "net_run C (one_proto smlt kvs C mem) chs s0 = Some s \<Longrightarrow> \<forall>ch \<in> set chs. one_choice C ch \<Longrightarrow> one_going smlt C chs s"
proof (induction chs arbitrary: s rule: rev_induct)
  case Nil
  then show ?case using one_going_init [OF C init] by simp
next
  case (snoc ch chs)
  then obtain s1 where "net_run C (one_proto smlt kvs C mem) chs s0 = Some s1" "net_do C (one_proto smlt kvs C mem) ch s1 = Some s"
    by (auto simp: net_run_snoc)
  with snoc show ?case using one_going_step [OF C(1,2)] by auto
qed

lemma one_bounded:
  assumes C: "conf_wf C" "1 < length (cf_cores C)"
  shows "one_going smlt C chs s \<Longrightarrow> net_run C (one_proto smlt kvs C mem) chs' s = Some s' \<Longrightarrow>
    \<forall>ch \<in> set chs'. \<not> sends_request ch \<Longrightarrow>
    one_going smlt C (chs @ chs') s' \<and> length (filter internal chs') + one_left smlt kvs C mem s' \<le> one_left smlt kvs C mem s"
proof (induction chs' arbitrary: s chs)
  case Nil
  then show ?case by simp
next
  case (Cons ch chs')
  then obtain s1 where s1: "net_do C (one_proto smlt kvs C mem) ch s = Some s1"
    "net_run C (one_proto smlt kvs C mem) chs' s1 = Some s'" by (auto split: option.splits)
  have ch: "one_choice C ch" "\<not> sends_request ch" using Cons.prems(3) by (cases ch; simp)+
  note step = one_going_step [OF C Cons.prems(1) ch(1) s1(1)]
  from Cons.IH [OF step [THEN conjunct1] s1(2)] Cons.prems(3) step ch(2) show ?case by (auto split: if_splits)
qed

subsection \<open>When nothing is left\<close>

text \<open>
  No replica can act or receive from a core that it polls in every build: the leader the clients
  and the acceptor, the acceptor the leader, the learners the acceptor.
\<close>

definition one_idle :: "bool \<Rightarrow> conf \<Rightarrow> one_replica proto \<Rightarrow> one_replica net \<Rightarrow> bool" where
  "one_idle smlt C P s \<longleftrightarrow> (\<forall>k. net_do C P (Act k) s = None) \<and>
     (\<forall>k. \<forall>q \<in> insert (core_of C (ldr smlt)) (insert (core_of C (acc smlt)) (unat ` set (cf_clients C))).
        net_do C P (Receive k q) s = None)"

lemma one_finished:
  assumes C: "conf_wf C" "1 < length (cf_cores C)" and inv: "one_going smlt C chs s"
    and idle: "one_idle smlt C (one_proto smlt kvs C mem) s"
  shows "k < length (cf_cores C) \<Longrightarrow> n_pend s k = []"
    and "k < length (cf_cores C) \<Longrightarrow> p_polls (one_proto smlt kvs C mem) k q \<Longrightarrow> n_chan s q (core_of C k) = []"
proof -
  show pend: "n_pend s k = []" if "k < length (cf_cores C)"
  proof -
    have "net_do C (one_proto smlt kvs C mem) (Act k) s = None" using idle by (simp add: one_idle_def)
    then show ?thesis using that by (simp split: list.splits)
  qed
  show "n_chan s q (core_of C k) = []" if k: "k < length (cf_cores C)" and polls: "p_polls (one_proto smlt kvs C mem) k q"
  proof (cases "n_chan s q (core_of C k)")
    case (Cons m ms)
    then have m: "legal smlt C q (core_of C k) m"
      using inv unfolding one_going_def every_msg_def by (metis list.set_intros(1))
    have "one_local smlt C k (n_st s k)" "one_fit C (n_st s k)"
      using inv k by (simp_all add: one_going_def one_inv_def)
    from one_served [OF C k m polls this] obtain c where "run_on (one_proto smlt kvs C mem) (n_st s k) m = Inr c"
      by (auto simp: one_serves_def)
    then have "net_do C (one_proto smlt kvs C mem) (Receive k q) s \<noteq> None"
      using Cons polls pend [OF k] k by (simp add: run_on_def)
    moreover have "q \<in> insert (core_of C (ldr smlt)) (insert (core_of C (acc smlt)) (unat ` set (cf_clients C)))"
      using m core_not_client [OF C(1) k] by (auto simp: legal_def split: if_splits)
    from idle [unfolded one_idle_def, THEN conjunct2, THEN spec, of k, THEN bspec, OF this]
    have "net_do C (one_proto smlt kvs C mem) (Receive k q) s = None" .
    ultimately show ?thesis by contradiction
  qed simp
qed

lemma replay_dedupe:
  "tracks lr seen \<Longrightarrow> \<forall>m \<in> set ms. unat (msg_cid m) < 64 \<Longrightarrow>
   fst (replay lr ms) = map payload (selected (dedupe seen ms) ms)"
proof (induction ms arbitrary: lr seen)
  case (Cons m ms)
  show ?case
  proof (cases "stale seen m")
    case True
    with Cons repetitive_stale [OF Cons.prems(1), of m] show ?thesis by simp
  next
    case False
    have "tracks (lr[unat (msg_cid m) := ucast (msg_rid m)]) (insert (msg_cid m, msg_rid m) seen)"
      using Cons.prems False by (intro tracks_insert) simp_all
    from Cons.IH [OF this] Cons.prems(2) False repetitive_stale [OF Cons.prems(1), of m] show ?thesis
      by (cases "replay (lr[unat (msg_cid m) := ucast (msg_rid m)]) ms") simp
  qed
qed simp

lemma requests_to_named:
  "\<forall>ch \<in> set chs. one_choice C ch \<Longrightarrow> m \<in> set (requests_to d q chs) \<Longrightarrow> unat (msg_cid m) < length (cf_clients C)"
  by (induction d q chs rule: requests_to.induct) (auto split: if_splits)

lemma no_requests: "\<forall>ch \<in> set chs. \<not> sends_request ch \<Longrightarrow> requests_to d q chs = []"
  by (induction d q chs rule: requests_to.induct) auto

lemma requests_to_append: "requests_to d q (chs @ chs') = requests_to d q chs @ requests_to d q chs'"
  by (induction d q chs rule: requests_to.induct) auto

text \<open>Requests in the order of ids of their clients are all selected.\<close>

abbreviation newer :: "msg \<Rightarrow> msg \<Rightarrow> bool" where
  "newer x y \<equiv> msg_cid x = msg_cid y \<longrightarrow> msg_rid x < msg_rid y"

lemma dedupe_newer:
  "sorted_wrt newer ms \<Longrightarrow> \<forall>m \<in> set ms. \<not> stale seen m \<Longrightarrow> selected (dedupe seen ms) ms = ms"
proof (induction ms arbitrary: seen)
  case (Cons m ms)
  have "\<not> stale (insert (msg_cid m, msg_rid m) seen) x" if "x \<in> set ms" for x
    using Cons.prems that by (auto simp: stale_def)
  with Cons show ?case by simp
qed simp

lemma merged_sorted:
  "\<forall>q. sorted_wrt R (of_client q xs) \<Longrightarrow> \<forall>x \<in> set xs. \<forall>y \<in> set xs. fst x \<noteq> fst y \<longrightarrow> R (snd x) (snd y) \<Longrightarrow>
   sorted_wrt R (map snd xs)"
proof (induction xs)
  case (Cons x xs)
  have "sorted_wrt R (of_client q xs)" for q
    using Cons.prems(1) [rule_format, of q] by (simp add: of_client_def split: if_splits)
  moreover have "R (snd x) (snd y)" if y: "y \<in> set xs" for y
  proof (cases "fst x = fst y")
    case True
    then show ?thesis using Cons.prems(1) [rule_format, of "fst x"] y by (cases y) (simp add: of_client_def)
  qed (use Cons.prems(2) y in auto)
  ultimately show ?case using Cons by simp
qed simp

text \<open>Clients number their own requests: ids increase, and no two cores use one client index.\<close>

definition numbered :: "conf \<Rightarrow> nat \<Rightarrow> choice list \<Rightarrow> bool" where
  "numbered C d chs \<longleftrightarrow> (\<forall>q \<in> unat ` set (cf_clients C). sorted_wrt newer (requests_to d q chs) \<and>
     (\<forall>p \<in> unat ` set (cf_clients C). p \<noteq> q \<longrightarrow>
        (\<forall>x \<in> set (requests_to d p chs). \<forall>y \<in> set (requests_to d q chs). msg_cid x \<noteq> msg_cid y)))"

lemma merged_newer:
  assumes "numbered C d chs" and "fst ` set xs \<subseteq> unat ` set (cf_clients C)"
    and "\<forall>q \<in> unat ` set (cf_clients C). of_client q xs = requests_to d q chs"
  shows "sorted_wrt newer (map snd xs)"
proof (rule merged_sorted)
  show "\<forall>q. sorted_wrt newer (of_client q xs)"
  proof
    fix q
    show "sorted_wrt newer (of_client q xs)"
    proof (cases "q \<in> unat ` set (cf_clients C)")
      case True
      then have "sorted_wrt newer (requests_to d q chs)" using assms(1) unfolding numbered_def by blast
      moreover have "of_client q xs = requests_to d q chs" using assms(3) True by blast
      ultimately show ?thesis by (simp only:)
    next
      case False
      then have "of_client q xs = []" using assms(2) by (auto simp: of_client_def filter_empty_conv)
      then show ?thesis by simp
    qed
  qed
  show "\<forall>x \<in> set xs. \<forall>y \<in> set xs. fst x \<noteq> fst y \<longrightarrow> newer (snd x) (snd y)"
  proof (intro ballI impI)
    fix x y
    assume x: "x \<in> set xs" and y: "y \<in> set xs" and ne: "fst x \<noteq> fst y" and cid: "msg_cid (snd x) = msg_cid (snd y)"
    have z: "snd z \<in> set (requests_to d (fst z) chs)" "fst z \<in> unat ` set (cf_clients C)" if "z \<in> set xs" for z
    proof -
      show z: "fst z \<in> unat ` set (cf_clients C)" using assms(2) that by blast
      have "snd z \<in> set (of_client (fst z) xs)" using that by (auto simp: of_client_def)
      then show "snd z \<in> set (requests_to d (fst z) chs)" using assms(3) z by simp
    qed
    have "msg_cid (snd x) \<noteq> msg_cid (snd y)"
      using assms(1) z [OF x] z [OF y] ne unfolding numbered_def by blast
    with cid show "msg_rid (snd x) < msg_rid (snd y)" by blast
  qed
qed

subsection \<open>The property\<close>

lemma merged_named:
  assumes "conf_wf C" and "\<forall>ch \<in> set chs. one_choice C ch" and "fst ` set xs \<subseteq> unat ` set (cf_clients C)"
    and "\<forall>q \<in> unat ` set (cf_clients C). of_client q xs = requests_to d q chs"
  shows "\<forall>m \<in> set (map snd xs). unat (msg_cid m) < 64"
proof
  fix m assume "m \<in> set (map snd xs)"
  then obtain q where q: "(q, m) \<in> set xs" by auto
  then have "q \<in> unat ` set (cf_clients C)" using assms(3) by force
  moreover have "m \<in> set (of_client q xs)" using q by (force simp: of_client_def)
  ultimately have "m \<in> set (requests_to d q chs)" using assms(4) by simp
  then have "unat (msg_cid m) < length (cf_clients C)" by (rule requests_to_named [OF assms(2)])
  then show "unat (msg_cid m) < 64" using assms(1) by (simp add: conf_wf_def)
qed

text \<open>
  An order of the requests sent to a core, in which the requests of each client are in the order
  it sent them.
\<close>

definition merges :: "conf \<Rightarrow> nat \<Rightarrow> choice list \<Rightarrow> (nat \<times> msg) list \<Rightarrow> bool" where
  "merges C d chs xs \<longleftrightarrow> fst ` set xs \<subseteq> unat ` set (cf_clients C) \<and>
     (\<forall>q \<in> unat ` set (cf_clients C). of_client q xs = requests_to d q chs)"

text \<open>The order in which the leader has taken the requests is the order in the log of every replica.\<close>

definition executed_in :: "bool \<Rightarrow> conf \<Rightarrow> choice list \<Rightarrow> one_replica net \<Rightarrow> (nat \<times> msg) list \<Rightarrow> bool" where
  "executed_in smlt C chs s xs \<longleftrightarrow> merges C (core_of C (ldr smlt)) chs xs \<and>
     (\<forall>i < length (cf_cores C). n_log s i = map payload (selected (dedupe {} (map snd xs)) (map snd xs)) \<and>
        (numbered C (core_of C (ldr smlt)) chs \<longrightarrow> n_log s i = map (\<lambda>x. payload (snd x)) xs))"

lemma one_outcome:
  assumes C: "conf_wf C" "1 < length (cf_cores C)" and inv: "one_going smlt C (chs @ chs') s"
    and idle: "one_idle smlt C (one_proto smlt kvs C mem) s"
    and ch: "\<forall>ch \<in> set chs. one_choice C ch" "\<forall>ch \<in> set chs'. \<not> sends_request ch"
  shows "\<exists>xs. executed_in smlt C chs s xs"
proof -
  let ?L = "core_of C (ldr smlt)" and ?A = "core_of C (acc smlt)" and ?P = "one_proto smlt kvs C mem"
  obtain xs where xs: "taken smlt C (chs @ chs') s xs" using inv by (auto simp: one_going_def)
  note fin = one_finished [OF C inv idle]
  note A = roles_less(1) [OF C(2), of smlt] and L = roles_less(2) [OF C(2), of smlt]
  have polls: "p_polls ?P (acc smlt) ?L" "q \<noteq> ?L \<Longrightarrow> p_polls ?P (ldr smlt) q" "i \<noteq> acc smlt \<Longrightarrow> p_polls ?P i ?A" for q i
    using roles_less(3) [of smlt] core_of_inject [OF C(1) L A] by (auto simp: one_proto_defs)
  have clients: "\<forall>q \<in> unat ` set (cf_clients C). of_client q xs = requests_to ?L q chs"
  proof
    fix q assume q: "q \<in> unat ` set (cf_clients C)"
    then have "q \<noteq> ?L" using core_not_client [OF C(1) L] by metis
    then have "n_chan s q ?L = []" using fin(2) [OF L polls(2)] by blast
    then show "of_client q xs = requests_to ?L q chs"
      using xs q no_requests [OF ch(2)] unfolding taken_def requests_to_append by (metis append_Nil2 asks_simps(1))
  qed
  have from_clients: "fst ` set xs \<subseteq> unat ` set (cf_clients C)" using xs by (simp add: taken_def)
  have "flow smlt C s = []" using fin(1) [OF L] fin(2) [OF A polls(1)] by (simp add: flow_def)
  then have "position smlt s = catch_up (replicate 64 (-1), []) (map snd xs)" using xs by (simp add: taken_def)
  then have "upto s (acc smlt) = fst (replay (replicate 64 (-1)) (map snd xs))"
    by (simp add: position_def catch_up_def split: prod.splits)
  then have log: "n_log s (acc smlt) = map payload (selected (dedupe {} (map snd xs)) (map snd xs))"
    using replay_dedupe [OF tracks_fresh merged_named [OF C(1) ch(1) from_clients clients]] fin(1) [OF A] by (simp add: upto_def)
  have same: "n_log s i = n_log s (acc smlt)" if i: "i < length (cf_cores C)" for i
  proof (cases "i = acc smlt")
    case False
    have "coming smlt C s i = []" using fin(2) [OF i polls(3) [OF False]] fin(1) [OF A] by (simp add: coming_def)
    then show ?thesis
      using inv i False fin(1) [OF i] fin(1) [OF A] unfolding one_going_def one_inv_def follows_def upto_def by fastforce
  qed simp
  have "n_log s (acc smlt) = map (\<lambda>x. payload (snd x)) xs" if "numbered C ?L chs"
    using dedupe_newer [OF merged_newer [OF that from_clients clients], of "{}"] log by (simp add: stale_def)
  then show ?thesis using clients from_clients same log unfolding executed_in_def merges_def by (intro exI [of _ xs]) metis
qed

text \<open>
  C10: 1Paxos makes progress in the normal case, in all builds, with at least two replicas and no
  core level below: when clients send set-up messages with their core and requests with a
  client's index, no replica ever faults. From the time the clients stop sending, the replicas
  take at most as many steps as the work left says, at most \<open>5 n + 4\<close> for a request with \<open>n\<close>
  replicas; and when no replica can take a step any more, there is an order of all requests sent to the
  leader, in which the requests of each client are in the order it sent them, such that every
  replica has executed exactly these requests in this order, without those that repeat a request id or go back;
  if clients number their requests upwards, that is all of them.
\<close>

theorem one_liveness:
  assumes "conf_wf C" and "1 < length (cf_cores C)" and "cf_below C = ALG_NONE"
    and "net_init C (one_proto smlt kvs C mem) s0" and "net_run C (one_proto smlt kvs C mem) chs s0 = Some s"
    and "\<forall>ch \<in> set chs. one_choice C ch"
    and "net_run C (one_proto smlt kvs C mem) chs' s = Some s'" and "\<forall>ch \<in> set chs'. \<not> sends_request ch"
  shows "length (filter internal chs') \<le> work C (one_proto smlt kvs C mem) (one_weight C) s \<and>
    (one_idle smlt C (one_proto smlt kvs C mem) s' \<longrightarrow> (\<exists>xs. executed_in smlt C chs s' xs))"
proof -
  have going: "one_going smlt C chs s" by (rule one_going_run [OF assms(1-6)])
  note b = one_bounded [OF assms(1,2) going assms(7,8)]
  then show ?thesis using one_outcome [OF assms(1,2) _ _ assms(6,8)] by fastforce
qed

subsection \<open>Witness\<close>

definition nothing_queued :: "conf \<Rightarrow> one_replica net \<Rightarrow> bool" where
  "nothing_queued C s \<longleftrightarrow> list_all (\<lambda>i. n_pend s i = [] \<and>
     list_all (\<lambda>q. n_chan s q (core_of C i) = []) (map unat (cf_cores C @ cf_clients C))) [0..<length (cf_cores C)]"

lemma nothing_queued_idle:
  assumes "nothing_queued C s" and "1 < length (cf_cores C)"
  shows "one_idle smlt C P s"
proof -
  have e: "n_pend s k = []" "q \<in> unat ` set (cf_cores C) \<union> unat ` set (cf_clients C) \<Longrightarrow> n_chan s q (core_of C k) = []"
    if "k < length (cf_cores C)" for k q
    using assms(1) that by (auto simp: nothing_queued_def list_all_iff)
  have "core_of C (acc smlt) \<in> unat ` set (cf_cores C)" "core_of C (ldr smlt) \<in> unat ` set (cf_cores C)"
    using core_in roles_less(1,2) [OF assms(2)] by blast+
  then show ?thesis using e by (auto simp: one_idle_def)
qed

definition one_rest :: "bool \<Rightarrow> choice list" where
  "one_rest smlt = (let l = ldr smlt; a = acc smlt in
     [Receive l 5, Act l, Receive a l, Act a, Act a, Act a, Receive l a, Act l, Act l, Client_recv 5 l, Receive 2 a, Act 2])"

definition one_ask :: "bool \<Rightarrow> choice list" where
  "one_ask smlt = [Client_send 5 (ldr smlt) example_request]"

definition rest_done :: "bool \<Rightarrow> bool" where
  "rest_done smlt = (case net_run example_conf (one_loop smlt False example_conf) (one_ask smlt) (empty_net (one_net_example smlt)) of
     None \<Rightarrow> False
   | Some s \<Rightarrow> (case net_run example_conf (one_loop smlt False example_conf) (one_rest smlt) s of None \<Rightarrow> False
       | Some s' \<Rightarrow> nothing_queued example_conf s'))"

lemma rest_run: "rest_done False" "rest_done True"
  by code_simp+

lemma one_ask_choice: "\<forall>ch \<in> set (one_ask smlt). one_choice example_conf ch"
proof -
  have "one_choice example_conf (Client_send 5 d example_request)" for d
    using example_request_facts(2,3) by simp
  then show ?thesis by (simp add: one_ask_def)
qed

lemma one_rest_choices: "\<forall>ch \<in> set (one_rest smlt). \<not> sends_request ch" "length (filter internal (one_rest smlt)) = 11"
  by (simp_all add: one_rest_def Let_def)

lemma one_ask_requests: "requests_to (core_of example_conf (ldr smlt)) 5 (one_ask smlt) = [example_request]"
  using example_request_facts(2) by (cases smlt) (simp_all add: one_ask_def core_of_def example_conf_def ldr_def)

lemma example_clients: "unat ` set (cf_clients example_conf) = {5}"
  by code_simp

lemma one_rest_result:
  "\<exists>s s'. net_run example_conf (one_proto smlt False example_conf one_mem) (one_ask smlt) (empty_net (one_net_example smlt)) = Some s \<and>
     net_run example_conf (one_proto smlt False example_conf one_mem) (one_rest smlt) s = Some s' \<and>
     one_idle smlt example_conf (one_proto smlt False example_conf one_mem) s'"
proof -
  have "rest_done smlt" using rest_run by (cases smlt) simp_all
  then show ?thesis
    unfolding rest_done_def one_proto_def net_run_start
    by (auto split: option.splits intro!: nothing_queued_idle)
qed

lemma one_ask_order:
  assumes "executed_in smlt example_conf (one_ask smlt) s xs" and "i < 3"
  shows "n_log s i = [[11, 12, 13]]"
proof -
  have "of_client 5 xs = [example_request]" "fst ` set xs \<subseteq> {5}"
    using assms(1) by (simp_all add: executed_in_def merges_def example_clients one_ask_requests)
  then have "map snd xs = [example_request]" by (auto simp: of_client_def filter_id_conv subset_iff)
  then show ?thesis using assms example_request_facts(4) by (simp add: executed_in_def stale_def)
qed

theorem one_liveness_witness:
  "\<forall>smlt. \<exists>s s'. net_run example_conf (one_proto smlt False example_conf one_mem) (one_rest smlt) s = Some s' \<and>
     11 \<le> work example_conf (one_proto smlt False example_conf one_mem) (one_weight example_conf) s \<and>
     n_log s' 0 = [[11, 12, 13]] \<and> n_log s' 1 = [[11, 12, 13]] \<and> n_log s' 2 = [[11, 12, 13]]"
proof
  fix smlt
  let ?C = example_conf and ?P = "one_proto smlt False example_conf one_mem"
  obtain s s' where s: "net_run ?C ?P (one_ask smlt) (empty_net (one_net_example smlt)) = Some s"
      "net_run ?C ?P (one_rest smlt) s = Some s'" "one_idle smlt ?C ?P s'"
    using one_rest_result by blast
  have big: "1 < length (cf_cores ?C)" and below: "cf_below ?C = ALG_NONE" by (simp_all add: example_conf_def)
  note live = one_liveness [OF example_conf_wf big below one_net_init s(1) one_ask_choice s(2) one_rest_choices(1)]
  obtain xs where xs: "executed_in smlt ?C (one_ask smlt) s' xs" using live s(3) by blast
  have "11 \<le> work ?C ?P (one_weight ?C) s" using live one_rest_choices(2) [of smlt] by simp
  with s(2) one_ask_order [OF xs] show "\<exists>s s'. net_run ?C ?P (one_rest smlt) s = Some s' \<and>
     11 \<le> work ?C ?P (one_weight ?C) s \<and>
     n_log s' 0 = [[11, 12, 13]] \<and> n_log s' 1 = [[11, 12, 13]] \<and> n_log s' 2 = [[11, 12, 13]]"
    by (intro exI [of _ s] exI [of _ s']) simp
qed

end
