(* ===== verification/Kvs_System.thy ===== *)
theory Kvs_System
  imports Kvs One_Live
begin

text \<open>
  The replicated store: what the logs of two replicas say about their stores, for any protocol
  that keeps one log a prefix of the other, and the store on top of 1Paxos, the protocol whose
  learners have a build for it.
\<close>

subsection \<open>Stores and logs\<close>

text \<open>The writes a log of executed commands stands for.\<close>

definition writes_of :: "u64 list list \<Rightarrow> (u64 \<times> u64 \<times> u64) list" where
  "writes_of cs = map (\<lambda>p. (p ! 0, p ! 1, p ! 2)) cs"

abbreviation store_update :: "(u64 \<times> u64 \<times> u64) \<Rightarrow> (nat \<Rightarrow> (u64 \<times> u64) option) \<Rightarrow> nat \<Rightarrow> (u64 \<times> u64) option" where
  "store_update w m \<equiv> m(unat (fst w) \<mapsto> snd w)"

lemma writes_executed:
  assumes "has_store i kvs mem" and "\<forall>p \<in> set cs. unat (p ! 0) < 1024"
  shows "\<exists>kvs' mem'. exec_writes (kv_replica_of i) (writes_of cs) mem = Inr mem' \<and> has_store i kvs' mem' \<and>
    kv_abs kvs' = fold store_update (writes_of cs) (kv_abs kvs)"
  by (rule exec_writes_abs [OF assms(1)]) (use assms(2) in \<open>auto simp: writes_of_def\<close>)

lemma prefix_stores:
  assumes "prefix xs ys"
  shows "\<exists>ds. ys = xs @ ds \<and> fold store_update (writes_of ys) m = fold store_update (writes_of ds) (fold store_update (writes_of xs) m)"
  using assms by (auto simp: prefix_def writes_of_def)

text \<open>
  Both replicas execute their logs without a fault. One log is the other followed by the commands
  \<open>ds\<close> that clients have sent, and executing just these commands, in this order, turns the store of
  the replica that is behind into the other's; so equal logs give equal stores.
\<close>

definition stores_meet :: "u64 list list \<Rightarrow> nat \<Rightarrow> kvs_memory \<Rightarrow> u64 list list \<Rightarrow> nat \<Rightarrow> kvs_memory \<Rightarrow> u64 list list \<Rightarrow> bool" where
  "stores_meet sent i mem li j mem' lj \<longleftrightarrow> (\<exists>ki mi kj mj ds.
     exec_writes (kv_replica_of i) (writes_of li) mem = Inr mi \<and> has_store i ki mi \<and>
     exec_writes (kv_replica_of j) (writes_of lj) mem' = Inr mj \<and> has_store j kj mj \<and> set ds \<subseteq> set sent \<and>
     (lj = li @ ds \<and> kv_abs kj = fold store_update (writes_of ds) (kv_abs ki) \<or>
      li = lj @ ds \<and> kv_abs ki = fold store_update (writes_of ds) (kv_abs kj)) \<and>
     (li = lj \<longrightarrow> kv_abs ki = kv_abs kj))"

lemma logs_stores:
  assumes "has_store i kvs mem" and "has_store j kvs mem'" and "\<forall>p \<in> set sent. unat (p ! 0) < 1024"
    and "set li \<subseteq> set sent" and "set lj \<subseteq> set sent" and "prefix li lj \<or> prefix lj li"
  shows "stores_meet sent i mem li j mem' lj"
proof -
  from writes_executed [OF assms(1), of li] assms(3,4) obtain ki mi where
    i: "exec_writes (kv_replica_of i) (writes_of li) mem = Inr mi" "has_store i ki mi"
    "kv_abs ki = fold store_update (writes_of li) (kv_abs kvs)" by blast
  from writes_executed [OF assms(2), of lj] assms(3,5) obtain kj mj where
    j: "exec_writes (kv_replica_of j) (writes_of lj) mem' = Inr mj" "has_store j kj mj"
    "kv_abs kj = fold store_update (writes_of lj) (kv_abs kvs)" by blast
  have same: "li = lj \<longrightarrow> kv_abs ki = kv_abs kj" using i(3) j(3) by simp
  from assms(6) obtain ds where "set ds \<subseteq> set sent"
    "lj = li @ ds \<and> kv_abs kj = fold store_update (writes_of ds) (kv_abs ki) \<or>
     li = lj @ ds \<and> kv_abs ki = fold store_update (writes_of ds) (kv_abs kj)"
  proof
    assume "prefix li lj"
    from prefix_stores [OF this, of "kv_abs kvs"] obtain ds where "lj = li @ ds"
      "kv_abs kj = fold store_update (writes_of ds) (kv_abs ki)" unfolding i(3) j(3) by blast
    with assms(5) that show ?thesis by auto
  next
    assume "prefix lj li"
    from prefix_stores [OF this, of "kv_abs kvs"] obtain ds where "li = lj @ ds"
      "kv_abs ki = fold store_update (writes_of ds) (kv_abs kj)" unfolding i(3) j(3) by blast
    with assms(4) that show ?thesis by auto
  qed
  with i(1,2) j(1,2) same show ?thesis unfolding stores_meet_def by blast
qed

subsection \<open>The store on 1Paxos\<close>

lemma selected_subset: "set (selected bs ms) \<subseteq> set ms"
  by (auto simp: selected_def dest: set_zip_leftD)

text \<open>A store after the commands of a log.\<close>

definition stored :: "nat \<Rightarrow> kvs_memory \<Rightarrow> u64 list list \<Rightarrow> (nat \<Rightarrow> (u64 \<times> u64) option) \<Rightarrow> bool" where
  "stored i mem cs m \<longleftrightarrow> (\<exists>ki mi. exec_writes (kv_replica_of i) (writes_of cs) mem = Inr mi \<and> has_store i ki mi \<and> kv_abs ki = m)"

lemma merged_keys:
  assumes "merges C d chs xs" and "\<forall>q \<in> unat ` set (cf_clients C). \<forall>m \<in> set (requests_to d q chs). unat (payload m ! 0) < 1024"
    and "p \<in> set (map payload (selected bs (map snd xs)))"
  shows "unat (p ! 0) < 1024"
proof -
  obtain m where "p = payload m" "m \<in> set (map snd xs)" using assms(3) selected_subset by fastforce
  then obtain q where q: "p = payload m" "(q, m) \<in> set xs" by auto
  then have client: "q \<in> unat ` set (cf_clients C)" using assms(1) unfolding merges_def by force
  have "m \<in> set (of_client q xs)" using q(2) by (force simp: of_client_def)
  moreover have "of_client q xs = requests_to d q chs" using assms(1) client unfolding merges_def by blast
  ultimately show ?thesis using assms(2) client q(1) by metis
qed

text \<open>
  C11: the key-value store on 1Paxos, in both builds for it: once the replicas have nothing left
  to do, all of them have executed their logs on their stores without a fault, and all stores are
  the same map: the initial one after the puts of an order of all requests, in which each
  client's are in the order it sent them, without repetitions.
\<close>

theorem kvs_onepaxos_stores:
  assumes "conf_wf C" and "1 < length (cf_cores C)" and "cf_below C = ALG_NONE"
    and "net_init C (one_proto smlt True C mem) s0" and "net_run C (one_proto smlt True C mem) chs s0 = Some s"
    and "\<forall>ch \<in> set chs. one_choice C ch" and "one_idle smlt C (one_proto smlt True C mem) s"
    and "\<forall>i < length (cf_cores C). has_store i kvs (stores i)"
    and "\<forall>q \<in> unat ` set (cf_clients C). \<forall>m \<in> set (requests_to (core_of C (ldr smlt)) q chs). unat (payload m ! 0) < 1024"
  shows "\<exists>xs. merges C (core_of C (ldr smlt)) chs xs \<and> (\<forall>i < length (cf_cores C). stored i (stores i) (n_log s i)
    (fold store_update (writes_of (map payload (selected (dedupe {} (map snd xs)) (map snd xs)))) (kv_abs kvs)))"
proof -
  have "one_going smlt C (chs @ []) s" using one_going_run [OF assms(1-6)] by simp
  from one_outcome [OF assms(1,2) this assms(7,6)] obtain xs where xs: "executed_in smlt C chs s xs" by auto
  then have merges: "merges C (core_of C (ldr smlt)) chs xs" by (simp add: executed_in_def)
  let ?cs = "map payload (selected (dedupe {} (map snd xs)) (map snd xs))"
  have "stored i (stores i) (n_log s i) (fold store_update (writes_of ?cs) (kv_abs kvs))" if i: "i < length (cf_cores C)" for i
  proof -
    have log: "n_log s i = ?cs" using xs i by (simp add: executed_in_def)
    have "has_store i kvs (stores i)" using assms(8) i by blast
    from writes_executed [OF this, of ?cs] merged_keys [OF merges assms(9)] show ?thesis unfolding log stored_def by blast
  qed
  with merges show ?thesis by blast
qed

subsection \<open>Witness\<close>

definition kv_steps :: "bool \<Rightarrow> choice list" where
  "kv_steps smlt = (let l = ldr smlt; a = acc smlt in
     [Client_send 5 l example_request, Receive l 5, Act l, Receive a l, Act a, Act a, Act a, Receive l a, Act l, Receive 2 a, Act 2])"

definition kv_done :: "bool \<Rightarrow> bool" where
  "kv_done smlt = (case net_run example_conf (one_loop smlt True example_conf) (kv_steps smlt) (empty_net (one_net_example smlt)) of
     None \<Rightarrow> False | Some s \<Rightarrow> nothing_queued example_conf s)"

lemma kv_steps_run: "kv_done False" "kv_done True"
  by code_simp+

lemma kv_steps_choices: "\<forall>ch \<in> set (kv_steps smlt). one_choice example_conf ch"
  using example_request_facts(2,3) by (simp add: kv_steps_def Let_def)

lemma kv_steps_requests:
  "requests_to (core_of example_conf (ldr smlt)) 5 (kv_steps smlt) = [example_request]"
  using example_request_facts(2) by (cases smlt) (simp_all add: kv_steps_def Let_def core_of_def example_conf_def ldr_def)

theorem kvs_onepaxos_stores_witness:
  "\<forall>smlt. \<exists>s m. net_run example_conf (one_proto smlt True example_conf one_mem) (kv_steps smlt) (empty_net (one_net_example smlt)) = Some s \<and>
     stored 2 (replicate 64 (Some (replicate 2048 0))) (n_log s 2) m \<and> m 11 = Some (12, 13)"
proof
  fix smlt
  let ?C = example_conf and ?P = "one_proto smlt True example_conf one_mem" and ?m = "replicate 64 (Some (replicate 2048 (0 :: u64)))"
  have "kv_done smlt" using kv_steps_run by (cases smlt) simp_all
  then obtain s where s: "net_run ?C ?P (kv_steps smlt) (empty_net (one_net_example smlt)) = Some s" "nothing_queued ?C s"
    unfolding kv_done_def one_proto_def net_run_start by (auto split: option.splits)
  have big: "1 < length (cf_cores ?C)" and below: "cf_below ?C = ALG_NONE" by (simp_all add: example_conf_def)
  have stores: "\<forall>i < length (cf_cores ?C). has_store i (replicate 2048 0) ?m" by (simp add: has_store_def)
  have keys: "\<forall>q \<in> unat ` set (cf_clients ?C). \<forall>m \<in> set (requests_to (core_of ?C (ldr smlt)) q (kv_steps smlt)). unat (payload m ! 0) < 1024"
    using example_request_facts(4) unfolding example_clients by (simp add: kv_steps_requests)
  obtain xs where xs: "merges ?C (core_of ?C (ldr smlt)) (kv_steps smlt) xs" and k: "\<forall>i < length (cf_cores ?C). stored i ?m (n_log s i)
      (fold store_update (writes_of (map payload (selected (dedupe {} (map snd xs)) (map snd xs)))) (kv_abs (replicate 2048 0)))"
    using kvs_onepaxos_stores [OF example_conf_wf big below one_net_init s(1) kv_steps_choices
      nothing_queued_idle [OF s(2) big] stores keys] by blast
  have "of_client 5 xs = [example_request]" "fst ` set xs \<subseteq> {5}"
    using xs unfolding merges_def example_clients by (simp_all add: kv_steps_requests)
  then have "map snd xs = [example_request]" by (auto simp: of_client_def filter_id_conv subset_iff)
  then have "fold store_update (writes_of (map payload (selected (dedupe {} (map snd xs)) (map snd xs)))) (kv_abs (replicate 2048 0)) 11 =
      Some (12, 13)"
    using example_request_facts(4) by (simp add: stale_def writes_of_def)
  moreover have "2 < length (cf_cores ?C)" by simp
  then have "stored 2 ?m (n_log s 2)
      (fold store_update (writes_of (map payload (selected (dedupe {} (map snd xs)) (map snd xs)))) (kv_abs (replicate 2048 0)))"
    using k by blast
  ultimately show "\<exists>s m. net_run ?C ?P (kv_steps smlt) (empty_net (one_net_example smlt)) = Some s \<and>
     stored 2 ?m (n_log s 2) m \<and> m 11 = Some (12, 13)"
    using s(1) by blast
qed

end
