(* ===== verification/Spec2Isabelle.thy ===== *)
theory Spec2Isabelle
  imports Crc Shm_System Bench Tpc_Smlt Tpc_Live Kvs_System
begin

text \<open>
  A verification development of the consensus protocols of this repository.

  \<^bold>\<open>The program.\<close> The repository is a library of agreement protocols for the cores of one machine, on
  top of the Smelt message passing runtime. \<^verbatim>\<open>com_layer.c\<close> starts a node level of replicas, one
  per core of a list, and each of them may start a core level below it; \<^verbatim>\<open>replica.c\<close> is the entry
  point of a replica thread and selects the protocol; \<^verbatim>\<open>tpc_replica.c\<close>, \<^verbatim>\<open>one_replica.c\<close>,
  \<^verbatim>\<open>broadcast_replica.c\<close>, \<^verbatim>\<open>chain_replica.c\<close> and \<^verbatim>\<open>raft_replica.c\<close> are the protocols, each a message
  handler behind a polling loop; \<^verbatim>\<open>shm_queue.c\<close> is a queue in shared memory that replaces messages
  below a node; \<^verbatim>\<open>client.c\<close> sends requests and defines the message header; \<^verbatim>\<open>kvs_replica.c\<close> and
  \<^verbatim>\<open>kvs_client.c\<close> are a key-value store on top; \<^verbatim>\<open>incremental_stats.c\<close> and \<^verbatim>\<open>crc.c\<close> are helpers;
  \<^verbatim>\<open>bench/main.c\<close> starts everything from a configuration file.

  \<^bold>\<open>Conventions.\<close> A handler is a function from a context (the replica's thread-local
  structure, the communication layer of its thread, the counters of the measurement, the message
  it works on in place) to a result: a new context with the actions it has performed, in
  order (\<open>Prelude\<close>: sends, calls of the application function, queue writes), or a \<open>fault\<close> where
  C leaves the behaviour undefined (an access out of bounds, a null or freed pointer, a null call,
  a failed assertion). Integers keep their C widths as words, so they wrap where C wraps. What
  \<^verbatim>\<open>malloc\<close> leaves uninitialised, the time stamp counter, the answers of Smelt, the
  NUMA layout and the build flags \<^verbatim>\<open>SMLT\<close> and \<^verbatim>\<open>KVS\<close> are parameters; \<^verbatim>\<open>MEASURE_TP\<close> is on, as
  \<^verbatim>\<open>includes/consensus.h\<close> defines it (in \<^verbatim>\<open>flags.h\<close> it is commented out), and \<^verbatim>\<open>VERIFY\<close>, the debug output and
  \<^verbatim>\<open>BARRELFISH\<close> are off.

  \<^bold>\<open>The theories.\<close>
  \<^item> \<open>Prelude\<close>: widths, faults, results, checked accesses, actions, \<^verbatim>\<open>includes/consensus.h\<close>'s constants.
  \<^item> \<open>Message\<close>: the header functions of \<^verbatim>\<open>client.c\<close> (\<open>get_tag\<close>, \<open>set_client_id\<close>, ...), with their
    round trips and independence.
  \<^item> \<open>Shm_Queue\<close>, \<open>Shm_System\<close>: \<^verbatim>\<open>shm_queue.c\<close>; a writer and readers over one buffer as an inductive
    step relation, the invariant of a lap, and what happens beyond it.
  \<^item> \<open>Com_Layer\<close>: \<^verbatim>\<open>com_layer.c\<close>: \<open>consensus_init\<close>, the start of both levels with the argument array
    each node is given, \<open>com_layer_core_send_request\<close>, the clients' arguments.
  \<^item> \<open>Stats\<close>, \<open>Crc\<close>: \<^verbatim>\<open>incremental_stats.c\<close> over an interface of floating point operations, with 32-bit counts;
    one theorem holds for any rounding arithmetic, another for exact reals; \<^verbatim>\<open>crc.c\<close> against bit-serial polynomial division.
  \<^item> \<open>Replica_Base\<close>: what the five replica files repeat: the common fields, the statements, the
    set-up handler, the throughput thread.
  \<^item> \<open>Network\<close>: replicas and channels as a transition system with arbitrary interleaving of receives,
    single actions of a handler and client sends; the locales \<open>log_replication\<close> and
    \<open>valid_replication\<close>, which state what a protocol's handler has to satisfy for its
    replicas to agree, with agreement and validity proved once.
  \<^item> \<open>Progress\<close>: the work left in a state, which every step of a replica decreases, and the locale
    \<open>progressing\<close>: what a handler has to satisfy for every request to be executed everywhere once
    no replica can do a step any more.
  \<^item> \<open>Chain\<close>, \<open>Broadcast\<close>, \<open>Tpc\<close>: the three protocols, all handlers, loops, initialisation and results,
    and the interpretations of the locales. \<open>Broadcast\<close> and \<open>Tpc_Smlt\<close> also treat the builds with Smelt's
    collectives as systems of replicas: Smelt's broadcast delivers each message once to every other replica, to each in
    the order of the broadcasts, while the order of the replicas is a parameter (\<open>cf_rank\<close>), and
    what a reduction gives its root is left open. \<open>Tpc_Live\<close> is the progress of two-phase commit with clients
    that wait for their answers: prepare and ready messages on their way and ready messages counted
    are one for each follower.
  \<^item> \<open>Entry_Queue\<close>, \<open>Onepaxos\<close>: the linked queue of \<^verbatim>\<open>one_replica.c\<close> on a heap, which under any interleaving of
    its operations is a sequence (locale \<open>fifo\<close>), and the handlers;
    acceptor and learners execute the same commands, at most once; change of leader and acceptor.
  \<^item> \<open>One_Net\<close>: a system of 1Paxos replicas in the normal case, in all builds: what a learner has yet to
    execute is what its table of request ids selects from the learn messages on their way to it.
  \<^item> \<open>One_Live\<close>: the progress of that system: where messages can be, what each handler does with them
    exactly, and what is left to do.
  \<^item> \<open>Raft_Log\<close>, \<open>Raft\<close>: the doubly linked log of \<^verbatim>\<open>raft_replica.c\<close> on a heap whose freed cells are
    remembered (locale \<open>log_store\<close>, interpreted on it), and the handlers; the commit rule, the log of
    a follower, and the inputs on which the code dereferences null or freed pointers.
  \<^item> \<open>Client\<close>, \<open>Kvs\<close>: \<^verbatim>\<open>client.c\<close>; \<^verbatim>\<open>kvs_replica.c\<close> and \<^verbatim>\<open>kvs_client.c\<close>, with the store as a map.
  \<^item> \<open>Kvs_System\<close>: what logs that are prefixes of each other say about the stores of two replicas, and
    the store on top of 1Paxos.
  \<^item> \<open>Typing\<close>: whatever the handlers of the five protocols do, the messages they keep and send
    have seven words (the collection \<open>typing\<close>).
  \<^item> \<open>Replica\<close>, \<open>Bench\<close>: \<^verbatim>\<open>replica.c\<close>; \<^verbatim>\<open>bench/main.c\<close> with the parts of the C library it uses (\<open>atol\<close>,
    \<open>fscanf_d\<close>), from the configuration text to the running replicas.
  \<^item> This theory: the key-value store on top of the protocols that agree.

  \<^bold>\<open>What is shown.\<close> Agreement and validity of chain, broadcast and two-phase commit hold for every
  interleaving and any number of replicas up to the 64 the code allows, and so they do for
  the builds of broadcast and two-phase commit with Smelt's
  collectives, in whatever order Smelt hands a broadcast to the replicas. For 1Paxos they hold in the normal case, with clients that send what the client
  library sends, in all builds. Chain, broadcast, two-phase commit with clients that wait for their answers, and 1Paxos in
  the normal case are live: the steps left to the replicas are bounded, and when none is possible every
  replica has executed every request, in 1Paxos without those its table of request ids rejects. The stores of key-value replicas on any of these protocols
  differ exactly by the commands at the end of the longer log, which one of them has still to execute, and are the same once the
  system is quiet; on 1Paxos they end as the same, explicitly given map. For
  1Paxos the acceptor and each learner, and for Raft a follower of one leader, execute the same
  sequence, for any list of messages. Every handler keeps the type of messages. Refinement lemmas relate the linked structures
  to sequences and the store to a map. The
  remaining theorems state the behaviour of single operations on all their branches, including the
  faults the code can run into; where a theorem states such a fault its text says how it is reached.

  \<^bold>\<open>Bounds.\<close> The Raft handler receives further messages while it serves one; the recursion is
  bounded by a fuel, \<open>handle_message_raft\<close> supplies the number of messages still to come, and
  \<open>raft_nested_handling_ends\<close> shows that more fuel changes nothing. Walks through the linked lists are bounded
  by the number of allocated cells. The loops of the measuring threads and of the benchmark are
  functions on the list of events that drive them. All other recursion is structural or has a measure.

  \<^bold>\<open>Not modelled.\<close> The Smelt runtime, its topologies and pthreads are external: sends, receives and
  node starts are actions or parameters, channels are FIFO as Smelt documents. Not proved:
  agreement across changes of leader or acceptor of 1Paxos, where handlers run into the faults that
  \<open>Onepaxos\<close> states, and of a Raft system, whose leader faults at its third request (\<open>Raft\<close>);
  liveness of two-phase commit with clients that do not wait, whose next request resets the counter of ready
  messages the previous one needs, and under \<^verbatim>\<open>SMLT\<close>, where it depends on what Smelt's reduction delivers; the
  composition of both levels, as the core level is started with the wrong
  arguments (\<open>Com_Layer\<close>). The code under \<^verbatim>\<open>VERIFY\<close>, which refers to names that no file
  declares, is not modelled. The tests under \<^verbatim>\<open>test/\<close>, the vendored
  queue under \<^verbatim>\<open>test/shm_queue/umpq\<close> and the scripts are left out.
\<close>

subsection \<open>The replicated store\<close>

text \<open>
  C6: key-value store replicas on top of chain replication agree: when the stores of two
  replicas started with the same contents and the clients only use keys below the bound,
  both have executed their logs without a fault; the log of one is the log of the other
  followed by the commands \<open>ds\<close> the slower one has still to execute, all sent by clients, and
  executing just these in this order turns the slower one's store into the other's; when nothing
  is pending or in transit the stores are the same map.
\<close>

theorem kvs_replicas_agree:
  assumes "conf_wf C" and "net_reach C (chain_proto C) s"
    and "i < length (cf_cores C)" and "j < length (cf_cores C)"
    and "has_store i kvs mem" and "has_store j kvs mem'" and "\<forall>p \<in> set (n_sent s). unat (p ! 0) < 1024"
  shows "\<exists>ki mi kj mj ds. exec_writes (kv_replica_of i) (writes_of (n_log s i)) mem = Inr mi \<and> has_store i ki mi \<and>
    exec_writes (kv_replica_of j) (writes_of (n_log s j)) mem' = Inr mj \<and> has_store j kj mj \<and>
    set ds \<subseteq> set (n_sent s) \<and>
    (n_log s j = n_log s i @ ds \<and> kv_abs kj = fold store_update (writes_of ds) (kv_abs ki) \<or>
     n_log s i = n_log s j @ ds \<and> kv_abs ki = fold store_update (writes_of ds) (kv_abs kj)) \<and>
    (chain_log.quiet C s \<longrightarrow> kv_abs ki = kv_abs kj)"
proof -
  have "stores_meet (n_sent s) i mem (n_log s i) j mem' (n_log s j)"
    using logs_stores [OF assms(5-7)] chain_log.validity [OF assms(1,2)] chain_log.agreement [OF assms(1-4)] assms(3,4) by blast
  moreover have "chain_log.quiet C s \<longrightarrow> n_log s i = n_log s j"
    using chain_log.quiet_same [OF assms(1,2) _ assms(3)] chain_log.quiet_same [OF assms(1,2) _ assms(4)] by metis
  ultimately show ?thesis unfolding stores_meet_def by blast
qed

theorem kvs_replicas_agree_witness:
  "\<exists>s mi ki mj kj. net_reach example_conf (chain_proto example_conf) s \<and> n_log s 1 = [] \<and> n_log s 2 = [[11, 12, 13]] \<and>
     exec_writes (kv_replica_of 1) [] (replicate 64 (Some (replicate 2048 0))) = Inr mi \<and> has_store 1 ki mi \<and>
     exec_writes (kv_replica_of 2) [(11, 12, 13)] (replicate 64 (Some (replicate 2048 0))) = Inr mj \<and> has_store 2 kj mj \<and>
     kv_abs kj = (kv_abs ki)(11 \<mapsto> (12, 13))"
proof -
  let ?mem = "replicate 64 (Some (replicate 2048 (0 :: u64)))"
  obtain s where s: "net_reach example_conf (chain_proto example_conf) s" "n_log s 1 = []" "n_log s 2 = [[11, 12, 13]]"
    "n_sent s = [[11, 12, 13]]"
    using chain_example_reach by blast
  then have sent: "\<forall>p \<in> set (n_sent s). unat (p ! 0) < 1024" by simp
  have h: "has_store 1 (replicate 2048 0) ?mem" "has_store 2 (replicate 2048 0) ?mem" by (simp_all add: has_store_def)
  from kvs_replicas_agree [OF example_conf_wf s(1) _ _ h sent] obtain ki mi kj mj where
    "exec_writes (kv_replica_of 1) [] ?mem = Inr mi" "has_store 1 ki mi"
    "exec_writes (kv_replica_of 2) [(11, 12, 13)] ?mem = Inr mj" "has_store 2 kj mj"
    "kv_abs kj = (kv_abs ki)(11 \<mapsto> (12, 13))"
    using s by (auto simp: writes_of_def)
  with s show ?thesis by blast
qed

text \<open>
  C12: so do key-value store replicas on top of both builds of broadcast and of two-phase commit, and of
  every build of 1Paxos in the normal case: at any time, under any interleaving, both have
  executed their logs without a fault, one log is the other followed by the commands the slower replica has
  still to execute, and executing these turns its store into the other's; once nothing is pending or in
  transit the logs are the same, and with them the stores (\<open>stores_meet\<close>).
\<close>

theorem kvs_any_protocol:
  assumes "conf_wf C" and "i < length (cf_cores C)" and "j < length (cf_cores C)"
    and "has_store i kvs mem" and "has_store j kvs mem'"
  shows "(net_reach C (broadcast_proto C) b \<and> (\<forall>p \<in> set (n_sent b). unat (p ! 0) < 1024) \<longrightarrow>
      stores_meet (n_sent b) i mem (n_log b i) j mem' (n_log b j) \<and>
      (broadcast_log.quiet C b \<longrightarrow> n_log b i = n_log b j)) \<and>
    (net_reach C (broadcast_smlt_proto C) v \<and> (\<forall>p \<in> set (n_sent v). unat (p ! 0) < 1024) \<longrightarrow>
      stores_meet (n_sent v) i mem (n_log v i) j mem' (n_log v j) \<and>
      (broadcast_smlt_log.quiet C v \<longrightarrow> n_log v i = n_log v j)) \<and>
    (net_reach C (tpc_proto heap C) t \<and> (\<forall>p \<in> set (n_sent t). unat (p ! 0) < 1024) \<longrightarrow>
      stores_meet (n_sent t) i mem (n_log t i) j mem' (n_log t j) \<and>
      (tpc_log.quiet C t \<longrightarrow> n_log t i = n_log t j)) \<and>
    (net_reach C (tpc_smlt_proto heap C) u \<and> (\<forall>p \<in> set (n_sent u). unat (p ! 0) < 1024) \<longrightarrow>
      stores_meet (n_sent u) i mem (n_log u i) j mem' (n_log u j) \<and>
      (tpc_smlt_log.quiet C u \<longrightarrow> n_log u i = n_log u j)) \<and>
    (1 < length (cf_cores C) \<and> net_init C (one_proto smlt True C m) o0 \<and>
      net_run C (one_proto smlt True C m) chs o0 = Some os \<and> (\<forall>ch \<in> set chs. ordinary ch) \<and>
      (\<forall>p \<in> set (n_sent os). unat (p ! 0) < 1024) \<longrightarrow>
      stores_meet (n_sent os) i mem (n_log os i) j mem' (n_log os j) \<and>
      (one_quiet smlt C os \<longrightarrow> n_log os i = n_log os j))"
proof (intro conjI impI; elim conjE)
  note meet = logs_stores [OF assms(4,5)]
  show "stores_meet (n_sent b) i mem (n_log b i) j mem' (n_log b j)"
    if "net_reach C (broadcast_proto C) b" "\<forall>p \<in> set (n_sent b). unat (p ! 0) < 1024"
    using meet [OF that(2)] broadcast_log.validity [OF assms(1) that(1)] broadcast_log.agreement [OF assms(1) that(1) assms(2,3)]
      assms(2,3) by blast
  show "n_log b i = n_log b j" if "net_reach C (broadcast_proto C) b" "broadcast_log.quiet C b"
    using broadcast_log.quiet_same [OF assms(1) that(1) that(2) assms(2)]
      broadcast_log.quiet_same [OF assms(1) that(1) that(2) assms(3)] by simp
  show "stores_meet (n_sent v) i mem (n_log v i) j mem' (n_log v j)"
    if "net_reach C (broadcast_smlt_proto C) v" "\<forall>p \<in> set (n_sent v). unat (p ! 0) < 1024"
    using meet [OF that(2)] broadcast_smlt_log.validity [OF assms(1) that(1)]
      broadcast_smlt_log.agreement [OF assms(1) that(1) assms(2,3)] assms(2,3) by blast
  show "n_log v i = n_log v j" if "net_reach C (broadcast_smlt_proto C) v" "broadcast_smlt_log.quiet C v"
    using broadcast_smlt_log.quiet_same [OF assms(1) that(1) that(2) assms(2)]
      broadcast_smlt_log.quiet_same [OF assms(1) that(1) that(2) assms(3)] by simp
  show "stores_meet (n_sent t) i mem (n_log t i) j mem' (n_log t j)"
    if "net_reach C (tpc_proto heap C) t" "\<forall>p \<in> set (n_sent t). unat (p ! 0) < 1024"
    using meet [OF that(2)] tpc_log.validity [OF assms(1) that(1)] tpc_log.agreement [OF assms(1) that(1) assms(2,3)]
      assms(2,3) by blast
  show "n_log t i = n_log t j" if "net_reach C (tpc_proto heap C) t" "tpc_log.quiet C t"
    using tpc_log.quiet_same [OF assms(1) that(1) that(2) assms(2)]
      tpc_log.quiet_same [OF assms(1) that(1) that(2) assms(3)] by simp
  show "stores_meet (n_sent u) i mem (n_log u i) j mem' (n_log u j)"
    if "net_reach C (tpc_smlt_proto heap C) u" "\<forall>p \<in> set (n_sent u). unat (p ! 0) < 1024"
    using meet [OF that(2)] tpc_smlt_log.validity [OF assms(1) that(1)] tpc_smlt_log.agreement [OF assms(1) that(1) assms(2,3)]
      assms(2,3) by blast
  show "n_log u i = n_log u j" if "net_reach C (tpc_smlt_proto heap C) u" "tpc_smlt_log.quiet C u"
    using tpc_smlt_log.quiet_same [OF assms(1) that(1) that(2) assms(2)]
      tpc_smlt_log.quiet_same [OF assms(1) that(1) that(2) assms(3)] by simp
  show "stores_meet (n_sent os) i mem (n_log os i) j mem' (n_log os j)"
    if o: "1 < length (cf_cores C)" "net_init C (one_proto smlt True C m) o0"
      "net_run C (one_proto smlt True C m) chs o0 = Some os" "\<forall>ch \<in> set chs. ordinary ch"
      "\<forall>p \<in> set (n_sent os). unat (p ! 0) < 1024"
  proof -
    have inv: "one_inv smlt C os" by (rule one_run [OF assms(1) o(1) one_inv_init [OF assms(1) o(1,2)] o(3,4)])
    have "set (n_log os k) \<subseteq> set (n_sent os)" if "k < length (cf_cores C)" for k
      using inv that by (auto simp: one_inv_def upto_def)
    moreover have "prefix (n_log os i) (n_log os j) \<or> prefix (n_log os j) (n_log os i)"
      using one_prefix [OF inv assms(2)] one_prefix [OF inv assms(3)] by (rule prefix_same_cases)
    ultimately show ?thesis using meet [OF o(5)] assms(2,3) by blast
  qed
  show "n_log os i = n_log os j"
    if o: "1 < length (cf_cores C)" "net_init C (one_proto smlt True C m) o0"
      "net_run C (one_proto smlt True C m) chs o0 = Some os" "\<forall>ch \<in> set chs. ordinary ch" "one_quiet smlt C os"
  proof -
    have inv: "one_inv smlt C os" by (rule one_run [OF assms(1) o(1) one_inv_init [OF assms(1) o(1,2)] o(3,4)])
    show ?thesis using one_quiet_same [OF inv o(5,1) assms(2)] one_quiet_same [OF inv o(5,1) assms(3)] by simp
  qed
qed

theorem kvs_any_protocol_witness:
  "\<exists>b. net_reach example_conf (broadcast_proto example_conf) b \<and> n_log b 1 = [] \<and> n_log b 2 = [[11, 12, 13]] \<and>
     stores_meet (n_sent b) 1 (replicate 64 (Some (replicate 2048 0))) [] 2 (replicate 64 (Some (replicate 2048 0))) [[11, 12, 13]]"
proof -
  let ?mem = "replicate 64 (Some (replicate 2048 (0 :: u64)))"
  obtain b where b: "net_reach example_conf (broadcast_proto example_conf) b" "n_log b 1 = []" "n_log b 2 = [[11, 12, 13]]"
    "n_sent b = [[11, 12, 13]]"
    using broadcast_example_reach by blast
  have h: "has_store 1 (replicate 2048 0) ?mem" "has_store 2 (replicate 2048 0) ?mem" by (simp_all add: has_store_def)
  have "1 < length (cf_cores example_conf)" "2 < length (cf_cores example_conf)" by simp_all
  from kvs_any_protocol [OF example_conf_wf this h, THEN conjunct1, of b] b
  have "stores_meet (n_sent b) 1 ?mem (n_log b 1) 2 ?mem (n_log b 2)" by simp
  with b show ?thesis by (intro exI [of _ b]) simp
qed

end
